(* ===== verification/Prelude.thy ===== *)
theory Prelude
  imports Main "HOL-Library.Word"
begin

text \<open>
  What every component of the development shares: the faults a C++ operation can end in, the
  outcome of an operation that mutates its object and may throw, and generic lemmas on machine
  words, lists and association lists.

  An operation of a C++ object is modelled by a function from the object's state to a pair of the
  state it leaves and its outcome: \<open>Inr v\<close> for a normal return of \<open>v\<close>, \<open>Inl f\<close>
  for an exception (the state is the one at the point of the throw, since C++ does not roll
  mutations back) or for a step into undefined behaviour.
\<close>

named_theorems wf_intros \<open>rules that establish a well-formedness invariant\<close>
named_theorems fault_free \<open>facts that an operation returns normally\<close>

subsection \<open>Faults and outcomes\<close>

datatype fault =
    Invalid_argument string
  | Runtime_error string
  | Overflow_error string
  | Length_error string
  | Bad_alloc
  | Undefined_behaviour string

type_synonym 'a outcome = "fault + 'a"
type_synonym u8 = "8 word"
type_synonym u16 = "16 word"
type_synonym u32 = "32 word"
type_synonym u64 = "64 word"

text \<open>The text of an exception; undefined behaviour is none and has only a description.\<close>

definition what :: "fault \<Rightarrow> string" where
  "what f = (case f of Invalid_argument w \<Rightarrow> w | Runtime_error w \<Rightarrow> w | Overflow_error w \<Rightarrow> w |
     Length_error w \<Rightarrow> w | Bad_alloc \<Rightarrow> ''std::bad_alloc'' | Undefined_behaviour w \<Rightarrow> w)"

definition returns :: "'a outcome \<Rightarrow> bool" where
  "returns r \<longleftrightarrow> (case r of Inl _ \<Rightarrow> False | Inr _ \<Rightarrow> True)"

lemma returns_simps [simp]: "returns (Inr x)" "\<not> returns (Inl e)"
  by (simp_all add: returns_def)

lemma returnsE: "returns r \<Longrightarrow> (\<And>x. r = Inr x \<Longrightarrow> P) \<Longrightarrow> P"
  by (cases r) auto

lemma returns_iff: "returns r \<longleftrightarrow> (\<exists>x. r = Inr x)"
  by (cases r) auto

subsection \<open>Machine words\<close>

lemma unat_diff_le: "(b :: 'a::len word) \<le> a \<Longrightarrow> unat (a - b) = unat a - unat b"
  by (rule unat_sub)

lemma word_diff_less: "0 < b \<Longrightarrow> b \<le> a \<Longrightarrow> a - b < (a :: 'a::len word)"
  by (simp add: word_less_nat_alt unat_sub word_le_nat_alt)

lemma word_diff_pos: "b < a \<Longrightarrow> 0 < a - (b :: 'a::len word)"
  unfolding word_gt_0 by auto

lemma word_diff_min [simp]:
  "(a :: 'a::len word) \<le> b \<Longrightarrow> a - min a b = 0"
  "b \<le> a \<Longrightarrow> b - min a b = 0"
  by (simp_all add: min_def)

lemma word_diff_eq_0 [simp]: "(a - b = 0) = (a = (b :: 'a::len word))"
  by simp

lemma word_pos_iff [simp]: "(\<not> 0 < (a :: 'a::len word)) = (a = 0)"
  by (simp add: word_neq_0_conv [symmetric])

lemma unat_less_exp: "unat (s :: u64) < 2 ^ 64"
  using unsigned_less [of s] by simp

lemma minus_one_unat: "unat (- 1 :: u64) = 2 ^ 64 - 1"
  by (simp add: unsigned_minus_1_eq_mask mask_eq_exp_minus_1)

lemma unat_inc: "a \<noteq> -1 \<Longrightarrow> unat (a + 1) = Suc (unat (a :: 'a::len word))"
  by (simp add: add.commute add_eq_0_iff unatSuc)

subsection \<open>Lists\<close>

lemma takeWhile_append_all:
  "(\<And>x. x \<in> set xs \<Longrightarrow> P x) \<Longrightarrow> takeWhile P (xs @ ys) = xs @ takeWhile P ys"
  by simp

lemma dropWhile_append_all:
  "(\<And>x. x \<in> set xs \<Longrightarrow> P x) \<Longrightarrow> dropWhile P (xs @ ys) = dropWhile P ys"
  by simp

lemma takeWhile_none: "(\<And>x. x \<in> set xs \<Longrightarrow> \<not> P x) \<Longrightarrow> takeWhile P xs = []"
  by (cases xs) auto

lemma dropWhile_none: "(\<And>x. x \<in> set xs \<Longrightarrow> \<not> P x) \<Longrightarrow> dropWhile P xs = xs"
  by (cases xs) auto

lemma filter_distinct_split:
  "distinct (map fst xs) \<Longrightarrow> map_of xs k = Some v \<Longrightarrow>
   \<exists>ys zs. xs = ys @ (k, v) # zs \<and> filter (\<lambda>e. fst e \<noteq> k) xs = ys @ zs"
proof (induction xs)
  case Nil
  then show ?case by simp
next
  case (Cons x xs)
  show ?case
  proof (cases "fst x = k")
    case True
    with Cons.prems have "k \<notin> fst ` set xs" and x: "x = (k, v)" by (cases x, auto)+
    then have "filter (\<lambda>e. fst e \<noteq> k) xs = xs" by (intro filter_True) force
    with x show ?thesis by (intro exI [of _ "[]"] exI [of _ xs]) simp
  next
    case False
    with Cons.prems have "distinct (map fst xs)" "map_of xs k = Some v" by (cases x, auto)+
    from Cons.IH [OF this] obtain ys zs
      where "xs = ys @ (k, v) # zs" "filter (\<lambda>e. fst e \<noteq> k) xs = ys @ zs" by blast
    with False show ?thesis by (intro exI [of _ "x # ys"] exI [of _ zs]) simp
  qed
qed

lemma map_of_eq_Some_set:
  "distinct (map fst xs) \<Longrightarrow> (map_of xs k = Some v) = ((k, v) \<in> set xs)"
  by (simp add: map_of_eq_Some_iff)

lemma disjoint_mono_right: "A \<inter> B = {} \<Longrightarrow> B' \<subseteq> B \<Longrightarrow> A \<inter> B' = {}"
  by blast

lemma disjoint_mono_left: "A \<inter> B = {} \<Longrightarrow> A' \<subseteq> A \<Longrightarrow> A' \<inter> B = {}"
  by blast

lemma Ball_mono_set: "\<forall>x \<in> B. P x \<Longrightarrow> A \<subseteq> B \<Longrightarrow> \<forall>x \<in> A. P x"
  by blast

end
