(* ===== verification/Ordered_Map.thy ===== *)
theory Ordered_Map
  imports Prelude
begin

text \<open>
  \<^verbatim>\<open>std::map<K, V, Compare>\<close>, as far as the sources use it: the key-value pairs in iteration
  order. Every operation takes the comparator, as the C++ template does; two keys are
  equivalent when neither precedes the other. The locale \<open>comparator\<close> states what the standard
  asks of \<open>Compare\<close> where it is a total order, and proves the laws of the operations once for
  bids (\<^verbatim>\<open>std::greater\<close>), asks (\<^verbatim>\<open>std::less\<close>) and pending packets (\<^verbatim>\<open>std::less\<close>).
\<close>

type_synonym ('k, 'v) omap = "('k \<times> 'v) list"

definition key_equiv :: "('k \<Rightarrow> 'k \<Rightarrow> bool) \<Rightarrow> 'k \<Rightarrow> 'k \<Rightarrow> bool" where
  "key_equiv lt a b \<longleftrightarrow> \<not> lt a b \<and> \<not> lt b a"

fun omap_find :: "('k \<Rightarrow> 'k \<Rightarrow> bool) \<Rightarrow> 'k \<Rightarrow> ('k, 'v) omap \<Rightarrow> 'v option" where
  "omap_find lt k [] = None"
| "omap_find lt k ((k', v) # m) = (if key_equiv lt k k' then Some v else omap_find lt k m)"

text \<open>Assignment through an iterator or reference to the element at an existing key.\<close>

fun omap_put :: "('k \<Rightarrow> 'k \<Rightarrow> bool) \<Rightarrow> 'k \<Rightarrow> 'v \<Rightarrow> ('k, 'v) omap \<Rightarrow> ('k, 'v) omap" where
  "omap_put lt k v [] = []"
| "omap_put lt k v ((k', v') # m) =
     (if key_equiv lt k k' then (k', v) # m else (k', v') # omap_put lt k v m)"

text \<open>
  \<^verbatim>\<open>emplace\<close>: inserts at the key's place, and leaves the map alone when the key is there.
\<close>

fun omap_emplace :: "('k \<Rightarrow> 'k \<Rightarrow> bool) \<Rightarrow> 'k \<Rightarrow> 'v \<Rightarrow> ('k, 'v) omap \<Rightarrow> ('k, 'v) omap" where
  "omap_emplace lt k v [] = [(k, v)]"
| "omap_emplace lt k v ((k', v') # m) =
     (if lt k k' then (k, v) # (k', v') # m
      else if lt k' k then (k', v') # omap_emplace lt k v m
      else (k', v') # m)"

fun omap_erase :: "('k \<Rightarrow> 'k \<Rightarrow> bool) \<Rightarrow> 'k \<Rightarrow> ('k, 'v) omap \<Rightarrow> ('k, 'v) omap" where
  "omap_erase lt k [] = []"
| "omap_erase lt k ((k', v) # m) = (if key_equiv lt k k' then m else (k', v) # omap_erase lt k m)"

definition omap_wf :: "('k \<Rightarrow> 'k \<Rightarrow> bool) \<Rightarrow> ('k, 'v) omap \<Rightarrow> bool" where
  "omap_wf lt m \<longleftrightarrow> sorted_wrt lt (map fst m)"

lemma omap_wf_Nil [simp]: "omap_wf lt []"
  by (simp add: omap_wf_def)

lemma omap_wf_Cons [simp]:
  "omap_wf lt ((k, v) # m) \<longleftrightarrow> (\<forall>k' \<in> fst ` set m. lt k k') \<and> omap_wf lt m"
  by (simp add: omap_wf_def)

lemma omap_wf_append:
  "omap_wf lt (m @ m') \<longleftrightarrow>
     omap_wf lt m \<and> omap_wf lt m' \<and> (\<forall>k \<in> fst ` set m. \<forall>k' \<in> fst ` set m'. lt k k')"
  by (auto simp: omap_wf_def sorted_wrt_append)

lemma omap_put_keys [simp]: "map fst (omap_put lt k v m) = map fst m"
  by (induction m) auto

lemma omap_put_wf [simp]: "omap_wf lt (omap_put lt k v m) = omap_wf lt m"
  by (simp add: omap_wf_def)

lemma omap_emplace_subset: "set (omap_emplace lt k v m) \<subseteq> insert (k, v) (set m)"
  by (induction m) (auto split: if_splits)

locale comparator =
  fixes lt :: "'k \<Rightarrow> 'k \<Rightarrow> bool"
  assumes lt_irrefl: "\<not> lt a a"
    and lt_trans: "lt a b \<Longrightarrow> lt b c \<Longrightarrow> lt a c"
    and lt_total: "lt a b \<or> a = b \<or> lt b a"
begin

lemma lt_asym: "lt a b \<Longrightarrow> \<not> lt b a"
  using lt_irrefl lt_trans by blast

lemma lt_le_trans: "lt a b \<Longrightarrow> \<not> lt c b \<Longrightarrow> lt a c"
  using lt_total [of b c] lt_trans [of a b c] by blast

lemma key_equiv_eq [simp]: "key_equiv lt a b \<longleftrightarrow> a = b"
  using lt_total lt_irrefl by (auto simp: key_equiv_def)

lemma find_eq_map_of: "omap_find lt k m = map_of m k"
  by (induction m) auto

lemma wf_distinct: "omap_wf lt m \<Longrightarrow> distinct (map fst m)"
  by (induction m) (use lt_irrefl in force)+

lemma find_iff: "omap_wf lt m \<Longrightarrow> omap_find lt k m = Some v \<longleftrightarrow> (k, v) \<in> set m"
  by (simp add: find_eq_map_of map_of_eq_Some_iff wf_distinct)

lemma find_split:
  assumes "omap_wf lt m" "omap_find lt k m = Some v"
  obtains m1 m2 where "m = m1 @ (k, v) # m2" "k \<notin> fst ` set m1" "k \<notin> fst ` set m2"
    "\<forall>k' \<in> fst ` set m1. lt k' k" "\<forall>k' \<in> fst ` set m2. lt k k'"
proof -
  from assms have "(k, v) \<in> set m" by (simp add: find_iff)
  then obtain m1 m2 where m: "m = m1 @ (k, v) # m2" by (meson split_list)
  with assms(1) have 1: "\<forall>k' \<in> fst ` set m1. lt k' k" "\<forall>k' \<in> fst ` set m2. lt k k'"
    by (auto simp: omap_wf_append)
  then have "k \<notin> fst ` set m1" "k \<notin> fst ` set m2" using lt_irrefl by blast+
  from m this 1 show ?thesis by (rule that)
qed

lemma put_split: "k \<notin> fst ` set m1 \<Longrightarrow> omap_put lt k v (m1 @ (k, w) # m2) = m1 @ (k, v) # m2"
  by (induction m1) auto

lemma find_split_eq: "k \<notin> fst ` set m1 \<Longrightarrow> omap_find lt k (m1 @ (k, v) # m2) = Some v"
  by (induction m1) auto

lemma erase_split: "k \<notin> fst ` set m1 \<Longrightarrow> omap_erase lt k (m1 @ (k, w) # m2) = m1 @ m2"
  by (induction m1) auto

lemma find_put: "omap_find lt k' (omap_put lt k v m) =
    (if k' = k then map_option (\<lambda>_. v) (omap_find lt k m) else omap_find lt k' m)"
  by (induction m) auto

lemma find_emplace: "omap_wf lt m \<Longrightarrow> omap_find lt k' (omap_emplace lt k v m) =
    (if k' = k \<and> omap_find lt k m = None then Some v else omap_find lt k' m)"
proof (induction m)
  case Nil
  show ?case by simp
next
  case (Cons x m)
  obtain a w where x: "x = (a, w)" by fastforce
  have none: "omap_find lt k m = None" if "lt k a"
  proof -
    have "\<forall>k' \<in> fst ` set m. lt k k'" using that Cons.prems by (auto simp: x intro: lt_trans)
    then have "k \<notin> fst ` set m" using lt_irrefl by blast
    then show ?thesis by (simp add: find_eq_map_of map_of_eq_None_iff)
  qed
  consider "lt k a" | "k = a" | "lt a k" "\<not> lt k a" "k \<noteq> a"
    using lt_total [of k a] lt_asym lt_irrefl by blast
  then show ?case
  proof cases
    case 1
    then have "k \<noteq> a" using lt_irrefl by blast
    with 1 none show ?thesis by (simp add: x)
  next
    case 2
    then show ?thesis by (simp add: x lt_irrefl)
  next
    case 3
    with Cons show ?thesis by (auto simp: x)
  qed
qed

lemma find_erase: "omap_wf lt m \<Longrightarrow>
    omap_find lt k' (omap_erase lt k m) = (if k' = k then None else omap_find lt k' m)"
proof (induction m)
  case (Cons x m)
  obtain a w where x: "x = (a, w)" by fastforce
  have "map_of m a = None" using Cons.prems lt_irrefl by (force simp: x map_of_eq_None_iff)
  with Cons show ?case by (auto simp: x find_eq_map_of)
qed simp

lemma emplace_keys: "fst ` set (omap_emplace lt k v m) = insert k (fst ` set m)"
proof (induction m)
  case (Cons x m)
  then show ?case using lt_total [of k "fst x"] by (cases x) auto
qed simp

lemma emplace_wf: "omap_wf lt m \<Longrightarrow> omap_wf lt (omap_emplace lt k v m)"
proof (induction m)
  case (Cons x m)
  then show ?case
    using lt_total [of k "fst x"] by (cases x) (auto simp: emplace_keys intro: lt_trans)
qed simp

lemma erase_subset: "set (omap_erase lt k m) \<subseteq> set m"
  by (induction m) (auto split: if_splits)

lemma erase_wf: "omap_wf lt m \<Longrightarrow> omap_wf lt (omap_erase lt k m)"
proof (induction m)
  case (Cons x m)
  moreover from this have "\<forall>k' \<in> fst ` set (omap_erase lt k m). lt (fst x) k'"
    using erase_subset [of k m] by (cases x) auto
  ultimately show ?case by (cases x) auto
qed simp

lemma emplace_length: "omap_find lt k m = None \<Longrightarrow> length (omap_emplace lt k v m) = Suc (length m)"
proof (induction m)
  case (Cons x m)
  then show ?case using lt_total [of k "fst x"] by (cases x) (auto split: if_splits)
qed simp

lemma emplace_present:
  "omap_wf lt m \<Longrightarrow> omap_find lt k m = Some w \<Longrightarrow> omap_emplace lt k v m = m"
proof (induction m)
  case (Cons x m)
  obtain a u where x: "x = (a, u)" by fastforce
  show ?case
  proof (cases "k = a")
    case True
    then show ?thesis by (simp add: x lt_irrefl)
  next
    case False
    with Cons.prems have "(k, w) \<in> set m" by (auto simp: x find_iff)
    with Cons.prems have "lt a k" by (force simp: x)
    with Cons False show ?thesis by (auto simp: x lt_asym)
  qed
qed simp

lemma emplace_split:
  assumes "omap_wf lt m" "omap_find lt k m = None"
  obtains m1 m2 where "m = m1 @ m2" "omap_emplace lt k v m = m1 @ (k, v) # m2"
    "\<forall>k' \<in> fst ` set m1. lt k' k" "\<forall>k' \<in> fst ` set m2. lt k k'"
  using assms
proof (induction m arbitrary: thesis)
  case Nil
  show ?case by (rule Nil.prems(1) [of "[]" "[]"]) simp_all
next
  case (Cons x m)
  obtain a w where x: "x = (a, w)" by fastforce
  from Cons.prems(3) have ne: "k \<noteq> a" by (auto simp: x)
  show ?case
  proof (cases "lt k a")
    case True
    with Cons.prems(2) show ?thesis
      by (intro Cons.prems(1) [of "[]" "x # m"]) (auto simp: x intro: lt_trans)
  next
    case False
    with ne have ak: "lt a k" using lt_total by blast
    have m: "omap_wf lt m" "omap_find lt k m = None" using Cons.prems(2,3) ne by (simp_all add: x)
    show ?thesis
    proof (rule Cons.IH [OF _ m])
      fix m1 m2
      assume "m = m1 @ m2" "omap_emplace lt k v m = m1 @ (k, v) # m2"
        "\<forall>k' \<in> fst ` set m1. lt k' k" "\<forall>k' \<in> fst ` set m2. lt k k'"
      with False ak show ?thesis by (intro Cons.prems(1) [of "x # m1" m2]) (auto simp: x)
    qed
  qed
qed

end

end
