(* ===== verification/Matching_Types.thy ===== *)
theory Matching_Types
  imports Ordered_Map
begin

text \<open>
  The strong types, orders and events of the matching engine
  (\<^verbatim>\<open>components/matching/engine/include/.../types.hpp\<close>, \<^verbatim>\<open>orders.hpp\<close>, \<^verbatim>\<open>events.hpp\<close>). Each
  wrapper struct is a datatype with one constructor around its unsigned integer; \<^verbatim>\<open>price\<close> and
  \<^verbatim>\<open>quantity\<close> also have their throwing constructors, \<open>make_price\<close> and \<open>make_quantity\<close>.
  Enumeration values outside the declared enumerators (reachable in C++ by a cast only) are not
  represented.
\<close>

datatype symbol_id = Symbol_id (symbol_value: u32)
datatype user_id = User_id (user_value: u64)
datatype client_order_id = Client_order_id (client_order_value: u64)
datatype price = Price (price_value: u64)
datatype quantity = Quantity (quantity_value: u64)
datatype sequence_number = Sequence_number (sequence_value: u64)
datatype side = Buy | Sell

definition make_price :: "u64 \<Rightarrow> price outcome" where
  "make_price amount =
     (if amount = 0 then Inl (Invalid_argument ''price must be positive'') else Inr (Price amount))"

definition make_quantity :: "u64 \<Rightarrow> quantity outcome" where
  "make_quantity amount =
     (if amount = 0 then Inl (Invalid_argument ''quantity must be positive'')
      else Inr (Quantity amount))"

text \<open>The post-increment of \<^verbatim>\<open>sequence_number\<close>: the previous value and the wrapped successor.\<close>

definition sequence_post_increment :: "sequence_number \<Rightarrow> sequence_number \<times> sequence_number" where
  "sequence_post_increment s = (s, Sequence_number (sequence_value s + 1))"

text \<open>The defaulted \<^verbatim>\<open>operator<=>\<close> of the wrappers the engine compares: it compares the values.\<close>

definition price_le :: "price \<Rightarrow> price \<Rightarrow> bool" where
  "price_le a b \<longleftrightarrow> price_value a \<le> price_value b"

definition quantity_le :: "quantity \<Rightarrow> quantity \<Rightarrow> bool" where
  "quantity_le a b \<longleftrightarrow> quantity_value a \<le> quantity_value b"

text \<open>With them both wrappers are linear orders, so that the library's order facts apply.\<close>

instantiation price :: linorder
begin

definition less_eq_price :: "price \<Rightarrow> price \<Rightarrow> bool" where
  "less_eq_price = price_le"

definition less_price :: "price \<Rightarrow> price \<Rightarrow> bool" where
  "less_price a b \<longleftrightarrow> \<not> price_le b a"

instance
  by standard (auto simp: less_eq_price_def less_price_def price_le_def price.expand)

end

instantiation quantity :: linorder
begin

definition less_eq_quantity :: "quantity \<Rightarrow> quantity \<Rightarrow> bool" where
  "less_eq_quantity = quantity_le"

definition less_quantity :: "quantity \<Rightarrow> quantity \<Rightarrow> bool" where
  "less_quantity a b \<longleftrightarrow> \<not> quantity_le b a"

instance
  by standard (auto simp: less_eq_quantity_def less_quantity_def quantity_le_def quantity.expand)

end

lemmas price_order_defs = less_eq_price_def less_price_def price_le_def
lemmas quantity_order_defs = less_eq_quantity_def less_quantity_def quantity_le_def

subsection \<open>Orders\<close>

record order_key =
  ok_user :: user_id
  ok_client_order :: client_order_id

datatype order_pricing = Limit_order price | Market_order

record submit_order =
  so_key :: order_key
  so_instrument :: symbol_id
  so_direction :: side
  so_pricing :: order_pricing
  so_size :: quantity

record cancel_order =
  co_key :: order_key

record update_order =
  uo_key :: order_key
  uo_pricing :: order_pricing
  uo_size :: quantity

subsection \<open>Events\<close>

datatype event =
    Submit_accepted order_key
  | Submit_rejected order_key string
  | Update_accepted order_key
  | Update_rejected order_key string
  | Cancel_rejected order_key string
  | Order_cancelled order_key
  | Trade_executed order_key order_key symbol_id price quantity
  | Book_updated symbol_id side "price option" u64

text \<open>
  The two comparators of an order book: bids are kept by \<^verbatim>\<open>std::greater\<close>, asks by \<^verbatim>\<open>std::less\<close>.
\<close>

abbreviation bid_before :: "price \<Rightarrow> price \<Rightarrow> bool" where
  "bid_before a b \<equiv> b < a"

abbreviation ask_before :: "price \<Rightarrow> price \<Rightarrow> bool" where
  "ask_before a b \<equiv> a < b"

fun side_before :: "side \<Rightarrow> price \<Rightarrow> price \<Rightarrow> bool" where
  "side_before Buy = (\<lambda>a b. bid_before a b)"
| "side_before Sell = (\<lambda>a b. ask_before a b)"

fun opposite :: "side \<Rightarrow> side" where
  "opposite Buy = Sell"
| "opposite Sell = Buy"

lemma opposite_opposite [simp]: "opposite (opposite d) = d"
  by (cases d) simp_all

lemma opposite_neq [simp]: "opposite d \<noteq> d" "d \<noteq> opposite d"
  by (cases d, simp_all)+

interpretation bid_order: comparator "\<lambda>a b :: price. b < a"
  by unfold_locales auto

interpretation ask_order: comparator "\<lambda>a b :: price. a < b"
  by unfold_locales auto

interpretation book_order: comparator "side_before d" for d
  by unfold_locales (cases d; auto)+

interpretation word_order: comparator "\<lambda>a b :: u64. a < b"
  by unfold_locales auto

lemma make_quantity_Inr: "0 < q \<Longrightarrow> make_quantity q = Inr (Quantity q)"
  by (simp add: make_quantity_def word_neq_0_conv)

lemma make_quantity_iff: "make_quantity q = Inr x \<longleftrightarrow> x = Quantity q \<and> q \<noteq> 0"
  by (auto simp: make_quantity_def)

end
