(* ===== verification/Order_Book.thy ===== *)
theory Order_Book
  imports Matching_Types
begin

text \<open>
  The order book of one symbol (\<^verbatim>\<open>components/matching/engine/src/order_book.cpp\<close> and its header):
  the state, the private helpers and the public operations, in the order of the source.

  A \<^verbatim>\<open>std::list\<close> node is a number that the book's allocator \<open>ob_next_node\<close> never gives twice, and a
  \<^verbatim>\<open>std::list\<close> iterator is that number, so a dangling iterator stays recognisable: reading through
  one, or erasing through one from a list that does not hold it, is \<open>Undefined_behaviour\<close>. The
  template parameter \<^verbatim>\<open>Levels\<close> is the comparator \<open>lt\<close> of the map.
\<close>

type_synonym node = nat

record resting_order =
  ro_key :: order_key
  ro_direction :: side
  ro_limit_price :: price
  ro_open_size :: quantity
  ro_sequence :: sequence_number

text \<open>The handle; a default-constructed one has no direction, no price and a singular iterator.\<close>

record resting_order_handle =
  h_direction :: "side option"
  h_limit_price :: "price option"
  h_order :: "node option"

definition empty_handle :: resting_order_handle where
  "empty_handle = \<lparr>h_direction = None, h_limit_price = None, h_order = None\<rparr>"

definition has_value :: "resting_order_handle \<Rightarrow> bool" where
  "has_value h \<longleftrightarrow> h_direction h \<noteq> None"

definition make_handle :: "side \<Rightarrow> price \<Rightarrow> node \<Rightarrow> resting_order_handle" where
  "make_handle d p n = \<lparr>h_direction = Some d, h_limit_price = Some p, h_order = Some n\<rparr>"

record submit_result =
  sr_events :: "event list"
  sr_resting_order :: resting_order_handle
  sr_filled_resting_orders :: "order_key list"

record cancel_result =
  cr_events :: "event list"
  cr_cancelled :: bool

record update_result =
  ur_events :: "event list"
  ur_resting_order :: resting_order_handle
  ur_filled_resting_orders :: "order_key list"
  ur_updated :: bool

definition empty_update_result :: update_result where
  "empty_update_result = \<lparr>ur_events = [], ur_resting_order = empty_handle,
     ur_filled_resting_orders = [], ur_updated = False\<rparr>"

record price_level_snapshot =
  pls_level_price :: price
  pls_total_size :: u64

record order_book_snapshot =
  obs_instrument :: symbol_id
  obs_bids :: "price_level_snapshot list"
  obs_asks :: "price_level_snapshot list"

record incoming_order =
  in_key :: order_key
  in_direction :: side
  in_open_size :: quantity
  in_sequence :: sequence_number

record price_level =
  pl_total_size :: u64
  pl_orders :: "(node \<times> resting_order) list"

definition empty_level :: price_level where
  "empty_level = \<lparr>pl_total_size = 0, pl_orders = []\<rparr>"

lemma empty_level_simps [simp]: "pl_total_size empty_level = 0" "pl_orders empty_level = []"
  by (simp_all add: empty_level_def)

record top_of_book_state =
  tob_best_price :: price
  tob_total_size :: u64

type_synonym levels = "(price, price_level) omap"

record order_book =
  ob_instrument :: symbol_id
  ob_bids :: levels
  ob_asks :: levels
  ob_next_node :: node

definition make_order_book :: "symbol_id \<Rightarrow> order_book" where
  "make_order_book instrument =
     \<lparr>ob_instrument = instrument, ob_bids = [], ob_asks = [], ob_next_node = 0\<rparr>"

subsection \<open>Pricing, top of book and snapshots\<close>

fun limit_price :: "order_pricing \<Rightarrow> price option" where
  "limit_price (Limit_order p) = Some p"
| "limit_price Market_order = None"

definition can_buy_cross :: "order_pricing \<Rightarrow> price \<Rightarrow> bool" where
  "can_buy_cross pricing best_ask =
     (case limit_price pricing of Some limit \<Rightarrow> limit \<ge> best_ask | None \<Rightarrow> True)"

definition can_sell_cross :: "order_pricing \<Rightarrow> price \<Rightarrow> bool" where
  "can_sell_cross pricing best_bid =
     (case limit_price pricing of Some limit \<Rightarrow> limit \<le> best_bid | None \<Rightarrow> True)"

definition top_of_book :: "levels \<Rightarrow> top_of_book_state option" where
  "top_of_book levels =
     (case levels of
        [] \<Rightarrow> None
      | (best_price, level) # _ \<Rightarrow>
          Some \<lparr>tob_best_price = best_price, tob_total_size = pl_total_size level\<rparr>)"

fun snapshot_loop ::
  "levels \<Rightarrow> nat \<Rightarrow> price_level_snapshot list \<Rightarrow> price_level_snapshot list" where
  "snapshot_loop [] depth result = result"
| "snapshot_loop ((level_price, level) # levels) depth result =
     (if length result = depth then result
      else snapshot_loop levels depth
             (result @ [\<lparr>pls_level_price = level_price, pls_total_size = pl_total_size level\<rparr>]))"

definition snapshot_levels :: "levels \<Rightarrow> nat \<Rightarrow> price_level_snapshot list" where
  "snapshot_levels levels depth = snapshot_loop levels depth []"

definition snapshot :: "order_book \<Rightarrow> nat \<Rightarrow> order_book_snapshot" where
  "snapshot b depth =
     \<lparr>obs_instrument = ob_instrument b,
      obs_bids = snapshot_levels (ob_bids b) depth,
      obs_asks = snapshot_levels (ob_asks b) depth\<rparr>"

definition append_book_update_if_changed ::
  "symbol_id \<Rightarrow> side \<Rightarrow> top_of_book_state option \<Rightarrow> top_of_book_state option \<Rightarrow>
   event list \<Rightarrow> event list" where
  "append_book_update_if_changed instrument direction before after events =
     (if before = after then events
      else case after of
          Some t \<Rightarrow> events @ [Book_updated instrument direction (Some (tob_best_price t)) (tob_total_size t)]
        | None \<Rightarrow> events @ [Book_updated instrument direction None 0])"

subsection \<open>Access through a handle\<close>

text \<open>All nodes of one side, in priority order: by price level, then in queue order.\<close>

definition queue :: "levels \<Rightarrow> (node \<times> resting_order) list" where
  "queue levels = concat (map (\<lambda>(p, l). pl_orders l) levels)"

definition deref :: "levels \<Rightarrow> node option \<Rightarrow> resting_order outcome" where
  "deref levels it =
     (case it of
        None \<Rightarrow> Inl (Undefined_behaviour ''dereference of a singular iterator'')
      | Some n \<Rightarrow>
          (case map_of (queue levels) n of
             None \<Rightarrow> Inl (Undefined_behaviour ''dereference of a dangling iterator'')
           | Some r \<Rightarrow> Inr r))"

text \<open>\<^verbatim>\<open>std::list::erase\<close>, defined only for an iterator into that list.\<close>

definition list_erase ::
  "node option \<Rightarrow> (node \<times> resting_order) list \<Rightarrow> (node \<times> resting_order) list outcome" where
  "list_erase it xs =
     (case it of
        None \<Rightarrow> Inl (Undefined_behaviour ''erase through a singular iterator'')
      | Some n \<Rightarrow>
          if n \<in> fst ` set xs then Inr (filter (\<lambda>e. fst e \<noteq> n) xs)
          else Inl (Undefined_behaviour ''erase through an iterator of another list''))"

text \<open>A write through an iterator: the node changes in the level that holds it.\<close>

definition write_node ::
  "node option \<Rightarrow> (resting_order \<Rightarrow> resting_order) \<Rightarrow> levels \<Rightarrow> levels" where
  "write_node it f levels =
     map (\<lambda>(p, l). (p, l\<lparr>pl_orders := map (\<lambda>(n, r). (n, if it = Some n then f r else r)) (pl_orders l)\<rparr>))
       levels"

definition remove_order ::
  "(price \<Rightarrow> price \<Rightarrow> bool) \<Rightarrow> order_key \<Rightarrow> resting_order_handle \<Rightarrow> levels \<Rightarrow> levels \<times> bool outcome" where
  "remove_order lt key handle levels =
     (case h_limit_price handle of
        None \<Rightarrow> (levels, Inr False)
      | Some p \<Rightarrow>
          (case omap_find lt p levels of
             None \<Rightarrow> (levels, Inr False)
           | Some level \<Rightarrow>
               (case deref levels (h_order handle) of
                  Inl f \<Rightarrow> (levels, Inl f)
                | Inr order \<Rightarrow>
                    if ro_key order \<noteq> key then (levels, Inr False)
                    else
                      (let level1 = level\<lparr>pl_total_size :=
                             pl_total_size level - quantity_value (ro_open_size order)\<rparr>
                       in case list_erase (h_order handle) (pl_orders level1) of
                            Inl f \<Rightarrow> (omap_put lt p level1 levels, Inl f)
                          | Inr orders \<Rightarrow>
                              (if orders = [] then omap_erase lt p levels
                               else omap_put lt p (level1\<lparr>pl_orders := orders\<rparr>) levels,
                               Inr True)))))"

text \<open>\<^verbatim>\<open>cancel_from_levels\<close> repeats \<^verbatim>\<open>remove_order\<close> and reports the cancellation.\<close>

definition cancel_from_levels ::
  "(price \<Rightarrow> price \<Rightarrow> bool) \<Rightarrow> order_key \<Rightarrow> resting_order_handle \<Rightarrow> levels \<Rightarrow> event list \<Rightarrow>
   levels \<times> event list \<times> bool outcome" where
  "cancel_from_levels lt key handle levels events =
     (case h_limit_price handle of
        None \<Rightarrow> (levels, events, Inr False)
      | Some p \<Rightarrow>
          (case omap_find lt p levels of
             None \<Rightarrow> (levels, events, Inr False)
           | Some level \<Rightarrow>
               (case deref levels (h_order handle) of
                  Inl f \<Rightarrow> (levels, events, Inl f)
                | Inr order \<Rightarrow>
                    if ro_key order \<noteq> key then (levels, events, Inr False)
                    else
                      (let level1 = level\<lparr>pl_total_size :=
                             pl_total_size level - quantity_value (ro_open_size order)\<rparr>
                       in case list_erase (h_order handle) (pl_orders level1) of
                            Inl f \<Rightarrow> (omap_put lt p level1 levels, events, Inl f)
                          | Inr orders \<Rightarrow>
                              (if orders = [] then omap_erase lt p levels
                               else omap_put lt p (level1\<lparr>pl_orders := orders\<rparr>) levels,
                               events @ [Order_cancelled key], Inr True)))))"

definition reduce_order_size ::
  "(price \<Rightarrow> price \<Rightarrow> bool) \<Rightarrow> update_order \<Rightarrow> resting_order_handle \<Rightarrow> levels \<Rightarrow> levels \<times> bool outcome" where
  "reduce_order_size lt order handle levels =
     (case (limit_price (uo_pricing order), h_limit_price handle) of
        (Some new_price, Some p) \<Rightarrow>
          if new_price \<noteq> p then (levels, Inr False)
          else
            (case omap_find lt p levels of
               None \<Rightarrow> (levels, Inr False)
             | Some level \<Rightarrow>
                 (case deref levels (h_order handle) of
                    Inl f \<Rightarrow> (levels, Inl f)
                  | Inr resting \<Rightarrow>
                      if ro_key resting \<noteq> uo_key order \<or> uo_size order > ro_open_size resting
                      then (levels, Inr False)
                      else
                        (let level1 = level\<lparr>pl_total_size := pl_total_size level -
                               (quantity_value (ro_open_size resting) - quantity_value (uo_size order))\<rparr>
                         in (write_node (h_order handle) (\<lambda>r. r\<lparr>ro_open_size := uo_size order\<rparr>)
                               (omap_put lt p level1 levels),
                             Inr True))))
      | _ \<Rightarrow> (levels, Inr False))"

subsection \<open>Matching\<close>

text \<open>The loop state of \<^verbatim>\<open>match_against_level\<close>: its four reference parameters.\<close>

record level_match =
  lm_incoming :: incoming_order
  lm_level :: price_level
  lm_events :: "event list"
  lm_filled :: "order_key list"

definition in_value :: "incoming_order \<Rightarrow> u64" where
  "in_value i = quantity_value (in_open_size i)"

definition take_from_incoming :: "u64 \<Rightarrow> incoming_order \<Rightarrow> incoming_order" where
  "take_from_incoming n i = i\<lparr>in_open_size := Quantity (quantity_value (in_open_size i) - n)\<rparr>"

definition take_from_resting :: "u64 \<Rightarrow> resting_order \<Rightarrow> resting_order" where
  "take_from_resting n r = r\<lparr>ro_open_size := Quantity (quantity_value (ro_open_size r) - n)\<rparr>"

text \<open>
  One pass of the loop body. The throw of \<^verbatim>\<open>quantity{executed_size}\<close> comes before any mutation.
\<close>

definition match_front ::
  "symbol_id \<Rightarrow> node \<Rightarrow> resting_order \<Rightarrow> (node \<times> resting_order) list \<Rightarrow> level_match \<Rightarrow>
   level_match \<times> unit outcome" where
  "match_front instrument n resting rest s =
     (let executed_size = min (in_value (lm_incoming s)) (quantity_value (ro_open_size resting))
      in case make_quantity executed_size of
           Inl f \<Rightarrow> (s, Inl f)
         | Inr executed \<Rightarrow>
             (let resting' = take_from_resting executed_size resting;
                  filled = (quantity_value (ro_open_size resting') = 0)
              in (s\<lparr>lm_incoming := take_from_incoming executed_size (lm_incoming s),
                    lm_level := \<lparr>pl_total_size = pl_total_size (lm_level s) - executed_size,
                                 pl_orders = (if filled then rest else (n, resting') # rest)\<rparr>,
                    lm_events := lm_events s @ [Trade_executed (in_key (lm_incoming s))
                      (ro_key resting) instrument (ro_limit_price resting) executed],
                    lm_filled := (if filled then lm_filled s @ [ro_key resting] else lm_filled s)\<rparr>,
                  Inr ())))"

lemma match_front_decreases:
  "match_front instrument n r rest s = (s', Inr ()) \<Longrightarrow>
   unat (in_value (lm_incoming s')) < unat (in_value (lm_incoming s))"
  by (auto simp: match_front_def Let_def make_quantity_iff in_value_def take_from_incoming_def
        split: sum.splits intro!: unat_mono word_diff_less)
     (simp_all add: word_neq_0_conv)

function match_against_level :: "symbol_id \<Rightarrow> level_match \<Rightarrow> level_match \<times> unit outcome" where
  "match_against_level instrument s =
     (if 0 < in_value (lm_incoming s) then
        (case pl_orders (lm_level s) of
           [] \<Rightarrow> (s, Inr ())
         | (n, resting) # rest \<Rightarrow>
             (case match_front instrument n resting rest s of
                (s', Inl f) \<Rightarrow> (s', Inl f)
              | (s', Inr _) \<Rightarrow> match_against_level instrument s'))
      else (s, Inr ()))"
  by pat_completeness auto
termination
  by (relation "measure (\<lambda>(i, s). unat (in_value (lm_incoming s)))")
     (auto dest: match_front_decreases [OF sym])

declare match_against_level.simps [simp del]

text \<open>After the level's loop the incoming order is filled or the level is empty.\<close>

lemma match_against_level_done:
  "match_against_level instrument s = (s', Inr ()) \<Longrightarrow>
   in_value (lm_incoming s') = 0 \<or> pl_orders (lm_level s') = []"
proof (induction instrument s rule: match_against_level.induct)
  case (1 instrument s)
  from "1.prems" show ?case
    by (subst (asm) match_against_level.simps)
       (auto split: if_splits list.splits prod.splits sum.splits dest: "1.IH")
qed

record side_match =
  sm_incoming :: incoming_order
  sm_levels :: levels
  sm_events :: "event list"
  sm_filled :: "order_key list"

definition match_best_level ::
  "symbol_id \<Rightarrow> price \<Rightarrow> price_level \<Rightarrow> levels \<Rightarrow> side_match \<Rightarrow> side_match \<times> unit outcome" where
  "match_best_level instrument best_price level rest s =
     (case match_against_level instrument \<lparr>lm_incoming = sm_incoming s, lm_level = level,
             lm_events = sm_events s, lm_filled = sm_filled s\<rparr> of
        (m, r) \<Rightarrow>
          (\<lparr>sm_incoming = lm_incoming m,
            sm_levels = (case r of
               Inl _ \<Rightarrow> (best_price, lm_level m) # rest
             | Inr _ \<Rightarrow> if pl_orders (lm_level m) = [] then rest else (best_price, lm_level m) # rest),
            sm_events = lm_events m, sm_filled = lm_filled m\<rparr>, r))"

definition match_measure :: "side_match \<Rightarrow> nat" where
  "match_measure s = length (sm_levels s) + (if in_value (sm_incoming s) = 0 then 0 else 1)"

lemma match_best_level_decreases:
  assumes "match_best_level instrument p l rest s = (s', Inr ())"
    and "sm_levels s = (p, l) # rest" and "0 < in_value (sm_incoming s)"
  shows "match_measure s' < match_measure s"
  using assms
  by (auto simp: match_best_level_def match_measure_def word_neq_0_conv [symmetric]
           split: prod.splits if_splits dest!: match_against_level_done)

function match_order ::
  "symbol_id \<Rightarrow> order_pricing \<Rightarrow> (order_pricing \<Rightarrow> price \<Rightarrow> bool) \<Rightarrow> side_match \<Rightarrow>
   side_match \<times> unit outcome" where
  "match_order instrument pricing can_cross s =
     (if 0 < in_value (sm_incoming s) then
        (case sm_levels s of
           [] \<Rightarrow> (s, Inr ())
         | (best_price, level) # rest \<Rightarrow>
             if \<not> can_cross pricing best_price then (s, Inr ())
             else (case match_best_level instrument best_price level rest s of
                     (s', Inl f) \<Rightarrow> (s', Inl f)
                   | (s', Inr _) \<Rightarrow> match_order instrument pricing can_cross s'))
      else (s, Inr ()))"
  by pat_completeness auto
termination
  by (relation "measure (\<lambda>(i, p, c, s). match_measure s)")
     (auto dest: match_best_level_decreases [OF sym])

declare match_order.simps [simp del]

subsection \<open>Resting\<close>

fun side_levels :: "side \<Rightarrow> order_book \<Rightarrow> levels" where
  "side_levels Buy b = ob_bids b"
| "side_levels Sell b = ob_asks b"

fun set_side_levels :: "side \<Rightarrow> levels \<Rightarrow> order_book \<Rightarrow> order_book" where
  "set_side_levels Buy ls b = b\<lparr>ob_bids := ls\<rparr>"
| "set_side_levels Sell ls b = b\<lparr>ob_asks := ls\<rparr>"

text \<open>\<^verbatim>\<open>levels[limit_price]\<close> (which inserts an empty level if there is none), then the push.\<close>

definition push_order ::
  "(price \<Rightarrow> price \<Rightarrow> bool) \<Rightarrow> incoming_order \<Rightarrow> price \<Rightarrow> node \<Rightarrow> levels \<Rightarrow> levels" where
  "push_order lt incoming p n levels =
     (let levels1 = omap_emplace lt p empty_level levels;
          level = (case omap_find lt p levels1 of Some l \<Rightarrow> l | None \<Rightarrow> empty_level);
          resting = \<lparr>ro_key = in_key incoming, ro_direction = in_direction incoming,
                     ro_limit_price = p, ro_open_size = in_open_size incoming,
                     ro_sequence = in_sequence incoming\<rparr>
      in omap_put lt p
           \<lparr>pl_total_size = pl_total_size level + quantity_value (in_open_size incoming),
            pl_orders = pl_orders level @ [(n, resting)]\<rparr> levels1)"

definition rest_order ::
  "incoming_order \<Rightarrow> price \<Rightarrow> order_book \<Rightarrow> order_book \<times> resting_order_handle" where
  "rest_order incoming p b =
     (let d = in_direction incoming; n = ob_next_node b
      in ((set_side_levels d (push_order (side_before d) incoming p n (side_levels d b)) b)
            \<lparr>ob_next_node := Suc n\<rparr>,
          make_handle d p n))"

subsection \<open>Submit\<close>

text \<open>The price an unfilled remainder rests at: the two nested conditions of the source.\<close>

definition resting_price :: "order_pricing \<Rightarrow> incoming_order \<Rightarrow> price option" where
  "resting_price pricing incoming = (if 0 < in_value incoming then limit_price pricing else None)"

definition submit_buy ::
  "submit_order \<Rightarrow> sequence_number \<Rightarrow> order_book \<Rightarrow> order_book \<times> submit_result outcome" where
  "submit_buy order sequence b =
     (let best_ask_before = top_of_book (ob_asks b);
          incoming = \<lparr>in_key = so_key order, in_direction = so_direction order,
                      in_open_size = so_size order, in_sequence = sequence\<rparr>
      in case match_order (ob_instrument b) (so_pricing order) can_buy_cross
                \<lparr>sm_incoming = incoming, sm_levels = ob_asks b,
                 sm_events = [Submit_accepted (so_key order)], sm_filled = []\<rparr> of
           (m, Inl f) \<Rightarrow> (b\<lparr>ob_asks := sm_levels m\<rparr>, Inl f)
         | (m, Inr _) \<Rightarrow>
             (let b1 = b\<lparr>ob_asks := sm_levels m\<rparr>
              in case (case resting_price (so_pricing order) (sm_incoming m) of
                         None \<Rightarrow> (b1, empty_handle, sm_events m)
                       | Some p \<Rightarrow>
                           (let best_bid_before = top_of_book (ob_bids b1);
                                (b2, h) = rest_order (sm_incoming m) p b1
                            in (b2, h, append_book_update_if_changed (ob_instrument b) Buy
                                         best_bid_before (top_of_book (ob_bids b2)) (sm_events m)))) of
                   (b2, h, events) \<Rightarrow>
                     (b2, Inr \<lparr>sr_events = append_book_update_if_changed (ob_instrument b) Sell
                                  best_ask_before (top_of_book (ob_asks b2)) events,
                               sr_resting_order = h,
                               sr_filled_resting_orders = sm_filled m\<rparr>)))"

definition submit_sell ::
  "submit_order \<Rightarrow> sequence_number \<Rightarrow> order_book \<Rightarrow> order_book \<times> submit_result outcome" where
  "submit_sell order sequence b =
     (let best_bid_before = top_of_book (ob_bids b);
          incoming = \<lparr>in_key = so_key order, in_direction = so_direction order,
                      in_open_size = so_size order, in_sequence = sequence\<rparr>
      in case match_order (ob_instrument b) (so_pricing order) can_sell_cross
                \<lparr>sm_incoming = incoming, sm_levels = ob_bids b,
                 sm_events = [Submit_accepted (so_key order)], sm_filled = []\<rparr> of
           (m, Inl f) \<Rightarrow> (b\<lparr>ob_bids := sm_levels m\<rparr>, Inl f)
         | (m, Inr _) \<Rightarrow>
             (let b1 = b\<lparr>ob_bids := sm_levels m\<rparr>;
                  events = append_book_update_if_changed (ob_instrument b) Buy
                             best_bid_before (top_of_book (ob_bids b1)) (sm_events m)
              in case (case resting_price (so_pricing order) (sm_incoming m) of
                         None \<Rightarrow> (b1, empty_handle, events)
                       | Some p \<Rightarrow>
                           (let best_ask_before = top_of_book (ob_asks b1);
                                (b2, h) = rest_order (sm_incoming m) p b1
                            in (b2, h, append_book_update_if_changed (ob_instrument b) Sell
                                         best_ask_before (top_of_book (ob_asks b2)) events))) of
                   (b2, h, events') \<Rightarrow>
                     (b2, Inr \<lparr>sr_events = events', sr_resting_order = h,
                               sr_filled_resting_orders = sm_filled m\<rparr>)))"

definition submit ::
  "submit_order \<Rightarrow> sequence_number \<Rightarrow> order_book \<Rightarrow> order_book \<times> submit_result outcome" where
  "submit order sequence b =
     (case so_direction order of
        Buy \<Rightarrow> submit_buy order sequence b
      | Sell \<Rightarrow> submit_sell order sequence b)"

subsection \<open>Update\<close>

text \<open>
  \<^verbatim>\<open>replace_order\<close> is instantiated with the own and the opposite side of the book, which
  \<open>direction\<close> selects.
\<close>

definition replace_order ::
  "update_order \<Rightarrow> resting_order_handle \<Rightarrow> side \<Rightarrow> (order_pricing \<Rightarrow> price \<Rightarrow> bool) \<Rightarrow>
   sequence_number \<Rightarrow> order_book \<Rightarrow> order_book \<times> update_result outcome" where
  "replace_order order handle direction can_cross sequence b =
     (let own_best_before = top_of_book (side_levels direction b);
          opposite_best_before = top_of_book (side_levels (opposite direction) b)
      in case remove_order (side_before direction) (uo_key order) handle (side_levels direction b) of
           (own, Inl f) \<Rightarrow> (set_side_levels direction own b, Inl f)
         | (own, Inr False) \<Rightarrow> (set_side_levels direction own b, Inr empty_update_result)
         | (own, Inr True) \<Rightarrow>
             (let b1 = set_side_levels direction own b;
                  incoming = \<lparr>in_key = uo_key order, in_direction = direction,
                              in_open_size = uo_size order, in_sequence = sequence\<rparr>
              in case match_order (ob_instrument b) (uo_pricing order) can_cross
                        \<lparr>sm_incoming = incoming, sm_levels = side_levels (opposite direction) b1,
                         sm_events = [Update_accepted (uo_key order)], sm_filled = []\<rparr> of
                   (m, Inl f) \<Rightarrow> (set_side_levels (opposite direction) (sm_levels m) b1, Inl f)
                 | (m, Inr _) \<Rightarrow>
                     (let b2 = set_side_levels (opposite direction) (sm_levels m) b1;
                          (b3, h) = (case resting_price (uo_pricing order) (sm_incoming m) of
                                       None \<Rightarrow> (b2, empty_handle)
                                     | Some p \<Rightarrow> rest_order (sm_incoming m) p b2);
                          events1 = append_book_update_if_changed (ob_instrument b) direction
                                      own_best_before (top_of_book (side_levels direction b3))
                                      (sm_events m);
                          events2 = append_book_update_if_changed (ob_instrument b) (opposite direction)
                                      opposite_best_before
                                      (top_of_book (side_levels (opposite direction) b3)) events1
                      in (b3, Inr \<lparr>ur_events = events2, ur_resting_order = h,
                                   ur_filled_resting_orders = sm_filled m,
                                   ur_updated = True\<rparr>))))"

definition update_buy ::
  "update_order \<Rightarrow> resting_order_handle \<Rightarrow> sequence_number \<Rightarrow> order_book \<Rightarrow>
   order_book \<times> update_result outcome" where
  "update_buy order handle sequence b =
     (let best_before = top_of_book (ob_bids b)
      in case reduce_order_size (\<lambda>x y. bid_before x y) order handle (ob_bids b) of
           (bids, Inl f) \<Rightarrow> (b\<lparr>ob_bids := bids\<rparr>, Inl f)
         | (bids, Inr True) \<Rightarrow>
             (b\<lparr>ob_bids := bids\<rparr>,
              Inr \<lparr>ur_events = append_book_update_if_changed (ob_instrument b) Buy best_before
                     (top_of_book bids) [Update_accepted (uo_key order)],
                   ur_resting_order = handle, ur_filled_resting_orders = [], ur_updated = True\<rparr>)
         | (bids, Inr False) \<Rightarrow>
             replace_order order handle Buy can_buy_cross sequence (b\<lparr>ob_bids := bids\<rparr>))"

definition update_sell ::
  "update_order \<Rightarrow> resting_order_handle \<Rightarrow> sequence_number \<Rightarrow> order_book \<Rightarrow>
   order_book \<times> update_result outcome" where
  "update_sell order handle sequence b =
     (let best_before = top_of_book (ob_asks b)
      in case reduce_order_size (\<lambda>x y. ask_before x y) order handle (ob_asks b) of
           (asks, Inl f) \<Rightarrow> (b\<lparr>ob_asks := asks\<rparr>, Inl f)
         | (asks, Inr True) \<Rightarrow>
             (b\<lparr>ob_asks := asks\<rparr>,
              Inr \<lparr>ur_events = append_book_update_if_changed (ob_instrument b) Sell best_before
                     (top_of_book asks) [Update_accepted (uo_key order)],
                   ur_resting_order = handle, ur_filled_resting_orders = [], ur_updated = True\<rparr>)
         | (asks, Inr False) \<Rightarrow>
             replace_order order handle Sell can_sell_cross sequence (b\<lparr>ob_asks := asks\<rparr>))"

definition update ::
  "update_order \<Rightarrow> resting_order_handle \<Rightarrow> sequence_number \<Rightarrow> order_book \<Rightarrow>
   order_book \<times> update_result outcome" where
  "update order handle sequence b =
     (case h_direction handle of
        Some Buy \<Rightarrow> update_buy order handle sequence b
      | Some Sell \<Rightarrow> update_sell order handle sequence b
      | None \<Rightarrow> (b, Inr empty_update_result))"

subsection \<open>Cancel\<close>

definition cancel_bid ::
  "order_key \<Rightarrow> resting_order_handle \<Rightarrow> order_book \<Rightarrow> order_book \<times> cancel_result outcome" where
  "cancel_bid key handle b =
     (let best_before = top_of_book (ob_bids b)
      in case cancel_from_levels (\<lambda>x y. bid_before x y) key handle (ob_bids b) [] of
           (bids, events, Inl f) \<Rightarrow> (b\<lparr>ob_bids := bids\<rparr>, Inl f)
         | (bids, events, Inr True) \<Rightarrow>
             (b\<lparr>ob_bids := bids\<rparr>,
              Inr \<lparr>cr_events = append_book_update_if_changed (ob_instrument b) Buy best_before
                     (top_of_book bids) events, cr_cancelled = True\<rparr>)
         | (bids, events, Inr False) \<Rightarrow>
             (b\<lparr>ob_bids := bids\<rparr>, Inr \<lparr>cr_events = events, cr_cancelled = False\<rparr>))"

definition cancel_ask ::
  "order_key \<Rightarrow> resting_order_handle \<Rightarrow> order_book \<Rightarrow> order_book \<times> cancel_result outcome" where
  "cancel_ask key handle b =
     (let best_before = top_of_book (ob_asks b)
      in case cancel_from_levels (\<lambda>x y. ask_before x y) key handle (ob_asks b) [] of
           (asks, events, Inl f) \<Rightarrow> (b\<lparr>ob_asks := asks\<rparr>, Inl f)
         | (asks, events, Inr True) \<Rightarrow>
             (b\<lparr>ob_asks := asks\<rparr>,
              Inr \<lparr>cr_events = append_book_update_if_changed (ob_instrument b) Sell best_before
                     (top_of_book asks) events, cr_cancelled = True\<rparr>)
         | (asks, events, Inr False) \<Rightarrow>
             (b\<lparr>ob_asks := asks\<rparr>, Inr \<lparr>cr_events = events, cr_cancelled = False\<rparr>))"

definition cancel ::
  "order_key \<Rightarrow> resting_order_handle \<Rightarrow> order_book \<Rightarrow> order_book \<times> cancel_result outcome" where
  "cancel key handle b =
     (case h_direction handle of
        Some Buy \<Rightarrow> cancel_bid key handle b
      | Some Sell \<Rightarrow> cancel_ask key handle b
      | None \<Rightarrow> (b, Inr \<lparr>cr_events = [], cr_cancelled = False\<rparr>))"

end
