(* ===== verification/Matching_Spec.thy ===== *)
theory Matching_Spec
  imports Order_Book
begin

text \<open>
  The abstract specification of one side of a book: a queue of resting orders in priority order,
  with no levels and no totals. \<open>consume\<close> fills an incoming quantity from the front of the queue
  while the front price crosses; \<open>enqueue\<close> puts an order behind every order it does not precede;
  removal and reduction act on one node. The lemmas here are about the specification alone; theory
  \<^verbatim>\<open>Book_Side\<close> proves that the level maps of the code implement it.
\<close>

type_synonym order_queue = "(node \<times> resting_order) list"

abbreviation open_value :: "resting_order \<Rightarrow> u64" where
  "open_value r \<equiv> quantity_value (ro_open_size r)"

text \<open>What is left of the quantity, the remaining queue, the fills and the keys filled in full.\<close>

fun consume :: "(price \<Rightarrow> bool) \<Rightarrow> u64 \<Rightarrow> order_queue \<Rightarrow>
  u64 \<times> order_queue \<times> (resting_order \<times> u64) list \<times> order_key list" where
  "consume cross q [] = (q, [], [], [])"
| "consume cross q ((n, r) # xs) =
     (if q = 0 \<or> \<not> cross (ro_limit_price r) then (q, (n, r) # xs, [], [])
      else if q < open_value r then (0, (n, take_from_resting q r) # xs, [(r, q)], [])
      else (case consume cross (q - open_value r) xs of
              (q', ys, ts, fs) \<Rightarrow> (q', ys, (r, open_value r) # ts, ro_key r # fs)))"

definition trade_events :: "order_key \<Rightarrow> symbol_id \<Rightarrow> (resting_order \<times> u64) list \<Rightarrow> event list" where
  "trade_events key instrument ts =
     map (\<lambda>(r, x). Trade_executed key (ro_key r) instrument (ro_limit_price r) (Quantity x)) ts"

definition enqueue ::
  "(price \<Rightarrow> price \<Rightarrow> bool) \<Rightarrow> node \<times> resting_order \<Rightarrow> order_queue \<Rightarrow> order_queue" where
  "enqueue lt e q =
     (let ahead = (\<lambda>x. \<not> lt (ro_limit_price (snd e)) (ro_limit_price (snd x)))
      in takeWhile ahead q @ e # dropWhile ahead q)"

definition remove_node :: "node \<Rightarrow> order_queue \<Rightarrow> order_queue" where
  "remove_node n q = filter (\<lambda>e. fst e \<noteq> n) q"

definition resize_node :: "node \<Rightarrow> quantity \<Rightarrow> order_queue \<Rightarrow> order_queue" where
  "resize_node n s q = map (\<lambda>(m, r). (m, if m = n then r\<lparr>ro_open_size := s\<rparr> else r)) q"

lemma resize_node_append: "resize_node n s (q @ q') = resize_node n s q @ resize_node n s q'"
  by (simp add: resize_node_def)

lemma resize_node_absent: "n \<notin> fst ` set q \<Longrightarrow> resize_node n s q = q"
  unfolding resize_node_def by (intro map_idI) force

definition queue_ok :: "side \<Rightarrow> order_queue \<Rightarrow> bool" where
  "queue_ok d q \<longleftrightarrow>
     distinct (map fst q) \<and>
     (\<forall>e \<in> set q. 0 < open_value (snd e) \<and> ro_direction (snd e) = d) \<and>
     sorted_wrt (\<lambda>a b. \<not> side_before d (ro_limit_price (snd b)) (ro_limit_price (snd a))) q"

definition total_open :: "order_queue \<Rightarrow> u64" where
  "total_open q = sum_list (map (\<lambda>e. open_value (snd e)) q)"

definition queue_top :: "order_queue \<Rightarrow> top_of_book_state option" where
  "queue_top q =
     (case q of [] \<Rightarrow> None
      | e # _ \<Rightarrow> Some \<lparr>tob_best_price = ro_limit_price (snd e),
                      tob_total_size = total_open (takeWhile
                        (\<lambda>x. ro_limit_price (snd x) = ro_limit_price (snd e)) q)\<rparr>)"

subsection \<open>Record facts\<close>

lemma take_from_resting_simps [simp]:
  "ro_key (take_from_resting x r) = ro_key r"
  "ro_direction (take_from_resting x r) = ro_direction r"
  "ro_limit_price (take_from_resting x r) = ro_limit_price r"
  "ro_sequence (take_from_resting x r) = ro_sequence r"
  "open_value (take_from_resting x r) = open_value r - x"
  by (simp_all add: take_from_resting_def)

lemma total_open_simps [simp]:
  "total_open [] = 0"
  "total_open (e # q) = open_value (snd e) + total_open q"
  "total_open (p @ q) = total_open p + total_open q"
  by (simp_all add: total_open_def)

lemma trade_events_simps [simp]:
  "trade_events k i [] = []"
  "trade_events k i ((r, x) # ts) =
     Trade_executed k (ro_key r) i (ro_limit_price r) (Quantity x) # trade_events k i ts"
  "trade_events k i (ts @ us) = trade_events k i ts @ trade_events k i us"
  by (simp_all add: trade_events_def)

subsection \<open>What consumption does to the queue\<close>

text \<open>
  A prefix of the queue is filled in full, and at most the order after it is reduced.
\<close>

lemma consume_shape:
  assumes "consume cross q xs = (q', ys, ts, fs)"
  obtains k where "k \<le> length xs" "fs = map (\<lambda>e. ro_key (snd e)) (take k xs)" "ys = drop k xs"
    "ts = map (\<lambda>e. (snd e, open_value (snd e))) (take k xs)"
  | k n r x rest where "drop k xs = (n, r) # rest" "k < length xs"
    "fs = map (\<lambda>e. ro_key (snd e)) (take k xs)"
    "ys = (n, take_from_resting x r) # rest" "0 < x" "x < open_value r" "q' = 0"
    "ts = map (\<lambda>e. (snd e, open_value (snd e))) (take k xs) @ [(r, x)]"
  using assms
proof (induction cross q xs arbitrary: q' ys ts fs thesis rule: consume.induct)
  case (1 cross q)
  show ?case by (rule "1.prems"(1) [of 0]) (use "1.prems"(3) in auto)
next
  case (2 cross q n r xs)
  consider "q = 0 \<or> \<not> cross (ro_limit_price r)"
    | "q \<noteq> 0" "cross (ro_limit_price r)" "q < open_value r"
    | "q \<noteq> 0" "cross (ro_limit_price r)" "\<not> q < open_value r"
    by blast
  then show ?case
  proof cases
    case 1
    show ?thesis by (rule "2.prems"(1) [of 0]) (use 1 "2.prems"(3) in auto)
  next
    case 2
    then have "0 < q" by (simp add: word_neq_0_conv)
    with 2 "2.prems"(3) show ?thesis by (intro "2.prems"(2) [of 0 n r xs q]) auto
  next
    case 3
    obtain q1 ys1 ts1 fs1 where c: "consume cross (q - open_value r) xs = (q1, ys1, ts1, fs1)"
      by (metis surj_pair)
    with 3 "2.prems"(3) have eqs: "q' = q1" "ys = ys1" "ts = (r, open_value r) # ts1" "fs = ro_key r # fs1"
      by auto
    show ?thesis
    proof (rule "2.IH" [OF _ _ _ _ c])
      show "\<not> (q = 0 \<or> \<not> cross (ro_limit_price r))" "\<not> q < open_value r" using 3 by auto
    next
      fix k
      assume "k \<le> length xs" "fs1 = map (\<lambda>e. ro_key (snd e)) (take k xs)" "ys1 = drop k xs"
        "ts1 = map (\<lambda>e. (snd e, open_value (snd e))) (take k xs)"
      then show ?thesis by (intro "2.prems"(1) [of "Suc k"]) (auto simp: eqs)
    next
      fix k n' r' x rest
      assume "drop k xs = (n', r') # rest" "k < length xs"
        "fs1 = map (\<lambda>e. ro_key (snd e)) (take k xs)" "ys1 = (n', take_from_resting x r') # rest"
        "0 < x" "x < open_value r'" "q1 = 0"
        "ts1 = map (\<lambda>e. (snd e, open_value (snd e))) (take k xs) @ [(r', x)]"
      then show ?thesis by (intro "2.prems"(2) [of "Suc k" n' r' rest x]) (auto simp: eqs)
    qed
  qed
qed

lemma consume_total:
  "consume cross q xs = (q', ys, ts, fs) \<Longrightarrow> total_open xs - total_open ys = q - q'"
  by (induction cross q xs arbitrary: q' ys ts fs rule: consume.induct)
     (auto split: if_splits prod.splits simp: algebra_simps)

lemma consume_le:
  "consume cross q xs = (q', ys, ts, fs) \<Longrightarrow> q' \<le> q"
proof (induction cross q xs arbitrary: q' ys ts fs rule: consume.induct)
  case (2 cross q n r xs)
  have *: "q - open_value r \<le> q" if "\<not> q < open_value r"
    using that by (simp add: word_sub_le)
  from 2 show ?case by (auto split: if_splits prod.splits intro: order_trans [OF _ *])
qed auto

lemma consume_executed:
  "consume cross q xs = (q', ys, ts, fs) \<Longrightarrow>
   (\<Sum>(r, x) \<leftarrow> ts. unat x) = unat q - unat q'"
proof (induction cross q xs arbitrary: q' ys ts fs rule: consume.induct)
  case (1 cross q)
  then show ?case by simp
next
  case (2 cross q n r xs)
  show ?case
  proof (cases "(q = 0 \<or> \<not> cross (ro_limit_price r)) \<or> q < open_value r")
    case True
    with "2.prems" show ?thesis by (auto split: if_splits)
  next
    case False
    obtain q1 ys1 ts1 fs1 where c: "consume cross (q - open_value r) xs = (q1, ys1, ts1, fs1)"
      by (metis surj_pair)
    from False have le: "open_value r \<le> q" by auto
    from c have "q1 \<le> q - open_value r" by (rule consume_le)
    then have "unat q1 \<le> unat q - unat (open_value r)" using le
      by (simp add: word_le_nat_alt unat_sub)
    moreover have "unat (open_value r) \<le> unat q" using le by (simp add: word_le_nat_alt)
    moreover from 2 False c have "(\<Sum>(r, x) \<leftarrow> ts1. unat x) = unat (q - open_value r) - unat q1"
      by auto
    ultimately show ?thesis using "2.prems" False c by (auto simp: unat_sub [OF le])
  qed
qed

lemma consume_positive:
  assumes "consume cross q xs = (q', ys, ts, fs)" "\<forall>e \<in> set xs. 0 < open_value (snd e)"
  shows "\<forall>e \<in> set ys. 0 < open_value (snd e)"
  using assms(1)
proof (rule consume_shape)
  fix k assume "ys = drop k xs"
  with assms(2) show ?thesis by (auto dest: in_set_dropD)
next
  fix k n r x rest
  assume a: "drop k xs = (n, r) # rest" "ys = (n, take_from_resting x r) # rest" "x < open_value r"
  have "set rest \<subseteq> set xs" using a(1) set_drop_subset [of k xs] by auto
  moreover have "0 < open_value r - x" using a(3) by (rule word_diff_pos)
  ultimately show ?thesis using a assms(2) by auto
qed

lemma consume_stops:
  assumes "consume cross q xs = (q', ys, ts, fs)" "\<forall>e \<in> set xs. 0 < open_value (snd e)"
  shows "q' = 0 \<or> ys = [] \<or> \<not> cross (ro_limit_price (snd (hd ys)))"
  using assms
  by (induction cross q xs arbitrary: q' ys ts fs rule: consume.induct)
     (auto split: if_splits prod.splits)

lemma consume_all_cross:
  "\<forall>e \<in> set xs. cross (ro_limit_price (snd e)) \<Longrightarrow> consume cross q xs = consume (\<lambda>_. True) q xs"
  by (induction cross q xs rule: consume.induct) (auto split: prod.splits)

lemma consume_append:
  assumes "consume cross q xs = (q1, xs', ts1, fs1)"
  shows "consume cross q (xs @ ys) =
    (if xs' = [] then (case consume cross q1 ys of (q2, ys', ts2, fs2) \<Rightarrow> (q2, ys', ts1 @ ts2, fs1 @ fs2))
     else (q1, xs' @ ys, ts1, fs1))"
  using assms
  by (induction cross q xs arbitrary: q1 xs' ts1 fs1 rule: consume.induct)
     (auto split: prod.splits if_splits)

lemma consume_zero [simp]: "consume cross 0 xs = (0, xs, [], [])"
  by (cases xs) auto

lemma consume_not_cross:
  "\<not> cross (ro_limit_price (snd e)) \<Longrightarrow> consume cross q (e # xs) = (q, e # xs, [], [])"
  by (cases e) auto

end
