(* ===== verification/Book_Side.thy ===== *)
theory Book_Side
  imports Matching_Spec
begin

text \<open>
  One side of the order book: the invariant of its level map and the refinement of the private
  helpers (\<open>remove_order\<close>, \<open>cancel_from_levels\<close>, \<open>reduce_order_size\<close>, \<open>match_order\<close>, the push of
  \<open>rest_order\<close>, \<open>top_of_book\<close>, \<open>snapshot_levels\<close>) to the queue specification of \<^verbatim>\<open>Matching_Spec\<close>.
\<close>

definition level_ok :: "side \<Rightarrow> price \<Rightarrow> price_level \<Rightarrow> bool" where
  "level_ok d p l \<longleftrightarrow>
     pl_orders l \<noteq> [] \<and>
     (\<forall>e \<in> set (pl_orders l). ro_limit_price (snd e) = p \<and> ro_direction (snd e) = d \<and>
        0 < open_value (snd e)) \<and>
     pl_total_size l = total_open (pl_orders l)"

definition levels_ok :: "side \<Rightarrow> levels \<Rightarrow> bool" where
  "levels_ok d ls \<longleftrightarrow>
     omap_wf (side_before d) ls \<and> (\<forall>x \<in> set ls. level_ok d (fst x) (snd x)) \<and>
     distinct (map fst (queue ls))"

lemma queue_simps [simp]:
  "queue [] = []"
  "queue ((p, l) # ls) = pl_orders l @ queue ls"
  "queue (ls @ ms) = queue ls @ queue ms"
  by (simp_all add: queue_def)

lemma levels_ok_Nil [simp]: "levels_ok d []"
  by (simp add: levels_ok_def)

lemma levels_okD:
  assumes "levels_ok d ls"
  shows "omap_wf (side_before d) ls" "distinct (map fst (queue ls))"
    "x \<in> set ls \<Longrightarrow> level_ok d (fst x) (snd x)"
  using assms by (auto simp: levels_ok_def)

lemma levels_ok_ConsD: "levels_ok d (x # ls) \<Longrightarrow> levels_ok d ls"
  by (cases x) (auto simp: levels_ok_def)

lemma level_okD:
  assumes "level_ok d p l"
  shows "pl_orders l \<noteq> []" "e \<in> set (pl_orders l) \<Longrightarrow> ro_limit_price (snd e) = p"
    "e \<in> set (pl_orders l) \<Longrightarrow> ro_direction (snd e) = d"
    "e \<in> set (pl_orders l) \<Longrightarrow> 0 < open_value (snd e)"
    "pl_total_size l = total_open (pl_orders l)"
  using assms by (auto simp: level_ok_def)

lemma in_queue: "e \<in> set (queue ls) \<longleftrightarrow> (\<exists>x \<in> set ls. e \<in> set (pl_orders (snd x)))"
  by (force simp: queue_def case_prod_beta)

lemma queue_elem:
  assumes "levels_ok d ls" "e \<in> set (queue ls)"
  obtains l where "(ro_limit_price (snd e), l) \<in> set ls" "e \<in> set (pl_orders l)"
    "ro_direction (snd e) = d" "0 < open_value (snd e)"
proof -
  from assms(2) obtain x where x: "x \<in> set ls" "e \<in> set (pl_orders (snd x))"
    by (auto simp: in_queue)
  with assms(1) have ok: "level_ok d (fst x) (snd x)" by (auto dest: levels_okD)
  with x have p: "ro_limit_price (snd e) = fst x" by (auto dest: level_okD)
  show ?thesis
    by (rule that [of "snd x"]) (use x ok p level_okD [OF ok] in auto)
qed

lemma queue_prices: "levels_ok d ls \<Longrightarrow> (\<lambda>e. ro_limit_price (snd e)) ` set (queue ls) = fst ` set ls"
proof (intro equalityI subsetI)
  fix p assume ok: "levels_ok d ls" and "p \<in> fst ` set ls"
  then obtain l where l: "(p, l) \<in> set ls" by auto
  with ok have lo: "level_ok d p l" by (auto dest: levels_okD)
  then obtain e where "e \<in> set (pl_orders l)" by (cases "pl_orders l") (auto dest: level_okD)
  moreover from this lo have "ro_limit_price (snd e) = p" by (auto dest: level_okD)
  moreover from calculation l have "e \<in> set (queue ls)" by (force simp: in_queue)
  ultimately show "p \<in> (\<lambda>e. ro_limit_price (snd e)) ` set (queue ls)" by force
next
  fix p assume "levels_ok d ls" "p \<in> (\<lambda>e. ro_limit_price (snd e)) ` set (queue ls)"
  then show "p \<in> fst ` set ls" by (force elim: queue_elem)
qed

lemma queue_all_prices:
  assumes "levels_ok d ls" "\<forall>k \<in> fst ` set ls. P k"
  shows "\<forall>e \<in> set (queue ls). P (ro_limit_price (snd e))"
proof
  fix e assume "e \<in> set (queue ls)"
  then have "ro_limit_price (snd e) \<in> fst ` set ls"
    unfolding queue_prices [OF assms(1), symmetric] by (rule imageI)
  with assms(2) show "P (ro_limit_price (snd e))" by (rule bspec)
qed

lemma queue_eq_Nil: "levels_ok d ls \<Longrightarrow> queue ls = [] \<longleftrightarrow> ls = []"
  using queue_prices [of d ls] by (cases ls) auto

lemma queue_sorted:
  "levels_ok d ls \<Longrightarrow>
   sorted_wrt (\<lambda>a b. \<not> side_before d (ro_limit_price (snd b)) (ro_limit_price (snd a))) (queue ls)"
proof (induction ls)
  case Nil
  show ?case by simp
next
  case (Cons x ls)
  obtain p l where x: "x = (p, l)" by fastforce
  from Cons.prems have lo: "level_ok d p l" by (auto simp: x dest: levels_okD)
  then have same: "ro_limit_price (snd e) = p" if "e \<in> set (pl_orders l)" for e
    using that by (auto dest: level_okD)
  have "sorted_wrt (\<lambda>a b. \<not> side_before d (ro_limit_price (snd b)) (ro_limit_price (snd a))) (pl_orders l)"
    by (rule sorted_wrt_mono_rel [of _ "\<lambda>_ _. True"])
       (auto simp: same book_order.lt_irrefl intro: sorted_wrt_true)
  moreover from Cons.prems have ok: "levels_ok d ls" by (rule levels_ok_ConsD)
  moreover have "side_before d p (ro_limit_price (snd e))" if "e \<in> set (queue ls)" for e
  proof -
    from that have "ro_limit_price (snd e) \<in> fst ` set ls"
      using queue_prices [OF ok] by auto
    with Cons.prems show ?thesis by (auto simp: x levels_ok_def)
  qed
  ultimately show ?case using Cons.IH
    by (auto simp: x sorted_wrt_append same dest: book_order.lt_asym)
qed

lemma queue_ok_queue: "levels_ok d ls \<Longrightarrow> queue_ok d (queue ls)"
  unfolding queue_ok_def
  by (intro conjI ballI) (auto simp: queue_sorted dest: levels_okD elim: queue_elem)

subsection \<open>Replacing or dropping one level\<close>

lemma levels_split:
  assumes "levels_ok d ls" "omap_find (side_before d) p ls = Some l"
  obtains m1 m2 where "ls = m1 @ (p, l) # m2" "level_ok d p l"
    "queue ls = queue m1 @ pl_orders l @ queue m2"
    "\<And>l'. omap_put (side_before d) p l' ls = m1 @ (p, l') # m2"
    "omap_erase (side_before d) p ls = m1 @ m2"
    "\<forall>k \<in> fst ` set m1. side_before d k p" "\<forall>k \<in> fst ` set m2. side_before d p k"
proof -
  from assms(1) have wf: "omap_wf (side_before d) ls" by (rule levels_okD)
  obtain m1 m2 where m: "ls = m1 @ (p, l) # m2" "p \<notin> fst ` set m1" "p \<notin> fst ` set m2"
    "\<forall>k \<in> fst ` set m1. side_before d k p" "\<forall>k \<in> fst ` set m2. side_before d p k"
    using book_order.find_split [OF wf assms(2)] by metis
  have "level_ok d p l" using assms(1) m(1) by (auto simp: levels_ok_def)
  then show ?thesis
    using m by (intro that [of m1 m2]) (simp_all add: book_order.put_split book_order.erase_split)
qed

lemma levels_ok_replace:
  assumes "levels_ok d (m1 @ (p, l) # m2)" "level_ok d p l'"
    "distinct (map fst (pl_orders l'))" "fst ` set (pl_orders l') \<subseteq> fst ` set (pl_orders l)"
  shows "levels_ok d (m1 @ (p, l') # m2)"
proof -
  have "distinct (map fst (queue m1 @ pl_orders l' @ queue m2))"
  proof -
    have d: "distinct (map fst (queue m1))" "distinct (map fst (queue m2))"
      "fst ` set (queue m1) \<inter> fst ` set (pl_orders l) = {}"
      "fst ` set (queue m1) \<inter> fst ` set (queue m2) = {}"
      "fst ` set (pl_orders l) \<inter> fst ` set (queue m2) = {}"
      using levels_okD(2) [OF assms(1)] by (simp_all add: Int_Un_distrib)
    from d(3) assms(4) have 1: "fst ` set (queue m1) \<inter> fst ` set (pl_orders l') = {}"
      by (rule disjoint_mono_right)
    from d(5) assms(4) have 2: "fst ` set (pl_orders l') \<inter> fst ` set (queue m2) = {}"
      by (rule disjoint_mono_left)
    from 1 2 d assms(3) show ?thesis by (simp add: Int_Un_distrib)
  qed
  with assms(1,2) show ?thesis by (simp add: levels_ok_def omap_wf_append)
qed

lemma levels_ok_drop: "levels_ok d (m1 @ x # m2) \<Longrightarrow> levels_ok d (m1 @ m2)"
  by (cases x) (auto simp: levels_ok_def omap_wf_append)

lemma find_order:
  assumes "levels_ok d ls" "(n, r) \<in> set (queue ls)"
  obtains l where "omap_find (side_before d) (ro_limit_price r) ls = Some l"
    "(n, r) \<in> set (pl_orders l)" "deref ls (Some n) = Inr r"
proof -
  from assms obtain l where l: "(ro_limit_price r, l) \<in> set ls" "(n, r) \<in> set (pl_orders l)"
    by (rule queue_elem) auto
  moreover from assms have "map_of (queue ls) n = Some r"
    by (simp add: levels_okD)
  ultimately show ?thesis using assms(1)
    by (intro that [of l]) (auto simp: deref_def book_order.find_iff levels_okD)
qed

lemma total_remove:
  "distinct (map fst q) \<Longrightarrow> (n, r) \<in> set q \<Longrightarrow>
   total_open (remove_node n q) = total_open q - open_value r"
proof (induction q)
  case (Cons e q)
  show ?case
  proof (cases "fst e = n")
    case True
    with Cons.prems have n: "n \<notin> fst ` set q" by auto
    with Cons.prems have "e = (n, r)" by force
    moreover from n have "filter (\<lambda>e. fst e \<noteq> n) q = q" by (intro filter_True) force
    ultimately show ?thesis by (simp add: remove_node_def)
  next
    case False
    with Cons have "total_open (remove_node n q) = total_open q - open_value r" by auto
    with False show ?thesis by (simp add: remove_node_def)
  qed
qed simp

lemma remove_node_append [simp]: "remove_node n (p @ q) = remove_node n p @ remove_node n q"
  by (simp add: remove_node_def)

lemma remove_node_absent: "n \<notin> fst ` set q \<Longrightarrow> remove_node n q = q"
  unfolding remove_node_def by (intro filter_True) force

lemma set_remove_node [simp]: "set (remove_node n q) = {e \<in> set q. fst e \<noteq> n}"
  by (simp add: remove_node_def)

lemma distinct_remove_node: "distinct (map fst q) \<Longrightarrow> distinct (map fst (remove_node n q))"
  by (simp add: remove_node_def distinct_map_filter)

text \<open>
  Removing through a live handle: the map keeps its invariant, the queue loses that node only.
\<close>

lemma remove_order_correct:
  assumes ok: "levels_ok d ls" and mem: "(n, r) \<in> set (queue ls)"
  obtains ls' where
    "remove_order (side_before d) (ro_key r) (make_handle d' (ro_limit_price r) n) ls = (ls', Inr True)"
    "levels_ok d ls'" "queue ls' = remove_node n (queue ls)"
proof -
  obtain l where l: "omap_find (side_before d) (ro_limit_price r) ls = Some l"
    "(n, r) \<in> set (pl_orders l)" "deref ls (Some n) = Inr r"
    using ok mem by (rule find_order)
  obtain m1 m2 where m: "ls = m1 @ (ro_limit_price r, l) # m2" "level_ok d (ro_limit_price r) l"
    "queue ls = queue m1 @ pl_orders l @ queue m2"
    "\<And>l'. omap_put (side_before d) (ro_limit_price r) l' ls = m1 @ (ro_limit_price r, l') # m2"
    "omap_erase (side_before d) (ro_limit_price r) ls = m1 @ m2"
    using ok l(1) by (rule levels_split) auto
  define os where "os = remove_node n (pl_orders l)"
  have n: "n \<in> fst ` set (pl_orders l)" using l(2) by force
  have dist: "distinct (map fst (queue ls))" using ok by (rule levels_okD)
  with m(3) l(2) have absent: "n \<notin> fst ` set (queue m1)" "n \<notin> fst ` set (queue m2)"
    by force+
  have q: "queue m1 @ os @ queue m2 = remove_node n (queue ls)"
    by (simp add: m(3) os_def remove_node_absent [OF absent(1)] remove_node_absent [OF absent(2)])
  have dl: "distinct (map fst (pl_orders l))" using dist m(3) by simp
  define ls' where "ls' = (if os = [] then m1 @ m2 else
    m1 @ (ro_limit_price r, \<lparr>pl_total_size = pl_total_size l - open_value r, pl_orders = os\<rparr>) # m2)"
  have "remove_order (side_before d) (ro_key r) (make_handle d' (ro_limit_price r) n) ls = (ls', Inr True)"
    using l n
    by (simp add: remove_order_def make_handle_def list_erase_def m(4,5) ls'_def os_def
          remove_node_def [symmetric])
  moreover have "levels_ok d ls'"
  proof (cases "os = []")
    case True
    with ok m(1) show ?thesis by (auto simp: ls'_def intro: levels_ok_drop)
  next
    case False
    have "level_ok d (ro_limit_price r) \<lparr>pl_total_size = pl_total_size l - open_value r, pl_orders = os\<rparr>"
      using False m(2) total_remove [OF dl l(2)] by (auto simp: level_ok_def os_def)
    with False ok m(1) dl show ?thesis
      by (auto simp: ls'_def os_def intro!: levels_ok_replace [where l = l] distinct_remove_node)
  qed
  moreover have "queue ls' = remove_node n (queue ls)" using q by (auto simp: ls'_def)
  ultimately show ?thesis by (rule that)
qed

lemma cancel_from_levels_eq:
  "cancel_from_levels lt key handle ls events =
     (case remove_order lt key handle ls of
        (ls', Inr True) \<Rightarrow> (ls', events @ [Order_cancelled key], Inr True)
      | (ls', r) \<Rightarrow> (ls', events, r))"
  by (auto simp: cancel_from_levels_def remove_order_def Let_def split: option.splits sum.splits)

subsection \<open>Reducing in place\<close>

lemma queue_write_node:
  "queue (write_node (Some n) f ls) = map (\<lambda>(m, r). (m, if m = n then f r else r)) (queue ls)"
  by (induction ls) (auto simp: write_node_def)

lemma write_node_append: "write_node it f (ls @ ls') = write_node it f ls @ write_node it f ls'"
  by (simp add: write_node_def)

lemma write_node_absent:
  "n \<notin> fst ` set (queue ls) \<Longrightarrow> write_node (Some n) f ls = ls"
proof (induction ls)
  case (Cons x ls)
  obtain p l where x: "x = (p, l)" by fastforce
  have "map (\<lambda>(m, r). (m, if Some n = Some m then f r else r)) (pl_orders l) = pl_orders l"
    using Cons.prems by (intro map_idI) (force simp: x)
  moreover from Cons have "write_node (Some n) f ls = ls" by (auto simp: x)
  ultimately show ?case by (simp add: write_node_def x)
qed (simp add: write_node_def)

lemma resize_node_keys [simp]: "map fst (resize_node n s q) = map fst q"
  by (induction q) (auto simp: resize_node_def)

lemma total_resize:
  "distinct (map fst q) \<Longrightarrow> (n, r) \<in> set q \<Longrightarrow>
   total_open (resize_node n s q) = total_open q - (open_value r - quantity_value s)"
proof (induction q)
  case (Cons e q)
  show ?case
  proof (cases "fst e = n")
    case True
    with Cons.prems have n: "n \<notin> fst ` set q" by auto
    with Cons.prems have "e = (n, r)" by force
    with resize_node_absent [OF n] show ?thesis by (simp add: resize_node_def)
  next
    case False
    with Cons have "total_open (resize_node n s q) = total_open q - (open_value r - quantity_value s)"
      by auto
    with False show ?thesis by (cases e) (simp add: resize_node_def)
  qed
qed simp

lemma reduce_order_size_True:
  assumes ok: "levels_ok d ls" and mem: "(n, r) \<in> set (queue ls)"
    and o: "uo_key order = ro_key r" "limit_price (uo_pricing order) = Some (ro_limit_price r)"
      "uo_size order \<le> ro_open_size r" "0 < quantity_value (uo_size order)"
  obtains ls' where
    "reduce_order_size (side_before d) order (make_handle d' (ro_limit_price r) n) ls = (ls', Inr True)"
    "levels_ok d ls'" "queue ls' = resize_node n (uo_size order) (queue ls)"
proof -
  obtain l where l: "omap_find (side_before d) (ro_limit_price r) ls = Some l"
    "(n, r) \<in> set (pl_orders l)" "deref ls (Some n) = Inr r"
    using ok mem by (rule find_order)
  obtain m1 m2 where m: "ls = m1 @ (ro_limit_price r, l) # m2" "level_ok d (ro_limit_price r) l"
    "queue ls = queue m1 @ pl_orders l @ queue m2"
    "\<And>l'. omap_put (side_before d) (ro_limit_price r) l' ls = m1 @ (ro_limit_price r, l') # m2"
    using ok l(1) by (rule levels_split) auto
  have dist: "distinct (map fst (queue ls))" using ok by (rule levels_okD)
  with m(3) l(2) have absent: "n \<notin> fst ` set (queue m1)" "n \<notin> fst ` set (queue m2)"
    by force+
  have dl: "distinct (map fst (pl_orders l))" using dist m(3) by simp
  define os where "os = resize_node n (uo_size order) (pl_orders l)"
  define l' where "l' = \<lparr>pl_total_size =
    pl_total_size l - (open_value r - quantity_value (uo_size order)), pl_orders = os\<rparr>"
  define ls' where "ls' = m1 @ (ro_limit_price r, l') # m2"
  have one: "write_node (Some n) (\<lambda>r. r\<lparr>ro_open_size := uo_size order\<rparr>)
      ((ro_limit_price r, l\<lparr>pl_total_size := t\<rparr>) # m2) =
      (ro_limit_price r, \<lparr>pl_total_size = t, pl_orders = os\<rparr>) # m2" for t
    using write_node_absent [OF absent(2), of "\<lambda>r. r\<lparr>ro_open_size := uo_size order\<rparr>"]
    by (simp add: write_node_def os_def resize_node_def eq_commute [of n])
  have "reduce_order_size (side_before d) order (make_handle d' (ro_limit_price r) n) ls = (ls', Inr True)"
    using l o by (simp add: reduce_order_size_def make_handle_def m(4) ls'_def l'_def write_node_append one
      write_node_absent [OF absent(1)] not_less)
  moreover have "levels_ok d ls'"
  proof -
    have "level_ok d (ro_limit_price r) l'"
      using m(2) total_resize [OF dl l(2), of "uo_size order"] o(4)
      by (auto simp: level_ok_def l'_def os_def resize_node_def)
    moreover have "fst ` set os = fst ` set (pl_orders l)"
      by (metis os_def resize_node_keys set_map)
    moreover have "distinct (map fst os)" using dl by (simp add: os_def)
    moreover have "pl_orders l' = os" by (simp add: l'_def)
    moreover have "levels_ok d (m1 @ (ro_limit_price r, l) # m2)" using ok unfolding m(1) .
    ultimately show ?thesis unfolding ls'_def
      by (metis levels_ok_replace order_refl)
  qed
  moreover have "queue ls' = resize_node n (uo_size order) (queue ls)"
    by (simp add: ls'_def l'_def os_def m(3) resize_node_append resize_node_absent [OF absent(1)]
        resize_node_absent [OF absent(2)])
  ultimately show ?thesis by (rule that)
qed

lemma reduce_order_size_False:
  assumes ok: "levels_ok d ls" and mem: "(n, r) \<in> set (queue ls)"
    and o: "uo_key order = ro_key r"
      "limit_price (uo_pricing order) \<noteq> Some (ro_limit_price r) \<or> uo_size order > ro_open_size r"
  shows "reduce_order_size (side_before d) order (make_handle d' (ro_limit_price r) n) ls = (ls, Inr False)"
proof -
  obtain l where "omap_find (side_before d) (ro_limit_price r) ls = Some l"
    "(n, r) \<in> set (pl_orders l)" "deref ls (Some n) = Inr r"
    using ok mem by (rule find_order)
  with o show ?thesis by (auto simp: reduce_order_size_def make_handle_def split: option.splits)
qed

subsection \<open>Resting an order\<close>

definition resting_of :: "incoming_order \<Rightarrow> price \<Rightarrow> resting_order" where
  "resting_of i p = \<lparr>ro_key = in_key i, ro_direction = in_direction i, ro_limit_price = p,
     ro_open_size = in_open_size i, ro_sequence = in_sequence i\<rparr>"

lemma resting_of_simps [simp]:
  "ro_key (resting_of i p) = in_key i" "ro_direction (resting_of i p) = in_direction i"
  "ro_limit_price (resting_of i p) = p" "ro_open_size (resting_of i p) = in_open_size i"
  "ro_sequence (resting_of i p) = in_sequence i"
  by (simp_all add: resting_of_def)

lemma enqueue_split:
  assumes "\<forall>x \<in> set a. \<not> lt (ro_limit_price (snd e)) (ro_limit_price (snd x))"
    "\<forall>x \<in> set b. lt (ro_limit_price (snd e)) (ro_limit_price (snd x))"
  shows "enqueue lt e (a @ b) = a @ e # b"
  using assms by (simp add: enqueue_def takeWhile_none dropWhile_none)

text \<open>\<open>ls'\<close> is \<open>ls\<close> with the entry \<open>e\<close> put into the level of price \<open>p\<close>, which may be new.\<close>

definition level_with :: "side \<Rightarrow> price \<Rightarrow> node \<times> resting_order \<Rightarrow> levels \<Rightarrow> levels \<Rightarrow> bool" where
  "level_with d p e ls ls' \<longleftrightarrow> (\<exists>m1 m2 l. ls' = m1 @ (p, l) # m2 \<and>
     (\<forall>k \<in> fst ` set m1. side_before d k p) \<and> (\<forall>k \<in> fst ` set m2. side_before d p k) \<and>
     level_ok d p l \<and> levels_ok d (m1 @ m2) \<and>
     queue (m1 @ (p, l) # m2) = enqueue (side_before d) e (queue ls) \<and>
     distinct (map fst (queue (m1 @ (p, l) # m2))))"

lemma push_order_new_level:
  assumes ok: "levels_ok d ls" and n: "n \<notin> fst ` set (queue ls)"
    and i: "in_direction i = d" "0 < in_value i" and None: "omap_find (side_before d) p ls = None"
  shows "level_with d p (n, resting_of i p) ls (push_order (side_before d) i p n ls)"
proof -
  have wf: "omap_wf (side_before d) ls" using ok by (rule levels_okD)
  obtain m1 m2 where m: "ls = m1 @ m2" "omap_emplace (side_before d) p empty_level ls = m1 @ (p, empty_level) # m2"
    "\<forall>k \<in> fst ` set m1. side_before d k p" "\<forall>k \<in> fst ` set m2. side_before d p k"
    using wf None by (rule book_order.emplace_split)
  define l where "l = \<lparr>pl_total_size = in_value i, pl_orders = [(n, resting_of i p)]\<rparr>"
  have p1: "p \<notin> fst ` set m1" using m(3) book_order.lt_irrefl by blast
  have f: "omap_find (side_before d) p (m1 @ (p, empty_level) # m2) = Some empty_level"
    by (rule book_order.find_split_eq [OF p1])
  have "push_order (side_before d) i p n ls = m1 @ (p, l) # m2"
    by (simp add: push_order_def m(2) Let_def f book_order.put_split [OF p1] l_def
          in_value_def resting_of_def)
  moreover have "level_ok d p l" using i by (simp add: level_ok_def l_def in_value_def)
  moreover have "queue (m1 @ (p, l) # m2) = enqueue (side_before d) (n, resting_of i p) (queue ls)"
  proof -
    from ok m(1) have "levels_ok d m1" "levels_ok d m2"
      by (auto simp: levels_ok_def omap_wf_append)
    then have
      "\<forall>e \<in> set (queue m1). side_before d (ro_limit_price (snd e)) p"
      "\<forall>e \<in> set (queue m2). side_before d p (ro_limit_price (snd e))"
      using m(3,4) by (blast dest: queue_all_prices)+
    then show ?thesis by (simp add: m(1) l_def) (subst enqueue_split, auto dest: book_order.lt_asym)
  qed
  moreover have "distinct (map fst (queue (m1 @ (p, l) # m2)))"
    using levels_okD(2) [OF ok] n by (auto simp: m(1) l_def)
  ultimately show ?thesis unfolding level_with_def using m ok by (intro exI [of _ m1] exI [of _ m2] exI [of _ l]) auto
qed

lemma push_order_old_level:
  assumes ok: "levels_ok d ls" and n: "n \<notin> fst ` set (queue ls)"
    and i: "in_direction i = d" "0 < in_value i" and Some: "omap_find (side_before d) p ls = Some l0"
  shows "level_with d p (n, resting_of i p) ls (push_order (side_before d) i p n ls)"
proof -
  obtain m1 m2 where m: "ls = m1 @ (p, l0) # m2" "level_ok d p l0"
    "queue ls = queue m1 @ pl_orders l0 @ queue m2"
    "\<And>l'. omap_put (side_before d) p l' ls = m1 @ (p, l') # m2"
    "\<forall>k \<in> fst ` set m1. side_before d k p" "\<forall>k \<in> fst ` set m2. side_before d p k"
    using ok Some by (rule levels_split) auto
  have wf: "omap_wf (side_before d) ls" using ok by (rule levels_okD)
  define l where "l = \<lparr>pl_total_size = pl_total_size l0 + in_value i,
    pl_orders = pl_orders l0 @ [(n, resting_of i p)]\<rparr>"
  have "push_order (side_before d) i p n ls = m1 @ (p, l) # m2"
    by (simp add: push_order_def book_order.emplace_present [OF wf Some] Some Let_def m(4) l_def
          in_value_def resting_of_def)
  moreover have "level_ok d p l"
    using i m(2) by (auto simp: level_ok_def l_def in_value_def)
  moreover have "queue (m1 @ (p, l) # m2) = enqueue (side_before d) (n, resting_of i p) (queue ls)"
  proof -
    from ok m(1) have "levels_ok d m1" "levels_ok d m2"
      by (auto simp: levels_ok_def omap_wf_append)
    then have
      "\<forall>e \<in> set (queue m1). side_before d (ro_limit_price (snd e)) p"
      "\<forall>e \<in> set (queue m2). side_before d p (ro_limit_price (snd e))"
      using m(5,6) by (blast dest: queue_all_prices)+
    moreover have "\<forall>e \<in> set (pl_orders l0). ro_limit_price (snd e) = p"
      using m(2) by (auto simp: level_ok_def)
    ultimately have "enqueue (side_before d) (n, resting_of i p) ((queue m1 @ pl_orders l0) @ queue m2) =
        (queue m1 @ pl_orders l0) @ (n, resting_of i p) # queue m2"
      by (intro enqueue_split) (auto dest: book_order.lt_asym simp: book_order.lt_irrefl)
    then show ?thesis by (simp add: m(3) l_def)
  qed
  moreover have "distinct (map fst (queue (m1 @ (p, l) # m2)))"
    using levels_okD(2) [OF ok] n by (auto simp: m(1) l_def)
  moreover have "levels_ok d (m1 @ m2)" using ok m(1) by (auto intro: levels_ok_drop)
  ultimately show ?thesis unfolding level_with_def using m by (intro exI [of _ m1] exI [of _ m2] exI [of _ l]) auto
qed

lemma push_order_correct:
  assumes ok: "levels_ok d ls" and n: "n \<notin> fst ` set (queue ls)"
    and i: "in_direction i = d" "0 < in_value i"
  shows "levels_ok d (push_order (side_before d) i p n ls) \<and>
    queue (push_order (side_before d) i p n ls) = enqueue (side_before d) (n, resting_of i p) (queue ls)"
proof -
  have "level_with d p (n, resting_of i p) ls (push_order (side_before d) i p n ls)"
    using push_order_new_level [OF ok n i] push_order_old_level [OF ok n i]
    by (cases "omap_find (side_before d) p ls") blast+
  then obtain m1 m2 l where m: "push_order (side_before d) i p n ls = m1 @ (p, l) # m2"
    "\<forall>k \<in> fst ` set m1. side_before d k p" "\<forall>k \<in> fst ` set m2. side_before d p k"
    "level_ok d p l" "levels_ok d (m1 @ m2)" "distinct (map fst (queue (m1 @ (p, l) # m2)))"
    "queue (m1 @ (p, l) # m2) = enqueue (side_before d) (n, resting_of i p) (queue ls)"
    unfolding level_with_def by blast
  have "levels_ok d (m1 @ (p, l) # m2)"
    using m(2-6) by (auto simp: levels_ok_def omap_wf_append intro: book_order.lt_trans)
  with m(1,7) show ?thesis by simp
qed

end
