(* ===== verification/Book_Match.thy ===== *)
theory Book_Match
  imports Book_Side
begin

text \<open>
  The matching loops and the views of one side: \<open>match_against_level\<close> and \<open>match_order\<close> consume the
  queue of the side, \<open>top_of_book\<close> and \<open>snapshot_levels\<close> read it.
\<close>

definition with_size :: "incoming_order \<Rightarrow> u64 \<Rightarrow> incoming_order" where
  "with_size i q = i\<lparr>in_open_size := Quantity q\<rparr>"

lemma with_size_simps [simp]:
  "in_value (with_size i q) = q" "in_key (with_size i q) = in_key i"
  "in_direction (with_size i q) = in_direction i" "in_sequence (with_size i q) = in_sequence i"
  "with_size (with_size i q) q' = with_size i q'"
  "with_size i (in_value i) = i"
  by (simp_all add: with_size_def in_value_def)

lemma with_size_id [simp]: "in_value i = q \<Longrightarrow> with_size i q = i"
  by auto

lemma take_from_incoming_eq: "take_from_incoming x i = with_size i (in_value i - x)"
  by (simp add: take_from_incoming_def with_size_def in_value_def)

text \<open>One pass of the loop: the front order is filled in full, or the incoming order is.\<close>

lemma match_front_fill:
  assumes "0 < open_value r" "open_value r \<le> in_value (lm_incoming s)"
  shows "match_front instrument n r rest s =
    (\<lparr>lm_incoming = with_size (lm_incoming s) (in_value (lm_incoming s) - open_value r),
      lm_level = \<lparr>pl_total_size = pl_total_size (lm_level s) - open_value r, pl_orders = rest\<rparr>,
      lm_events = lm_events s @ trade_events (in_key (lm_incoming s)) instrument [(r, open_value r)],
      lm_filled = lm_filled s @ [ro_key r]\<rparr>, Inr ())"
  using assms
  by (simp add: match_front_def min_def make_quantity_Inr Let_def take_from_incoming_eq
        not_less)

lemma match_front_partial:
  assumes "0 < in_value (lm_incoming s)" "in_value (lm_incoming s) < open_value r"
  shows "match_front instrument n r rest s =
    (\<lparr>lm_incoming = with_size (lm_incoming s) 0,
      lm_level = \<lparr>pl_total_size = pl_total_size (lm_level s) - in_value (lm_incoming s),
        pl_orders = (n, take_from_resting (in_value (lm_incoming s)) r) # rest\<rparr>,
      lm_events = lm_events s @ trade_events (in_key (lm_incoming s)) instrument [(r, in_value (lm_incoming s))],
      lm_filled = lm_filled s\<rparr>, Inr ())"
  using assms
  by (auto simp: match_front_def min_def make_quantity_Inr Let_def take_from_incoming_eq)

text \<open>A front order that is filled in full leaves the loop with the rest of the level.\<close>

lemma match_against_fill:
  assumes "pl_orders (lm_level s) = (n, r) # rest" "0 < in_value (lm_incoming s)"
    and "0 < open_value r" "open_value r \<le> in_value (lm_incoming s)"
  obtains s1 where "match_against_level instrument s = match_against_level instrument s1"
    "lm_incoming s1 = with_size (lm_incoming s) (in_value (lm_incoming s) - open_value r)"
    "lm_level s1 = \<lparr>pl_total_size = pl_total_size (lm_level s) - open_value r, pl_orders = rest\<rparr>"
    "lm_events s1 = lm_events s @ trade_events (in_key (lm_incoming s)) instrument [(r, open_value r)]"
    "lm_filled s1 = lm_filled s @ [ro_key r]"
proof -
  define s1 where "s1 = fst (match_front instrument n r rest s)"
  have mf: "match_front instrument n r rest s = (s1, Inr ())" by (simp add: s1_def match_front_fill [OF assms(3,4)])
  show ?thesis
  proof (rule that)
    show "match_against_level instrument s = match_against_level instrument s1"
      by (subst match_against_level.simps) (simp add: assms(1,2) mf)
  qed (simp_all add: s1_def match_front_fill [OF assms(3,4)])
qed

lemma match_against_partial:
  assumes "pl_orders (lm_level s) = (n, r) # rest" "0 < in_value (lm_incoming s)" "in_value (lm_incoming s) < open_value r"
  shows "match_against_level instrument s =
    (\<lparr>lm_incoming = with_size (lm_incoming s) 0,
      lm_level = \<lparr>pl_total_size = pl_total_size (lm_level s) - in_value (lm_incoming s),
                  pl_orders = (n, take_from_resting (in_value (lm_incoming s)) r) # rest\<rparr>,
      lm_events = lm_events s @ trade_events (in_key (lm_incoming s)) instrument [(r, in_value (lm_incoming s))],
      lm_filled = lm_filled s\<rparr>, Inr ())"
  by (subst match_against_level.simps)
     (simp add: assms(1,2) match_front_partial [OF assms(2,3)] match_against_level.simps)

lemma match_against_level_correct:
  assumes "consume (\<lambda>_. True) (in_value (lm_incoming s)) (pl_orders (lm_level s)) = (q', ys, ts, fs)"
    and "\<forall>e \<in> set (pl_orders (lm_level s)). 0 < open_value (snd e)"
  shows "match_against_level instrument s =
    (\<lparr>lm_incoming = with_size (lm_incoming s) q',
      lm_level = \<lparr>pl_total_size = pl_total_size (lm_level s) - (in_value (lm_incoming s) - q'),
                  pl_orders = ys\<rparr>,
      lm_events = lm_events s @ trade_events (in_key (lm_incoming s)) instrument ts,
      lm_filled = lm_filled s @ fs\<rparr>, Inr ())"
  using assms
proof (induction "pl_orders (lm_level s)" arbitrary: s q' ys ts fs)
  case Nil
  from Nil(1) [symmetric] Nil(2) show ?case
    by (cases s, subst match_against_level.simps) (auto simp: split: if_splits)
next
  case (Cons e rest)
  obtain n r where e: "e = (n, r)" by fastforce
  note os = Cons(2) [symmetric, unfolded e]
  let ?q = "in_value (lm_incoming s)"
  consider "?q = 0" | "?q \<noteq> 0" "?q < open_value r" | "?q \<noteq> 0" "open_value r \<le> ?q" by force
  then show ?case
  proof cases
    case 1
    with Cons.prems(1) show ?thesis
      by (cases s, subst match_against_level.simps) (auto simp: os [symmetric] os)
  next
    case 2
    then have q: "0 < ?q" by (simp add: word_neq_0_conv)
    from 2 Cons.prems(1) show ?thesis
      by (auto simp: os match_against_partial [OF os q 2(2)])
  next
    case 3
    then have q: "0 < ?q" by (simp add: word_neq_0_conv)
    have pos: "0 < open_value r" using Cons.prems(2) by (simp add: os)
    obtain q1 ys1 ts1 fs1 where c: "consume (\<lambda>_. True) (?q - open_value r) rest = (q1, ys1, ts1, fs1)"
      by (metis surj_pair)
    with 3 Cons.prems(1) have eqs: "q' = q1" "ys = ys1" "ts = (r, open_value r) # ts1" "fs = ro_key r # fs1"
      by (simp_all add: os not_less [symmetric])
    obtain s1 where step: "match_against_level instrument s = match_against_level instrument s1"
      and s1: "lm_incoming s1 = with_size (lm_incoming s) (?q - open_value r)"
      "lm_level s1 = \<lparr>pl_total_size = pl_total_size (lm_level s) - open_value r, pl_orders = rest\<rparr>"
      "lm_events s1 = lm_events s @ trade_events (in_key (lm_incoming s)) instrument [(r, open_value r)]"
      "lm_filled s1 = lm_filled s @ [ro_key r]" using match_against_fill [OF os q pos 3(2)] .
    have "match_against_level instrument s1 = (\<lparr>lm_incoming = with_size (lm_incoming s1) q1,
        lm_level = \<lparr>pl_total_size = pl_total_size (lm_level s1) - (in_value (lm_incoming s1) - q1),
                    pl_orders = ys1\<rparr>,
        lm_events = lm_events s1 @ trade_events (in_key (lm_incoming s1)) instrument ts1,
        lm_filled = lm_filled s1 @ fs1\<rparr>, Inr ())"
      by (rule Cons.hyps(1)) (use c Cons.prems(2) os in \<open>auto simp: s1\<close>)
    then show ?thesis by (simp add: step s1 eqs)
  qed
qed

text \<open>What consumption leaves of one level is again a level, if anything is left.\<close>

lemma level_ok_consume:
  assumes "level_ok d p l" "consume cross q (pl_orders l) = (q', ys, ts, fs)" "ys \<noteq> []"
  shows "level_ok d p \<lparr>pl_total_size = pl_total_size l - (q - q'), pl_orders = ys\<rparr>"
proof -
  have "total_open (pl_orders l) - total_open ys = q - q'" using assms(2) by (rule consume_total)
  then have "pl_total_size l - (q - q') = total_open ys"
    using level_okD(5) [OF assms(1)] by (simp add: algebra_simps)
  moreover have "\<forall>e \<in> set ys. 0 < open_value (snd e)"
    using assms(2) by (rule consume_positive) (use level_okD(4) [OF assms(1)] in blast)
  moreover have "\<forall>e \<in> set ys. ro_limit_price (snd e) = p \<and> ro_direction (snd e) = d"
    using assms(2)
  proof (rule consume_shape)
    fix k assume "ys = drop k (pl_orders l)"
    then show ?thesis using level_okD(2,3) [OF assms(1)] by (auto dest: in_set_dropD)
  next
    fix k n r x rest
    assume "drop k (pl_orders l) = (n, r) # rest" "ys = (n, take_from_resting x r) # rest"
    moreover from this have "set ((n, r) # rest) \<subseteq> set (pl_orders l)"
      by (metis set_drop_subset)
    ultimately show ?thesis using level_okD(2,3) [OF assms(1)] by fastforce
  qed
  ultimately show ?thesis using assms(3) by (auto simp: level_ok_def)
qed

lemma consume_nodes:
  assumes "consume cross q xs = (q', ys, ts, fs)"
  shows "\<exists>k. map fst ys = drop k (map fst xs)"
  using assms
proof (rule consume_shape)
  fix k assume "ys = drop k xs"
  then show ?thesis by (auto simp: drop_map)
next
  fix k n r x rest
  assume "drop k xs = (n, r) # rest" "ys = (n, take_from_resting x r) # rest"
  moreover from this have "map fst (drop k xs) = n # map fst rest" by simp
  ultimately show ?thesis by (intro exI [of _ k]) (simp add: drop_map)
qed

lemma consume_nodes_subset:
  assumes "consume cross q xs = (q', ys, ts, fs)"
  shows "fst ` set ys \<subseteq> fst ` set xs" "distinct (map fst xs) \<Longrightarrow> distinct (map fst ys)"
  using consume_nodes [OF assms] by (metis list.set_map set_drop_subset) (metis consume_nodes [OF assms] distinct_drop)

lemma levels_ok_Cons:
  "levels_ok d ((p, l) # ls) \<longleftrightarrow> level_ok d p l \<and> levels_ok d ls \<and>
     (\<forall>k \<in> fst ` set ls. side_before d p k) \<and> distinct (map fst (pl_orders l)) \<and>
     fst ` set (pl_orders l) \<inter> fst ` set (queue ls) = {}"
  by (auto simp: levels_ok_def)

text \<open>The state after the loop has matched against the best level.\<close>

definition after_level :: "symbol_id \<Rightarrow> price \<Rightarrow> price_level \<Rightarrow> levels \<Rightarrow> u64 \<Rightarrow> order_queue \<Rightarrow>
  (resting_order \<times> u64) list \<Rightarrow> order_key list \<Rightarrow> side_match \<Rightarrow> side_match" where
  "after_level instrument p l rest q zs ts fs s =
     \<lparr>sm_incoming = with_size (sm_incoming s) q,
      sm_levels = (if zs = [] then rest
        else (p, \<lparr>pl_total_size = pl_total_size l - (in_value (sm_incoming s) - q), pl_orders = zs\<rparr>) # rest),
      sm_events = sm_events s @ trade_events (in_key (sm_incoming s)) instrument ts,
      sm_filled = sm_filled s @ fs\<rparr>"

lemma match_order_level:
  assumes "sm_levels s = (p, l) # rest" "level_ok d p l"
    and "0 < in_value (sm_incoming s)" "can_cross pricing p"
    and c: "consume (can_cross pricing) (in_value (sm_incoming s)) (pl_orders l) = (q, zs, ts, fs)"
  shows "match_order instrument pricing can_cross s =
    match_order instrument pricing can_cross (after_level instrument p l rest q zs ts fs s)"
proof -
  have "consume (can_cross pricing) (in_value (sm_incoming s)) (pl_orders l) =
      consume (\<lambda>_. True) (in_value (sm_incoming s)) (pl_orders l)"
    using assms(4) level_okD(2) [OF assms(2)] by (intro consume_all_cross) auto
  moreover have "\<forall>e \<in> set (pl_orders l). 0 < open_value (snd e)" using level_okD(4) [OF assms(2)] by blast
  ultimately have "match_best_level instrument p l rest s = (after_level instrument p l rest q zs ts fs s, Inr ())"
    using c by (simp add: match_best_level_def after_level_def
        match_against_level_correct [where q' = q and ys = zs and ts = ts and fs = fs])
  then show ?thesis using assms(1,3,4) by (subst match_order.simps) simp
qed

text \<open>When a level is not used up, the incoming order is, and the level stays in place.\<close>

lemma level_left:
  assumes ok: "levels_ok d ((p, l) # rest)" and cr: "cross p"
    and c: "consume cross q (pl_orders l) = (q', zs, ts, fs)" and "zs \<noteq> []"
  shows "q' = 0" "levels_ok d ((p, \<lparr>pl_total_size = pl_total_size l - (q - q'), pl_orders = zs\<rparr>) # rest)"
proof -
  have lo: "level_ok d p l" using ok by (simp add: levels_ok_Cons)
  have left: "level_ok d p \<lparr>pl_total_size = pl_total_size l - (q - q'), pl_orders = zs\<rparr>"
    by (rule level_ok_consume [OF lo c assms(4)])
  have pos: "\<forall>e \<in> set (pl_orders l). 0 < open_value (snd e)" using level_okD(4) [OF lo] by blast
  have "ro_limit_price (snd (hd zs)) = p" using left assms(4) by (auto simp: level_ok_def)
  with consume_stops [OF c pos] assms(4) cr show "q' = 0" by auto
  have "fst ` set zs \<subseteq> fst ` set (pl_orders l)" using c by (rule consume_nodes_subset)
  moreover have "distinct (map fst zs)" using consume_nodes_subset(2) [OF c] ok by (simp add: levels_ok_Cons)
  ultimately show "levels_ok d ((p, \<lparr>pl_total_size = pl_total_size l - (q - q'), pl_orders = zs\<rparr>) # rest)"
    using ok left unfolding levels_ok_Cons by (auto dest: disjoint_mono_left)
qed

text \<open>The loop stops at once when nothing is left to match or the best price does not cross.\<close>

lemma match_order_stops:
  assumes lv: "sm_levels s = (p, l) # rest" and ok: "level_ok d p l"
    and stop: "in_value (sm_incoming s) = 0 \<or> \<not> can_cross pricing p"
  shows "match_order instrument pricing can_cross s = (s, Inr ())"
    "consume (can_cross pricing) (in_value (sm_incoming s)) (queue (sm_levels s)) =
      (in_value (sm_incoming s), queue (sm_levels s), [], [])"
proof -
  obtain e os where "pl_orders l = e # os" "ro_limit_price (snd e) = p"
    using ok by (cases "pl_orders l") (auto simp: level_ok_def)
  then show "consume (can_cross pricing) (in_value (sm_incoming s)) (queue (sm_levels s)) =
      (in_value (sm_incoming s), queue (sm_levels s), [], [])"
    using stop by (auto simp: lv consume_not_cross)
  show "match_order instrument pricing can_cross s = (s, Inr ())"
    using stop by (subst match_order.simps) (auto simp: lv)
qed

lemma consume_best_level:
  assumes "sm_levels s = (p, l) # rest" "consume cross q (pl_orders l) = (q1, zs, ts1, fs1)"
  shows "consume cross q (queue (sm_levels s)) =
    (if zs = [] then (case consume cross q1 (queue rest) of
         (q2, ys', ts2, fs2) \<Rightarrow> (q2, ys', ts1 @ ts2, fs1 @ fs2))
     else (q1, zs @ queue rest, ts1, fs1))"
  by (simp add: assms(1) consume_append [OF assms(2)])

lemma match_order_partial:
  assumes lv: "sm_levels s = (p, l) # rest" and ok: "levels_ok d (sm_levels s)"
    and q: "0 < in_value (sm_incoming s)" and cr: "can_cross pricing p"
    and c: "consume (can_cross pricing) (in_value (sm_incoming s)) (pl_orders l) = (q1, zs, ts, fs)"
    and part: "zs \<noteq> []"
  shows "match_order instrument pricing can_cross s = (after_level instrument p l rest q1 zs ts fs s, Inr ())"
    "levels_ok d (sm_levels (after_level instrument p l rest q1 zs ts fs s))"
proof -
  note left = level_left [where cross = "can_cross pricing", OF ok [unfolded lv] cr c part]
  have lo: "level_ok d p l" using ok by (simp add: lv levels_ok_Cons)
  have "match_order instrument pricing can_cross (after_level instrument p l rest q1 zs ts fs s) =
      (after_level instrument p l rest q1 zs ts fs s, Inr ())"
    by (subst match_order.simps) (simp add: after_level_def left(1))
  then show "match_order instrument pricing can_cross s = (after_level instrument p l rest q1 zs ts fs s, Inr ())"
    unfolding match_order_level [where can_cross = can_cross and pricing = pricing and instrument = instrument,
      OF lv lo q cr c] .
  show "levels_ok d (sm_levels (after_level instrument p l rest q1 zs ts fs s))"
    using part left(2) by (simp add: after_level_def)
qed

lemma match_order_correct:
  assumes "levels_ok d (sm_levels s)"
    and "consume (can_cross pricing) (in_value (sm_incoming s)) (queue (sm_levels s)) = (q', ys, ts, fs)"
  shows "\<exists>ls. match_order instrument pricing can_cross s =
      (\<lparr>sm_incoming = with_size (sm_incoming s) q', sm_levels = ls,
        sm_events = sm_events s @ trade_events (in_key (sm_incoming s)) instrument ts,
        sm_filled = sm_filled s @ fs\<rparr>, Inr ()) \<and>
    levels_ok d ls \<and> queue ls = ys"
  using assms
proof (induction "sm_levels s" arbitrary: s q' ys ts fs)
  case Nil
  from Nil(1) [symmetric] Nil.prems show ?case
    by (intro exI [of _ "[]"], cases s, subst match_order.simps) auto
next
  case (Cons x rest)
  obtain p l where x: "x = (p, l)" by fastforce
  note lv = Cons(2) [symmetric, unfolded x]
  let ?q = "in_value (sm_incoming s)"
  have ok: "level_ok d p l" "levels_ok d rest" using Cons.prems(1) by (simp_all add: lv levels_ok_Cons)
  show ?case
  proof (cases "?q = 0 \<or> \<not> can_cross pricing p")
    case True
    from match_order_stops [where can_cross = can_cross and pricing = pricing, OF lv ok(1) True] show ?thesis using Cons.prems
      by (intro exI [of _ "sm_levels s"]) (cases s, auto)
  next
    case False
    then have q: "0 < ?q" and cr: "can_cross pricing p" by (simp_all add: word_neq_0_conv)
    obtain q1 zs ts1 fs1 where c1: "consume (can_cross pricing) ?q (pl_orders l) = (q1, zs, ts1, fs1)"
      by (metis surj_pair)
    let ?s1 = "after_level instrument p l rest q1 zs ts1 fs1 s"
    note step = match_order_level [where can_cross = can_cross and pricing = pricing and instrument = instrument, OF lv ok(1) q cr c1]
    note app = consume_best_level [OF lv c1]
    show ?thesis
    proof (cases "zs = []")
      case True
      obtain q2 ys2 ts2 fs2 where c2: "consume (can_cross pricing) q1 (queue rest) = (q2, ys2, ts2, fs2)"
        by (metis surj_pair)
      with app True Cons.prems(2) have eqs: "q' = q2" "ys = ys2" "ts = ts1 @ ts2" "fs = fs1 @ fs2"
        by simp_all
      have "rest = sm_levels ?s1" "levels_ok d (sm_levels ?s1)"
        "consume (can_cross pricing) (in_value (sm_incoming ?s1)) (queue (sm_levels ?s1)) = (q2, ys2, ts2, fs2)"
        using True ok(2) c2 by (simp_all add: after_level_def)
      from Cons.hyps(1) [OF this] show ?thesis
        unfolding step by (auto simp: after_level_def eqs)
    next
      case False
      note part = match_order_partial [where can_cross = can_cross and pricing = pricing and instrument = instrument,
        OF lv Cons.prems(1) q cr c1 False]
      have "q' = q1" "ys = zs @ queue rest" "ts = ts1" "fs = fs1" using app False Cons.prems(2) by simp_all
      then show ?thesis using part False by (simp add: after_level_def)
    qed
  qed
qed

subsection \<open>Top of book and snapshots\<close>

lemma top_of_book_queue: "levels_ok d ls \<Longrightarrow> top_of_book ls = queue_top (queue ls)"
proof (cases ls)
  case Nil
  then show ?thesis by (simp add: top_of_book_def queue_top_def)
next
  case (Cons x ms)
  assume ok: "levels_ok d ls"
  obtain p l where x: "x = (p, l)" by fastforce
  from ok have lo: "level_ok d p l" and ms: "levels_ok d ms" "\<forall>k \<in> fst ` set ms. side_before d p k"
    by (simp_all add: Cons x levels_ok_Cons)
  obtain e os where os: "pl_orders l = e # os" using lo by (cases "pl_orders l") (auto simp: level_ok_def)
  have same: "\<forall>y \<in> set (pl_orders l). ro_limit_price (snd y) = p" using lo by (simp add: level_ok_def)
  have "\<forall>y \<in> set (queue ms). side_before d p (ro_limit_price (snd y))"
    using ms by (rule queue_all_prices)
  then have "\<forall>y \<in> set (queue ms). ro_limit_price (snd y) \<noteq> p"
    using book_order.lt_irrefl by fastforce
  then have "takeWhile (\<lambda>y. ro_limit_price (snd y) = p) (pl_orders l @ queue ms) = pl_orders l"
    using same by (simp add: takeWhile_none)
  then show ?thesis using same lo
    by (simp add: Cons x top_of_book_def queue_top_def os level_ok_def)
qed

lemma snapshot_loop_eq:
  "length result \<le> depth \<Longrightarrow> snapshot_loop ls depth result =
   result @ map (\<lambda>(p, l). \<lparr>pls_level_price = p, pls_total_size = pl_total_size l\<rparr>)
     (take (depth - length result) ls)"
proof (induction ls depth result rule: snapshot_loop.induct)
  case (2 p l ls depth result)
  show ?case
  proof (cases "length result = depth")
    case True
    then show ?thesis by simp
  next
    case False
    with "2.prems" have "depth - length result = Suc (depth - Suc (length result))" by simp
    with False 2 show ?thesis by simp
  qed
qed simp

lemma snapshot_levels_eq:
  "snapshot_levels ls depth =
   map (\<lambda>(p, l). \<lparr>pls_level_price = p, pls_total_size = pl_total_size l\<rparr>) (take depth ls)"
  by (simp add: snapshot_levels_def snapshot_loop_eq)

end
