(* ===== verification/Book_Spec.thy ===== *)
theory Book_Spec
  imports Book_Match
begin

text \<open>
  The abstract order book: two priority queues, and the whole-command specifications of submit,
  update and cancel over them. The invariant \<open>spec_ok\<close> says that both queues are well-formed, that
  no node occurs twice and that the book is not crossed. Every specified operation keeps it.
\<close>

record spec_book =
  sb_instrument :: symbol_id
  sb_bids :: order_queue
  sb_asks :: order_queue
  sb_next :: node

fun spec_queue :: "side \<Rightarrow> spec_book \<Rightarrow> order_queue" where
  "spec_queue Buy sb = sb_bids sb"
| "spec_queue Sell sb = sb_asks sb"

fun set_spec_queue :: "side \<Rightarrow> order_queue \<Rightarrow> spec_book \<Rightarrow> spec_book" where
  "set_spec_queue Buy q sb = sb\<lparr>sb_bids := q\<rparr>"
| "set_spec_queue Sell q sb = sb\<lparr>sb_asks := q\<rparr>"

text \<open>An incoming order of direction \<open>d\<close> trades at a resting price of the other side.\<close>

definition crosses :: "side \<Rightarrow> order_pricing \<Rightarrow> price \<Rightarrow> bool" where
  "crosses d pricing p =
     (case limit_price pricing of None \<Rightarrow> True | Some limit \<Rightarrow> \<not> side_before (opposite d) limit p)"

definition top_change ::
  "symbol_id \<Rightarrow> side \<Rightarrow> top_of_book_state option \<Rightarrow> top_of_book_state option \<Rightarrow> event list" where
  "top_change instrument d before after =
     (if before = after then []
      else [Book_updated instrument d (map_option tob_best_price after)
              (case after of None \<Rightarrow> 0 | Some t \<Rightarrow> tob_total_size t)])"

definition spec_rest ::
  "side \<Rightarrow> order_key \<Rightarrow> order_pricing \<Rightarrow> sequence_number \<Rightarrow> u64 \<Rightarrow> spec_book \<Rightarrow>
   spec_book \<times> resting_order_handle" where
  "spec_rest d key pricing sequence q sb =
     (case limit_price pricing of
        None \<Rightarrow> (sb, empty_handle)
      | Some p \<Rightarrow>
          if q = 0 then (sb, empty_handle)
          else ((set_spec_queue d
                  (enqueue (side_before d)
                    (sb_next sb, \<lparr>ro_key = key, ro_direction = d, ro_limit_price = p,
                                  ro_open_size = Quantity q, ro_sequence = sequence\<rparr>)
                    (spec_queue d sb)) sb)\<lparr>sb_next := Suc (sb_next sb)\<rparr>,
                make_handle d p (sb_next sb)))"

text \<open>Match against the other side, then rest what is left of a limit order.\<close>

definition spec_execute ::
  "side \<Rightarrow> order_key \<Rightarrow> order_pricing \<Rightarrow> quantity \<Rightarrow> sequence_number \<Rightarrow> spec_book \<Rightarrow>
   spec_book \<times> resting_order_handle \<times> (resting_order \<times> u64) list \<times> order_key list" where
  "spec_execute d key pricing qty sequence sb =
     (case consume (crosses d pricing) (quantity_value qty) (spec_queue (opposite d) sb) of
        (q, ys, ts, fs) \<Rightarrow>
          (case spec_rest d key pricing sequence q (set_spec_queue (opposite d) ys sb) of
             (sb', h) \<Rightarrow> (sb', h, ts, fs)))"

definition side_change :: "side \<Rightarrow> spec_book \<Rightarrow> spec_book \<Rightarrow> event list" where
  "side_change d before after =
     top_change (sb_instrument before) d (queue_top (spec_queue d before)) (queue_top (spec_queue d after))"

definition spec_submit ::
  "submit_order \<Rightarrow> sequence_number \<Rightarrow> spec_book \<Rightarrow> spec_book \<times> submit_result" where
  "spec_submit order sequence sb =
     (case spec_execute (so_direction order) (so_key order) (so_pricing order) (so_size order) sequence sb of
        (sb', h, ts, fs) \<Rightarrow>
          (sb', \<lparr>sr_events = Submit_accepted (so_key order) #
                   trade_events (so_key order) (sb_instrument sb) ts @
                   side_change Buy sb sb' @ side_change Sell sb sb',
                 sr_resting_order = h, sr_filled_resting_orders = fs\<rparr>))"

definition keeps_priority :: "update_order \<Rightarrow> resting_order \<Rightarrow> bool" where
  "keeps_priority order r \<longleftrightarrow>
     limit_price (uo_pricing order) = Some (ro_limit_price r) \<and> uo_size order \<le> ro_open_size r"

text \<open>The update of the resting order \<open>(n, r)\<close> of side \<open>d\<close>.\<close>

definition spec_update ::
  "update_order \<Rightarrow> side \<Rightarrow> node \<Rightarrow> resting_order \<Rightarrow> sequence_number \<Rightarrow> spec_book \<Rightarrow>
   spec_book \<times> update_result" where
  "spec_update order d n r sequence sb =
     (if keeps_priority order r then
        (let sb' = set_spec_queue d (resize_node n (uo_size order) (spec_queue d sb)) sb
         in (sb', \<lparr>ur_events = Update_accepted (uo_key order) # side_change d sb sb',
                   ur_resting_order = make_handle d (ro_limit_price r) n,
                   ur_filled_resting_orders = [], ur_updated = True\<rparr>))
      else
        (case spec_execute d (uo_key order) (uo_pricing order) (uo_size order) sequence
                (set_spec_queue d (remove_node n (spec_queue d sb)) sb) of
           (sb', h, ts, fs) \<Rightarrow>
             (sb', \<lparr>ur_events = Update_accepted (uo_key order) #
                      trade_events (uo_key order) (sb_instrument sb) ts @
                      side_change d sb sb' @ side_change (opposite d) sb sb',
                    ur_resting_order = h, ur_filled_resting_orders = fs, ur_updated = True\<rparr>)))"

definition spec_cancel :: "order_key \<Rightarrow> side \<Rightarrow> node \<Rightarrow> spec_book \<Rightarrow> spec_book \<times> cancel_result" where
  "spec_cancel key d n sb =
     (let sb' = set_spec_queue d (remove_node n (spec_queue d sb)) sb
      in (sb', \<lparr>cr_events = Order_cancelled key # side_change d sb sb', cr_cancelled = True\<rparr>))"

subsection \<open>The invariant\<close>

definition uncrossed :: "order_queue \<Rightarrow> order_queue \<Rightarrow> bool" where
  "uncrossed bids asks \<longleftrightarrow>
     (\<forall>b \<in> set bids. \<forall>a \<in> set asks. ro_limit_price (snd b) < ro_limit_price (snd a))"

definition spec_nodes :: "spec_book \<Rightarrow> node set" where
  "spec_nodes sb = fst ` set (sb_bids sb) \<union> fst ` set (sb_asks sb)"

definition spec_ok :: "spec_book \<Rightarrow> bool" where
  "spec_ok sb \<longleftrightarrow>
     queue_ok Buy (sb_bids sb) \<and> queue_ok Sell (sb_asks sb) \<and> uncrossed (sb_bids sb) (sb_asks sb) \<and>
     fst ` set (sb_bids sb) \<inter> fst ` set (sb_asks sb) = {} \<and> (\<forall>n \<in> spec_nodes sb. n < sb_next sb)"

lemma spec_queue_simps [simp]:
  "spec_queue d (set_spec_queue d q sb) = q"
  "spec_queue (opposite d) (set_spec_queue d q sb) = spec_queue (opposite d) sb"
  "spec_queue d (set_spec_queue (opposite d) q sb) = spec_queue d sb"
  "spec_queue e (sb\<lparr>sb_next := n\<rparr>) = spec_queue e sb"
  "sb_instrument (set_spec_queue d q sb) = sb_instrument sb"
  "sb_next (set_spec_queue d q sb) = sb_next sb"
  by (cases d; cases e; simp)+

lemma spec_nodes_eq: "spec_nodes sb = fst ` set (spec_queue d sb) \<union> fst ` set (spec_queue (opposite d) sb)"
  by (cases d) (auto simp: spec_nodes_def)

text \<open>The invariant seen from either side.\<close>

lemma spec_ok_iff:
  "spec_ok sb \<longleftrightarrow>
     queue_ok d (spec_queue d sb) \<and> queue_ok (opposite d) (spec_queue (opposite d) sb) \<and>
     (\<forall>x \<in> set (spec_queue d sb). \<forall>y \<in> set (spec_queue (opposite d) sb).
        \<not> crosses d (Limit_order (ro_limit_price (snd x))) (ro_limit_price (snd y))) \<and>
     fst ` set (spec_queue d sb) \<inter> fst ` set (spec_queue (opposite d) sb) = {} \<and>
     (\<forall>n \<in> fst ` set (spec_queue d sb). n < sb_next sb) \<and>
     (\<forall>n \<in> fst ` set (spec_queue (opposite d) sb). n < sb_next sb)"
  by (cases d)
     (auto simp: spec_ok_def spec_nodes_def uncrossed_def crosses_def ball_Un not_le not_less
        Int_commute)

subsection \<open>Crossing and priority\<close>

text \<open>
  What the matching loop relies on: crossing does not depend on anything but the price, and a price
  at least as good as one that crosses also crosses.
\<close>

locale crossing = comparator lt for lt :: "price \<Rightarrow> price \<Rightarrow> bool" +
  fixes cross :: "order_pricing \<Rightarrow> price \<Rightarrow> bool"
  assumes cross_mono: "cross pricing p \<Longrightarrow> \<not> lt p p' \<Longrightarrow> cross pricing p'"
begin

lemma consume_leaves_no_cross:
  assumes "consume (cross pricing) q xs = (q', ys, ts, fs)" "q' \<noteq> 0"
    and "\<forall>e \<in> set xs. 0 < open_value (snd e)"
    and "sorted_wrt (\<lambda>a b. \<not> lt (ro_limit_price (snd b)) (ro_limit_price (snd a))) ys"
  shows "\<forall>e \<in> set ys. \<not> cross pricing (ro_limit_price (snd e))"
proof (cases ys)
  case (Cons e es)
  with consume_stops [OF assms(1,3)] assms(2) have "\<not> cross pricing (ro_limit_price (snd e))"
    by simp
  with assms(4) show ?thesis by (auto simp: Cons dest: cross_mono)
qed simp

lemma consume_crosses:
  assumes "consume (cross pricing) q xs = (q', ys, ts, fs)"
  shows "\<forall>t \<in> set ts. cross pricing (ro_limit_price (fst t))"
  using assms
  by (induction "cross pricing" q xs arbitrary: q' ys ts fs rule: consume.induct)
     (auto split: if_splits prod.splits)

end

interpretation buy_crossing: crossing "\<lambda>a b :: price. a < b" can_buy_cross
  by unfold_locales (auto simp: can_buy_cross_def split: option.splits)

interpretation sell_crossing: crossing "\<lambda>a b :: price. b < a" can_sell_cross
  by unfold_locales (auto simp: can_sell_cross_def split: option.splits)

interpretation side_crossing: crossing "side_before (opposite d)" "crosses d" for d
proof unfold_locales
  fix pricing p p'
  assume "crosses d pricing p" "\<not> side_before (opposite d) p p'"
  then show "crosses d pricing p'"
    by (cases d) (auto simp: crosses_def split: option.splits)
qed

lemma can_cross_crosses: "can_buy_cross = crosses Buy" "can_sell_cross = crosses Sell"
  by (auto simp: fun_eq_iff can_buy_cross_def can_sell_cross_def crosses_def not_less split: option.splits)

subsection \<open>The operations keep the invariant\<close>

lemma sorted_wrt_drop: "sorted_wrt P xs \<Longrightarrow> sorted_wrt P (drop k xs)"
  by (metis append_take_drop_id sorted_wrt_append)

lemma queue_ok_drop: "queue_ok d q \<Longrightarrow> queue_ok d (drop k q)"
  unfolding queue_ok_def
  by (auto simp: sorted_wrt_drop drop_map [symmetric] dest: in_set_dropD)

lemma queue_ok_filter: "queue_ok d q \<Longrightarrow> queue_ok d (filter P q)"
  unfolding queue_ok_def by (auto simp: sorted_wrt_filter distinct_map_filter)

lemma queue_ok_remove: "queue_ok d q \<Longrightarrow> queue_ok d (remove_node n q)"
  unfolding remove_node_def by (rule queue_ok_filter)

lemma queue_ok_resize:
  "queue_ok d q \<Longrightarrow> 0 < quantity_value s \<Longrightarrow> queue_ok d (resize_node n s q)"
  unfolding queue_ok_def
  by (auto simp: resize_node_def sorted_wrt_map comp_def split_beta
      intro: sorted_wrt_mono_rel [rotated])

lemma queue_ok_consume:
  assumes "queue_ok d q" "consume cross x q = (x', ys, ts, fs)"
  shows "queue_ok d ys" "\<forall>y \<in> set ys. \<exists>e \<in> set q. fst e = fst y \<and> ro_limit_price (snd e) = ro_limit_price (snd y)"
proof -
  have pos: "\<forall>e \<in> set q. 0 < open_value (snd e)" using assms(1) by (simp add: queue_ok_def)
  have "queue_ok d ys \<and> (\<forall>y \<in> set ys. \<exists>e \<in> set q. fst e = fst y \<and> ro_limit_price (snd e) = ro_limit_price (snd y))"
    using assms(2)
  proof (rule consume_shape)
    fix k assume "ys = drop k q"
    then show ?thesis using assms(1) by (auto intro: queue_ok_drop dest: in_set_dropD)
  next
    fix k n r x rest
    assume a: "drop k q = (n, r) # rest" "ys = (n, take_from_resting x r) # rest" "x < open_value r"
    then have "0 < open_value r - x" by (blast intro: word_diff_pos)
    moreover have "queue_ok d ((n, r) # rest)" using queue_ok_drop [OF assms(1), of k] a(1) by simp
    moreover have "set ((n, r) # rest) \<subseteq> set q" using a(1) by (metis set_drop_subset)
    moreover from this have "\<exists>e \<in> set q. fst e = n \<and> ro_limit_price (snd e) = ro_limit_price r"
      by (intro bexI [of _ "(n, r)"]) auto
    ultimately show ?thesis using a(2) by (auto simp: queue_ok_def)
  qed
  then show "queue_ok d ys"
    "\<forall>y \<in> set ys. \<exists>e \<in> set q. fst e = fst y \<and> ro_limit_price (snd e) = ro_limit_price (snd y)"
    by auto
qed

lemma set_enqueue [simp]: "set (enqueue lt e q) = insert e (set q)"
  by (simp add: enqueue_def Let_def) (metis Un_insert_right set_append takeWhile_dropWhile_id)

text \<open>What stands behind a new order has a strictly worse price.\<close>

lemma dropWhile_behind:
  assumes "queue_ok d q"
  shows "\<forall>x \<in> set (dropWhile (\<lambda>x. \<not> side_before d (ro_limit_price (snd e)) (ro_limit_price (snd x))) q).
    side_before d (ro_limit_price (snd e)) (ro_limit_price (snd x))"
proof -
  define ahead where "ahead = (\<lambda>x :: node \<times> resting_order.
    \<not> side_before d (ro_limit_price (snd e)) (ro_limit_price (snd x)))"
  have s: "sorted_wrt (\<lambda>a b. \<not> side_before d (ro_limit_price (snd b)) (ro_limit_price (snd a)))
      (takeWhile ahead q @ dropWhile ahead q)"
    using assms by (simp add: queue_ok_def)
  have "\<forall>x \<in> set (dropWhile ahead q). side_before d (ro_limit_price (snd e)) (ro_limit_price (snd x))"
  proof (cases "dropWhile ahead q")
    case (Cons y ys)
    then have y: "side_before d (ro_limit_price (snd e)) (ro_limit_price (snd y))"
      by (auto simp: ahead_def dropWhile_eq_Cons_conv)
    from s Cons have 1: "\<forall>x \<in> set ys. \<not> side_before d (ro_limit_price (snd x)) (ro_limit_price (snd y))"
      by (simp add: sorted_wrt_append)
    have "side_before d (ro_limit_price (snd e)) (ro_limit_price (snd x))" if "x \<in> set ys" for x
      using y bspec [OF 1 that] by (rule book_order.lt_le_trans)
    with y show ?thesis by (simp add: Cons)
  qed (simp del: dropWhile_eq_Nil_conv)
  then show ?thesis unfolding ahead_def .
qed

lemma enqueue_between:
  assumes "queue_ok d q"
  obtains front rear where "q = front @ rear" "enqueue (side_before d) e q = front @ e # rear"
    "\<forall>x \<in> set front. \<not> side_before d (ro_limit_price (snd e)) (ro_limit_price (snd x))"
    "\<forall>x \<in> set rear. side_before d (ro_limit_price (snd e)) (ro_limit_price (snd x))"
proof
  let ?ahead = "\<lambda>x :: node \<times> resting_order. \<not> side_before d (ro_limit_price (snd e)) (ro_limit_price (snd x))"
  show "q = takeWhile ?ahead q @ dropWhile ?ahead q" by simp
  show "enqueue (side_before d) e q = takeWhile ?ahead q @ e # dropWhile ?ahead q" by (simp add: enqueue_def Let_def)
  show "\<forall>x \<in> set (takeWhile ?ahead q). ?ahead x" by (blast dest: set_takeWhileD)
  show "\<forall>x \<in> set (dropWhile ?ahead q). side_before d (ro_limit_price (snd e)) (ro_limit_price (snd x))"
    using assms by (rule dropWhile_behind)
qed

lemma queue_ok_enqueue:
  assumes "queue_ok d q" "fst e \<notin> fst ` set q" "0 < open_value (snd e)" "ro_direction (snd e) = d"
  shows "queue_ok d (enqueue (side_before d) e q)"
proof -
  define ahead where "ahead = (\<lambda>x :: node \<times> resting_order.
    \<not> side_before d (ro_limit_price (snd e)) (ro_limit_price (snd x)))"
  define P where "P = (\<lambda>(a :: node \<times> resting_order) (b :: node \<times> resting_order).
    \<not> side_before d (ro_limit_price (snd b)) (ro_limit_price (snd a)))"
  have eq: "enqueue (side_before d) e q = takeWhile ahead q @ e # dropWhile ahead q"
    by (simp add: enqueue_def ahead_def Let_def)
  have split: "takeWhile ahead q @ dropWhile ahead q = q" by simp
  have s: "sorted_wrt P (takeWhile ahead q @ dropWhile ahead q)"
    using assms(1) by (simp add: queue_ok_def P_def)
  have 1: "\<forall>x \<in> set (takeWhile ahead q). P x e"
    by (auto simp: P_def ahead_def dest: set_takeWhileD)
  have 2: "\<forall>x \<in> set (dropWhile ahead q). P e x"
  proof
    fix x assume "x \<in> set (dropWhile ahead q)"
    with dropWhile_behind [OF assms(1), of e] have "side_before d (ro_limit_price (snd e)) (ro_limit_price (snd x))"
      unfolding ahead_def by (rule bspec)
    then show "P e x" unfolding P_def by (rule book_order.lt_asym)
  qed
  have "sorted_wrt P (enqueue (side_before d) e q)"
    using s [unfolded sorted_wrt_append] 1 2 unfolding eq sorted_wrt_append by simp
  moreover have "distinct (map fst (enqueue (side_before d) e q))"
  proof -
    have "distinct (map fst (takeWhile ahead q @ dropWhile ahead q))"
      using assms(1) by (simp add: queue_ok_def)
    note this [unfolded map_append distinct_append]
    moreover have "fst e \<notin> fst ` set (takeWhile ahead q)" "fst e \<notin> fst ` set (dropWhile ahead q)"
      using assms(2) by (auto dest: set_takeWhileD set_dropWhileD)
    ultimately show ?thesis unfolding eq by auto
  qed
  ultimately show ?thesis using assms by (auto simp: queue_ok_def P_def)
qed

lemma spec_rest_ok:
  assumes ok: "spec_ok sb"
    and no: "\<And>p y. q \<noteq> 0 \<Longrightarrow> limit_price pricing = Some p \<Longrightarrow> y \<in> set (spec_queue (opposite d) sb) \<Longrightarrow>
        \<not> crosses d pricing (ro_limit_price (snd y))"
  shows "spec_ok (fst (spec_rest d key pricing sequence q sb))"
proof (cases "q = 0 \<or> limit_price pricing = None")
  case True
  with ok show ?thesis by (auto simp: spec_rest_def split: option.splits)
next
  case False
  then obtain p where p: "limit_price pricing = Some p" and q: "q \<noteq> 0" by auto
  then have q0: "0 < q" by (simp add: word_neq_0_conv)
  let ?r = "\<lparr>ro_key = key, ro_direction = d, ro_limit_price = p, ro_open_size = Quantity q, ro_sequence = sequence\<rparr>"
  let ?n = "sb_next sb"
  from ok have ok': "queue_ok d (spec_queue d sb)" "queue_ok (opposite d) (spec_queue (opposite d) sb)"
    "\<forall>x \<in> set (spec_queue d sb). \<forall>y \<in> set (spec_queue (opposite d) sb).
        \<not> crosses d (Limit_order (ro_limit_price (snd x))) (ro_limit_price (snd y))"
    "fst ` set (spec_queue d sb) \<inter> fst ` set (spec_queue (opposite d) sb) = {}"
    "\<forall>n \<in> fst ` set (spec_queue d sb). n < sb_next sb"
    "\<forall>n \<in> fst ` set (spec_queue (opposite d) sb). n < sb_next sb"
    unfolding spec_ok_iff [of sb d] by blast+
  have fresh: "?n \<notin> fst ` set (spec_queue d sb)" "?n \<notin> fst ` set (spec_queue (opposite d) sb)"
    using ok'(5,6) by blast+
  have "crosses d (Limit_order p) = crosses d pricing"
    using p by (simp add: crosses_def fun_eq_iff)
  then have new: "\<forall>y \<in> set (spec_queue (opposite d) sb). \<not> crosses d (Limit_order p) (ro_limit_price (snd y))"
    using no [OF q p] by simp
  have "queue_ok d (enqueue (side_before d) (?n, ?r) (spec_queue d sb))"
    using ok'(1) fresh(1) q0 by (intro queue_ok_enqueue) simp_all
  then show ?thesis
    using ok' fresh q new unfolding spec_ok_iff [of _ d] by (auto simp: spec_rest_def p less_Suc_eq)
qed

lemma spec_execute_ok:
  assumes "spec_ok sb"
  shows "spec_ok (fst (spec_execute d key pricing qty sequence sb))"
proof -
  obtain q ys ts fs where c: "consume (crosses d pricing) (quantity_value qty) (spec_queue (opposite d) sb) = (q, ys, ts, fs)"
    by (metis surj_pair)
  let ?sb = "set_spec_queue (opposite d) ys sb"
  from assms have ok: "queue_ok (opposite d) (spec_queue (opposite d) sb)" unfolding spec_ok_iff [of sb d] by blast
  note ys = queue_ok_consume [OF ok c]
  have sub: "fst ` set ys \<subseteq> fst ` set (spec_queue (opposite d) sb)" using c by (rule consume_nodes_subset)
  have "spec_ok ?sb"
    using assms ys sub unfolding spec_ok_iff [of _ d]
    by simp (metis (no_types, lifting) disjoint_mono_right subset_iff)
  moreover have "\<not> crosses d pricing (ro_limit_price (snd y))" if "q \<noteq> 0" "y \<in> set ys" for y
  proof -
    have "\<forall>e \<in> set (spec_queue (opposite d) sb). 0 < open_value (snd e)"
      using ok by (simp add: queue_ok_def)
    moreover have "sorted_wrt (\<lambda>a b. \<not> side_before (opposite d) (ro_limit_price (snd b)) (ro_limit_price (snd a))) ys"
      using ys(1) by (simp add: queue_ok_def)
    ultimately show ?thesis using side_crossing.consume_leaves_no_cross [OF c that(1)] that(2) by blast
  qed
  ultimately have "spec_ok (fst (spec_rest d key pricing sequence q ?sb))"
    by (intro spec_rest_ok) auto
  then show ?thesis by (simp add: spec_execute_def c case_prod_beta)
qed

lemma spec_ok_shrink:
  assumes "spec_ok sb" "queue_ok d q"
    and "\<forall>y \<in> set q. \<exists>e \<in> set (spec_queue d sb). fst e = fst y \<and> ro_limit_price (snd e) = ro_limit_price (snd y)"
  shows "spec_ok (set_spec_queue d q sb)"
proof -
  have sub: "fst ` set q \<subseteq> fst ` set (spec_queue d sb)" using assms(3) by force
  have 1: "queue_ok (opposite d) (spec_queue (opposite d) sb)"
    "fst ` set (spec_queue d sb) \<inter> fst ` set (spec_queue (opposite d) sb) = {}"
    "\<forall>n \<in> fst ` set (spec_queue d sb). n < sb_next sb"
    "\<forall>n \<in> fst ` set (spec_queue (opposite d) sb). n < sb_next sb"
    "\<forall>x \<in> set (spec_queue d sb). \<forall>y \<in> set (spec_queue (opposite d) sb).
        \<not> crosses d (Limit_order (ro_limit_price (snd x))) (ro_limit_price (snd y))"
    using assms(1) unfolding spec_ok_iff [of sb d] by blast+
  have "\<not> crosses d (Limit_order (ro_limit_price (snd x))) (ro_limit_price (snd y))"
    if "x \<in> set q" "y \<in> set (spec_queue (opposite d) sb)" for x y
    using assms(3) that 1(5) by metis
  moreover have "fst ` set q \<inter> fst ` set (spec_queue (opposite d) sb) = {}"
    using 1(2) sub by (rule disjoint_mono_left)
  moreover have "\<forall>n \<in> fst ` set q. n < sb_next sb" using 1(3) sub by (rule Ball_mono_set)
  ultimately show ?thesis using 1 sub assms(2) unfolding spec_ok_iff [of _ d] by auto
qed

lemma spec_ok_remove: "spec_ok sb \<Longrightarrow> spec_ok (set_spec_queue d (remove_node n (spec_queue d sb)) sb)"
proof (rule spec_ok_shrink)
  assume "spec_ok sb"
  then show "queue_ok d (remove_node n (spec_queue d sb))"
    by (simp add: spec_ok_iff [of sb d] queue_ok_remove)
  show "\<forall>y \<in> set (remove_node n (spec_queue d sb)). \<exists>e \<in> set (spec_queue d sb).
      fst e = fst y \<and> ro_limit_price (snd e) = ro_limit_price (snd y)"
    by force
qed

lemma spec_ok_resize:
  assumes "spec_ok sb" "0 < quantity_value s"
  shows "spec_ok (set_spec_queue d (resize_node n s (spec_queue d sb)) sb)"
proof (rule spec_ok_shrink [OF assms(1)])
  show "queue_ok d (resize_node n s (spec_queue d sb))"
    using assms by (auto simp: spec_ok_iff [of sb d] intro: queue_ok_resize)
  show "\<forall>y \<in> set (resize_node n s (spec_queue d sb)). \<exists>e \<in> set (spec_queue d sb).
      fst e = fst y \<and> ro_limit_price (snd e) = ro_limit_price (snd y)"
    by (force simp: resize_node_def)
qed

lemma spec_submit_ok [wf_intros]: "spec_ok sb \<Longrightarrow> spec_ok (fst (spec_submit order sequence sb))"
  by (simp add: spec_submit_def case_prod_beta spec_execute_ok)

lemma spec_update_ok [wf_intros]:
  assumes "spec_ok sb" "0 < quantity_value (uo_size order)"
  shows "spec_ok (fst (spec_update order d n r sequence sb))"
proof (cases "keeps_priority order r")
  case True
  with assms show ?thesis by (simp add: spec_update_def Let_def spec_ok_resize)
next
  case False
  have "spec_ok (fst (spec_execute d (uo_key order) (uo_pricing order) (uo_size order) sequence
      (set_spec_queue d (remove_node n (spec_queue d sb)) sb)))"
    using assms(1) by (intro spec_execute_ok spec_ok_remove)
  with False show ?thesis by (simp add: spec_update_def case_prod_beta)
qed

lemma spec_cancel_ok [wf_intros]: "spec_ok sb \<Longrightarrow> spec_ok (fst (spec_cancel key d n sb))"
  by (simp add: spec_cancel_def Let_def spec_ok_remove)

end
