(* ===== verification/Book_Refine.thy ===== *)
theory Book_Refine
  imports Book_Spec
begin

text \<open>
  The order book of the code implements the abstract book: under the invariant \<open>book_ok\<close> every public
  operation returns normally, computes what its specification computes on the abstraction, and
  keeps the invariant.
\<close>

definition abs_book :: "order_book \<Rightarrow> spec_book" where
  "abs_book b = \<lparr>sb_instrument = ob_instrument b, sb_bids = queue (ob_bids b),
     sb_asks = queue (ob_asks b), sb_next = ob_next_node b\<rparr>"

definition book_ok :: "order_book \<Rightarrow> bool" where
  "book_ok b \<longleftrightarrow> levels_ok Buy (ob_bids b) \<and> levels_ok Sell (ob_asks b) \<and> spec_ok (abs_book b)"

lemma abs_book_simps [simp]:
  "sb_instrument (abs_book b) = ob_instrument b"
  "sb_next (abs_book b) = ob_next_node b"
  "spec_queue d (abs_book b) = queue (side_levels d b)"
  by (cases d; simp add: abs_book_def)+

lemma side_levels_simps [simp]:
  "side_levels d (set_side_levels d ls b) = ls"
  "side_levels (opposite d) (set_side_levels d ls b) = side_levels (opposite d) b"
  "side_levels d (set_side_levels (opposite d) ls b) = side_levels d b"
  "side_levels e (b\<lparr>ob_next_node := n\<rparr>) = side_levels e b"
  "ob_instrument (set_side_levels d ls b) = ob_instrument b"
  "ob_next_node (set_side_levels d ls b) = ob_next_node b"
  "set_side_levels d (side_levels d b) b = b"
  by (cases d; cases e; simp)+

lemma abs_set_side [simp]:
  "abs_book (set_side_levels d ls b) = set_spec_queue d (queue ls) (abs_book b)"
  "abs_book (b\<lparr>ob_next_node := n\<rparr>) = (abs_book b)\<lparr>sb_next := n\<rparr>"
  by (cases d; simp add: abs_book_def)+

lemma levels_ok_sides: "levels_ok Buy (ob_bids b) \<and> levels_ok Sell (ob_asks b) \<longleftrightarrow>
    levels_ok d (side_levels d b) \<and> levels_ok (opposite d) (side_levels (opposite d) b)"
  by (cases d) auto

lemma book_ok_iff: "book_ok b \<longleftrightarrow>
    levels_ok d (side_levels d b) \<and> levels_ok (opposite d) (side_levels (opposite d) b) \<and> spec_ok (abs_book b)"
  using levels_ok_sides [of b d] by (auto simp: book_ok_def)

lemma book_ok_side: "book_ok b \<Longrightarrow> levels_ok d (side_levels d b)"
  by (simp add: book_ok_iff [of b d])

lemma make_order_book_ok: "book_ok (make_order_book i)"
  by (simp add: book_ok_def make_order_book_def spec_ok_def abs_book_def queue_ok_def uncrossed_def
        spec_nodes_def)

lemma top_of_side: "book_ok b \<Longrightarrow> top_of_book (side_levels d b) = queue_top (queue (side_levels d b))"
  by (rule top_of_book_queue) (rule book_ok_side)

lemma append_change:
  "append_book_update_if_changed i d before after events = events @ top_change i d before after"
  by (auto simp: append_book_update_if_changed_def top_change_def split: option.splits)

subsection \<open>Executing an incoming order\<close>

text \<open>
  The common part of submit and replace: match against the other side, rest the remainder.
\<close>

lemma rest_order_refines:
  assumes "book_ok b" "in_direction i = d" "0 < in_value i"
    and "rest_order i p b = (b', h)"
    and "limit_price pricing = Some p"
  shows "levels_ok Buy (ob_bids b')" "levels_ok Sell (ob_asks b')" "ob_instrument b' = ob_instrument b"
    "spec_rest d (in_key i) pricing (in_sequence i) (in_value i) (abs_book b) = (abs_book b', h)"
proof -
  have fresh: "ob_next_node b \<notin> fst ` set (queue (side_levels d b))"
    using assms(1) by (auto simp: book_ok_iff [of b d] spec_ok_iff [of _ d])
  have p: "levels_ok d (push_order (side_before d) i p (ob_next_node b) (side_levels d b))"
    "queue (push_order (side_before d) i p (ob_next_node b) (side_levels d b)) =
      enqueue (side_before d) (ob_next_node b, resting_of i p) (queue (side_levels d b))"
    using push_order_correct [OF book_ok_side [OF assms(1)] fresh assms(2,3)] by blast+
  have b': "b' = (set_side_levels d (push_order (side_before d) i p (ob_next_node b) (side_levels d b)) b)
      \<lparr>ob_next_node := Suc (ob_next_node b)\<rparr>" and h: "h = make_handle d p (ob_next_node b)"
    using assms(2,4) by (auto simp: rest_order_def Let_def)
  have "levels_ok (opposite d) (side_levels (opposite d) b)" using assms(1) by (rule book_ok_side)
  with p(1) have "levels_ok d (side_levels d b') \<and> levels_ok (opposite d) (side_levels (opposite d) b')"
    by (simp add: b')
  then show "levels_ok Buy (ob_bids b')" "levels_ok Sell (ob_asks b')"
    by (simp_all only: levels_ok_sides [symmetric])
  show "ob_instrument b' = ob_instrument b" by (simp add: b')
  have "resting_of i p = \<lparr>ro_key = in_key i, ro_direction = d, ro_limit_price = p,
      ro_open_size = Quantity (in_value i), ro_sequence = in_sequence i\<rparr>"
    using assms(2) by (simp add: resting_of_def in_value_def)
  then show "spec_rest d (in_key i) pricing (in_sequence i) (in_value i) (abs_book b) = (abs_book b', h)"
    using assms(3,5) p(2) by (simp add: spec_rest_def b' h)
qed

lemma match_side_refines:
  assumes "book_ok b" "in_direction i = d"
    and "spec_execute d (in_key i) pricing (in_open_size i) (in_sequence i) (abs_book b) = (sb', h, ts, fs)"
  obtains ls q where
    "match_order (ob_instrument b) pricing (crosses d)
       \<lparr>sm_incoming = i, sm_levels = side_levels (opposite d) b, sm_events = ev, sm_filled = []\<rparr> =
     (\<lparr>sm_incoming = with_size i q, sm_levels = ls,
       sm_events = ev @ trade_events (in_key i) (ob_instrument b) ts, sm_filled = fs\<rparr>, Inr ())"
    "book_ok (set_side_levels (opposite d) ls b)"
    "spec_rest d (in_key i) pricing (in_sequence i) q (abs_book (set_side_levels (opposite d) ls b)) = (sb', h)"
proof -
  obtain q ys ts' fs' where c: "consume (crosses d pricing) (in_value i) (queue (side_levels (opposite d) b)) = (q, ys, ts', fs')"
    by (metis surj_pair)
  with assms(3) have eqs: "ts' = ts" "fs' = fs"
    and sr: "spec_rest d (in_key i) pricing (in_sequence i) q (set_spec_queue (opposite d) ys (abs_book b)) = (sb', h)"
    by (auto simp: spec_execute_def in_value_def split: prod.splits)
  have lok: "levels_ok (opposite d) (side_levels (opposite d) b)" using assms(1) by (rule book_ok_side)
  obtain ls where ls: "match_order (ob_instrument b) pricing (crosses d)
       \<lparr>sm_incoming = i, sm_levels = side_levels (opposite d) b, sm_events = ev, sm_filled = []\<rparr> =
     (\<lparr>sm_incoming = with_size i q, sm_levels = ls,
       sm_events = ev @ trade_events (in_key i) (ob_instrument b) ts, sm_filled = fs\<rparr>, Inr ())"
    "levels_ok (opposite d) ls" "queue ls = ys"
    using match_order_correct [of "opposite d" "\<lparr>sm_incoming = i, sm_levels = side_levels (opposite d) b,
        sm_events = ev, sm_filled = []\<rparr>" "crosses d" pricing q ys ts fs "ob_instrument b"] lok c eqs
    by auto
  have qok: "queue_ok (opposite d) (queue (side_levels (opposite d) b))" using lok by (rule queue_ok_queue)
  have "spec_ok (set_spec_queue (opposite d) ys (abs_book b))"
    using assms(1) queue_ok_consume [OF qok c]
    by (intro spec_ok_shrink) (auto simp: book_ok_def)
  moreover have "levels_ok d (side_levels d b)" using assms(1) by (rule book_ok_side)
  ultimately have "book_ok (set_side_levels (opposite d) ls b)"
    using ls(2,3) by (simp add: book_ok_iff [of _ d])
  with ls c sr show ?thesis by (intro that [of q ls]) (auto simp: eqs)
qed

lemma top_change_same [simp]: "top_change i d t t = []"
  by (simp add: top_change_def)

lemma side_change_code:
  "book_ok b \<Longrightarrow> book_ok b' \<Longrightarrow> side_change d (abs_book b) (abs_book b') =
     top_change (ob_instrument b) d (top_of_book (side_levels d b)) (top_of_book (side_levels d b'))"
  by (simp add: side_change_def top_of_side)

text \<open>Both branches of the code's remainder handling, as one case distinction.\<close>

lemma rest_remainder_refines:
  assumes "book_ok b" "in_direction i = d"
    and "spec_rest d (in_key i) pricing (in_sequence i) (in_value i) (abs_book b) = (sb', h)"
    and "spec_ok sb'"
  obtains (none) "resting_price pricing i = None" "sb' = abs_book b" "h = empty_handle"
  | (rest) p b' where "resting_price pricing i = Some p" "rest_order i p b = (b', h)" "sb' = abs_book b'"
      "book_ok b'" "ob_instrument b' = ob_instrument b"
      "side_levels (opposite d) b' = side_levels (opposite d) b"
proof (cases "resting_price pricing i")
  case None
  then have "limit_price pricing = None \<or> in_value i = 0" by (auto simp: resting_price_def split: if_splits)
  with assms(3) show ?thesis by (intro none) (auto simp: None spec_rest_def split: option.splits)
next
  case (Some p)
  then have p: "limit_price pricing = Some p" and q: "0 < in_value i"
    by (auto simp: resting_price_def split: if_splits)
  obtain b' h' where r: "rest_order i p b = (b', h')" by fastforce
  note rr = rest_order_refines [OF assms(1,2) q r p]
  show ?thesis
  proof (rule rest [OF Some])
    show "rest_order i p b = (b', h)" "sb' = abs_book b'" using r rr(4) assms(3) by auto
    then show "book_ok b'" using rr assms(4) by (simp add: book_ok_def)
    show "ob_instrument b' = ob_instrument b" by (rule rr)
    show "side_levels (opposite d) b' = side_levels (opposite d) b"
      using r assms(2) by (auto simp: rest_order_def Let_def)
  qed
qed

text \<open>
  Matching and resting together. \<open>incoming_of\<close> is the order that both submit and replace execute; what is
  left of it is \<open>with_size i q\<close>.
\<close>

definition incoming_of :: "side \<Rightarrow> order_key \<Rightarrow> quantity \<Rightarrow> sequence_number \<Rightarrow> incoming_order" where
  "incoming_of d key qty sequence = \<lparr>in_key = key, in_direction = d, in_open_size = qty, in_sequence = sequence\<rparr>"

lemma incoming_of_simps [simp]:
  "in_key (incoming_of d key qty sequence) = key" "in_direction (incoming_of d key qty sequence) = d"
  "in_open_size (incoming_of d key qty sequence) = qty" "in_sequence (incoming_of d key qty sequence) = sequence"
  by (simp_all add: incoming_of_def)

definition rest_remainder :: "order_pricing \<Rightarrow> incoming_order \<Rightarrow> order_book \<Rightarrow> order_book \<times> resting_order_handle" where
  "rest_remainder pricing i b =
     (case resting_price pricing i of None \<Rightarrow> (b, empty_handle) | Some p \<Rightarrow> rest_order i p b)"

lemma execute_refines:
  assumes ok: "book_ok b"
    and ex: "spec_execute d key pricing qty sequence (abs_book b) = (sb', h, ts, fs)"
  obtains ls q b' where
    "match_order (ob_instrument b) pricing (crosses d)
       \<lparr>sm_incoming = incoming_of d key qty sequence, sm_levels = side_levels (opposite d) b, sm_events = ev, sm_filled = []\<rparr> =
     (\<lparr>sm_incoming = with_size (incoming_of d key qty sequence) q, sm_levels = ls,
       sm_events = ev @ trade_events key (ob_instrument b) ts, sm_filled = fs\<rparr>, Inr ())"
    "rest_remainder pricing (with_size (incoming_of d key qty sequence) q) (set_side_levels (opposite d) ls b) = (b', h)"
    "book_ok b'" "abs_book b' = sb'" "side_levels (opposite d) b' = ls"
proof -
  let ?i = "incoming_of d key qty sequence"
  have sok: "spec_ok sb'"
    using ok spec_execute_ok [of "abs_book b" d key pricing qty sequence] by (simp add: book_ok_def ex)
  have dir0: "in_direction ?i = d" by simp
  have ex': "spec_execute d (in_key ?i) pricing (in_open_size ?i) (in_sequence ?i) (abs_book b) = (sb', h, ts, fs)"
    using ex by simp
  obtain ls q where m: "match_order (ob_instrument b) pricing (crosses d)
       \<lparr>sm_incoming = ?i, sm_levels = side_levels (opposite d) b, sm_events = ev, sm_filled = []\<rparr> =
     (\<lparr>sm_incoming = with_size ?i q, sm_levels = ls,
       sm_events = ev @ trade_events (in_key ?i) (ob_instrument b) ts, sm_filled = fs\<rparr>, Inr ())"
    and b1: "book_ok (set_side_levels (opposite d) ls b)"
    and sr: "spec_rest d (in_key ?i) pricing (in_sequence ?i) q (abs_book (set_side_levels (opposite d) ls b)) = (sb', h)"
    by (rule match_side_refines [OF ok dir0 ex', of ev])
  have dir: "in_direction (with_size ?i q) = d" by simp
  have sr': "spec_rest d (in_key (with_size ?i q)) pricing (in_sequence (with_size ?i q)) (in_value (with_size ?i q))
      (abs_book (set_side_levels (opposite d) ls b)) = (sb', h)"
    using sr by simp
  from b1 dir sr' sok show ?thesis
  proof (cases rule: rest_remainder_refines)
    case none
    with that [OF m [simplified]] b1 show ?thesis by (simp add: rest_remainder_def)
  next
    case (rest p b')
    with that [OF m [simplified], of b'] show ?thesis by (simp add: rest_remainder_def)
  qed
qed

subsection \<open>Submit\<close>

lemma submit_code:
  assumes "match_order (ob_instrument b) (so_pricing order) (crosses (so_direction order))
       \<lparr>sm_incoming = incoming_of (so_direction order) (so_key order) (so_size order) sequence,
        sm_levels = side_levels (opposite (so_direction order)) b, sm_events = [Submit_accepted (so_key order)], sm_filled = []\<rparr> =
     (\<lparr>sm_incoming = i, sm_levels = ls, sm_events = ev, sm_filled = fs\<rparr>, Inr ())"
    and "rest_remainder (so_pricing order) i (set_side_levels (opposite (so_direction order)) ls b) = (b', h)"
    and "side_levels (opposite (so_direction order)) b' = ls"
  shows "submit order sequence b = (b', Inr \<lparr>sr_events = ev @
        top_change (ob_instrument b) Buy (top_of_book (ob_bids b)) (top_of_book (ob_bids b')) @
        top_change (ob_instrument b) Sell (top_of_book (ob_asks b)) (top_of_book (ob_asks b')),
      sr_resting_order = h, sr_filled_resting_orders = fs\<rparr>)"
proof -
  have "side_levels (so_direction order) b' = side_levels (so_direction order) b"
    if "resting_price (so_pricing order) i = None"
    using assms(2) that by (cases "so_direction order") (auto simp: rest_remainder_def)
  with assms show ?thesis
    by (cases "so_direction order")
      (auto simp: submit_def submit_buy_def submit_sell_def can_cross_crosses incoming_of_def rest_remainder_def Let_def
         append_change split: option.splits)
qed

lemma submit_refines:
  assumes "book_ok b"
  obtains b' where "submit order sequence b = (b', Inr (snd (spec_submit order sequence (abs_book b))))"
    "abs_book b' = fst (spec_submit order sequence (abs_book b))" "book_ok b'"
proof -
  let ?d = "so_direction order"
  obtain sb' h ts fs where ex: "spec_execute ?d (so_key order) (so_pricing order) (so_size order) sequence (abs_book b) =
      (sb', h, ts, fs)" by (metis surj_pair)
  obtain ls q b' where m: "match_order (ob_instrument b) (so_pricing order) (crosses ?d)
       \<lparr>sm_incoming = incoming_of ?d (so_key order) (so_size order) sequence, sm_levels = side_levels (opposite ?d) b,
        sm_events = [Submit_accepted (so_key order)], sm_filled = []\<rparr> =
     (\<lparr>sm_incoming = with_size (incoming_of ?d (so_key order) (so_size order) sequence) q, sm_levels = ls,
       sm_events = [Submit_accepted (so_key order)] @ trade_events (so_key order) (ob_instrument b) ts, sm_filled = fs\<rparr>, Inr ())"
    and rest: "rest_remainder (so_pricing order) (with_size (incoming_of ?d (so_key order) (so_size order) sequence) q)
      (set_side_levels (opposite ?d) ls b) = (b', h)"
    and b': "book_ok b'" "abs_book b' = sb'" "side_levels (opposite ?d) b' = ls"
    by (rule execute_refines [OF assms ex, of "[Submit_accepted (so_key order)]"])
  have spec: "spec_submit order sequence (abs_book b) =
      (sb', \<lparr>sr_events = Submit_accepted (so_key order) # trade_events (so_key order) (ob_instrument b) ts @
               side_change Buy (abs_book b) sb' @ side_change Sell (abs_book b) sb',
             sr_resting_order = h, sr_filled_resting_orders = fs\<rparr>)"
    using ex by (simp add: spec_submit_def)
  show ?thesis
    by (rule that [OF _ _ b'(1)])
      (simp_all add: submit_code [OF m rest b'(3)] spec b'(2) [symmetric] side_change_code [OF assms b'(1)])
qed

subsection \<open>Cancel\<close>

text \<open>A live handle: what the engine keeps for every active order.\<close>

definition live :: "order_book \<Rightarrow> side \<Rightarrow> node \<Rightarrow> resting_order \<Rightarrow> bool" where
  "live b d n r \<longleftrightarrow> (n, r) \<in> set (queue (side_levels d b))"

definition handle_of :: "node \<Rightarrow> resting_order \<Rightarrow> resting_order_handle" where
  "handle_of n r = make_handle (ro_direction r) (ro_limit_price r) n"

lemma live_direction: "book_ok b \<Longrightarrow> live b d n r \<Longrightarrow> ro_direction r = d"
  by (auto simp: live_def elim!: queue_elem [OF book_ok_side])

lemma live_positive: "book_ok b \<Longrightarrow> live b d n r \<Longrightarrow> 0 < open_value r"
  by (auto simp: live_def elim!: queue_elem [OF book_ok_side])

lemma cancel_refines:
  assumes ok: "book_ok b" and lv: "live b d n r"
  obtains b' where "cancel (ro_key r) (handle_of n r) b =
      (b', Inr (snd (spec_cancel (ro_key r) d n (abs_book b))))"
    "abs_book b' = fst (spec_cancel (ro_key r) d n (abs_book b))" "book_ok b'"
proof -
  have d: "ro_direction r = d" using ok lv by (rule live_direction)
  obtain ls where ls: "remove_order (side_before d) (ro_key r) (make_handle d (ro_limit_price r) n)
      (side_levels d b) = (ls, Inr True)"
    "levels_ok d ls" "queue ls = remove_node n (queue (side_levels d b))"
    using book_ok_side [OF ok] lv unfolding live_def by (rule remove_order_correct)
  let ?b = "set_side_levels d ls b"
  have "spec_ok (abs_book ?b)"
    using ok ls(3) spec_ok_remove [of "abs_book b" d n] by (simp add: book_ok_def)
  with ls(2) ok have b': "book_ok ?b" by (simp add: book_ok_iff [of _ d])
  have "cancel (ro_key r) (handle_of n r) b = (?b, Inr \<lparr>cr_events = Order_cancelled (ro_key r) #
      top_change (ob_instrument b) d (top_of_book (side_levels d b)) (top_of_book (side_levels d ?b)),
      cr_cancelled = True\<rparr>)"
    using ls(1)
    by (cases d) (simp_all add: cancel_def handle_of_def d cancel_bid_def cancel_ask_def
      cancel_from_levels_eq append_change make_handle_def)
  moreover have "spec_cancel (ro_key r) d n (abs_book b) =
      (abs_book ?b, \<lparr>cr_events = Order_cancelled (ro_key r) # side_change d (abs_book b) (abs_book ?b),
        cr_cancelled = True\<rparr>)"
    by (simp add: spec_cancel_def ls(3) Let_def)
  ultimately show ?thesis
    by (intro that [of ?b]) (simp_all add: b' side_change_code [OF ok b'] del: abs_set_side)
qed

subsection \<open>Update\<close>

lemma update_sides:
  "h_direction handle = Some d \<Longrightarrow> update order handle sequence b =
     (case reduce_order_size (side_before d) order handle (side_levels d b) of
        (ls, Inl f) \<Rightarrow> (set_side_levels d ls b, Inl f)
      | (ls, Inr True) \<Rightarrow>
          (set_side_levels d ls b,
           Inr \<lparr>ur_events = Update_accepted (uo_key order) #
                  top_change (ob_instrument b) d (top_of_book (side_levels d b)) (top_of_book ls),
                ur_resting_order = handle, ur_filled_resting_orders = [], ur_updated = True\<rparr>)
      | (ls, Inr False) \<Rightarrow>
          replace_order order handle d (crosses d) sequence (set_side_levels d ls b))"
  by (cases d) (auto simp: update_def update_buy_def update_sell_def append_change can_cross_crosses
    split: prod.splits sum.splits bool.splits)

lemma replace_code:
  assumes d: "ro_direction r = d" and key: "uo_key order = ro_key r"
    and own: "remove_order (side_before d) (ro_key r) (make_handle d (ro_limit_price r) n) (side_levels d b) = (own, Inr True)"
    and m: "match_order (ob_instrument b) (uo_pricing order) (crosses d)
       \<lparr>sm_incoming = incoming_of d (uo_key order) (uo_size order) sequence,
        sm_levels = side_levels (opposite d) b, sm_events = [Update_accepted (uo_key order)], sm_filled = []\<rparr> =
     (\<lparr>sm_incoming = i, sm_levels = ls, sm_events = ev, sm_filled = fs\<rparr>, Inr ())"
    and rest: "rest_remainder (uo_pricing order) i (set_side_levels (opposite d) ls (set_side_levels d own b)) = (b', h)"
  shows "replace_order order (handle_of n r) d (crosses d) sequence b =
      (b', Inr \<lparr>ur_events = ev @
          top_change (ob_instrument b) d (top_of_book (side_levels d b)) (top_of_book (side_levels d b')) @
          top_change (ob_instrument b) (opposite d) (top_of_book (side_levels (opposite d) b))
            (top_of_book (side_levels (opposite d) b')),
        ur_resting_order = h, ur_filled_resting_orders = fs, ur_updated = True\<rparr>)"
  using own m rest
  by (auto simp: replace_order_def key handle_of_def d Let_def append_change incoming_of_def rest_remainder_def
        split: option.splits)

lemma replace_refines:
  assumes ok: "book_ok b" and lv: "live b d n r" and key: "uo_key order = ro_key r"
    and np: "\<not> keeps_priority order r"
  obtains b' where "replace_order order (handle_of n r) d (crosses d) sequence b =
      (b', Inr (snd (spec_update order d n r sequence (abs_book b))))"
    "abs_book b' = fst (spec_update order d n r sequence (abs_book b))" "book_ok b'"
proof -
  have d: "ro_direction r = d" using ok lv by (rule live_direction)
  obtain own where own: "remove_order (side_before d) (ro_key r) (make_handle d (ro_limit_price r) n)
      (side_levels d b) = (own, Inr True)"
    "levels_ok d own" "queue own = remove_node n (queue (side_levels d b))"
    using book_ok_side [OF ok] lv unfolding live_def by (rule remove_order_correct)
  define b0 where "b0 = set_side_levels d own b"
  have "spec_ok (abs_book b0)"
    using ok own(3) spec_ok_remove [of "abs_book b" d n] by (simp add: book_ok_def b0_def)
  with own(2) ok have ok0: "book_ok b0" by (simp add: book_ok_iff [of _ d] b0_def)
  have abs0: "abs_book b0 = set_spec_queue d (remove_node n (queue (side_levels d b))) (abs_book b)"
    by (simp add: b0_def own(3))
  obtain sb' h ts fs where ex: "spec_execute d (uo_key order) (uo_pricing order) (uo_size order) sequence (abs_book b0) =
      (sb', h, ts, fs)" by (metis surj_pair)
  obtain ls q b' where m: "match_order (ob_instrument b0) (uo_pricing order) (crosses d)
       \<lparr>sm_incoming = incoming_of d (uo_key order) (uo_size order) sequence, sm_levels = side_levels (opposite d) b0,
        sm_events = [Update_accepted (uo_key order)], sm_filled = []\<rparr> =
     (\<lparr>sm_incoming = with_size (incoming_of d (uo_key order) (uo_size order) sequence) q, sm_levels = ls,
       sm_events = [Update_accepted (uo_key order)] @ trade_events (uo_key order) (ob_instrument b0) ts, sm_filled = fs\<rparr>, Inr ())"
    and rest: "rest_remainder (uo_pricing order) (with_size (incoming_of d (uo_key order) (uo_size order) sequence) q)
      (set_side_levels (opposite d) ls b0) = (b', h)"
    and b': "book_ok b'" "abs_book b' = sb'" "side_levels (opposite d) b' = ls"
    by (rule execute_refines [OF ok0 ex, of "[Update_accepted (uo_key order)]"])
  have spec: "spec_update order d n r sequence (abs_book b) =
      (sb', \<lparr>ur_events = Update_accepted (uo_key order) #
               trade_events (uo_key order) (ob_instrument b) ts @
               side_change d (abs_book b) sb' @ side_change (opposite d) (abs_book b) sb',
             ur_resting_order = h, ur_filled_resting_orders = fs, ur_updated = True\<rparr>)"
    using ex np by (simp add: spec_update_def abs0)
  have code: "replace_order order (handle_of n r) d (crosses d) sequence b =
      (b', Inr (snd (spec_update order d n r sequence (abs_book b))))"
    using replace_code [OF d key own(1), where sequence = sequence] m rest b'(1)
    by (simp add: b0_def spec b'(2) [symmetric] side_change_code [OF ok b'(1)])
  show ?thesis by (rule that [OF code _ b'(1)]) (simp add: spec b'(2))
qed

lemma update_refines:
  assumes ok: "book_ok b" and lv: "live b d n r" and key: "uo_key order = ro_key r"
    and pos: "0 < quantity_value (uo_size order)"
  obtains b' where "update order (handle_of n r) sequence b =
      (b', Inr (snd (spec_update order d n r sequence (abs_book b))))"
    "abs_book b' = fst (spec_update order d n r sequence (abs_book b))" "book_ok b'"
proof (cases "keeps_priority order r")
  case True
  have d: "ro_direction r = d" using ok lv by (rule live_direction)
  obtain ls where ls: "reduce_order_size (side_before d) order (make_handle d (ro_limit_price r) n)
      (side_levels d b) = (ls, Inr True)"
    "levels_ok d ls" "queue ls = resize_node n (uo_size order) (queue (side_levels d b))"
    using book_ok_side [OF ok] lv True key pos unfolding live_def keeps_priority_def
    by (auto intro: reduce_order_size_True)
  let ?b = "set_side_levels d ls b"
  have "spec_ok (abs_book ?b)"
    using ok ls(3) spec_ok_resize [OF _ pos, of "abs_book b" d n] by (simp add: book_ok_def)
  with ls(2) ok have b': "book_ok ?b" by (simp add: book_ok_iff [of _ d])
  have dh: "h_direction (handle_of n r) = Some d" by (simp add: handle_of_def make_handle_def d)
  have code: "update order (handle_of n r) sequence b = (?b, Inr \<lparr>ur_events = Update_accepted (uo_key order) #
      top_change (ob_instrument b) d (top_of_book (side_levels d b)) (top_of_book (side_levels d ?b)),
      ur_resting_order = handle_of n r, ur_filled_resting_orders = [], ur_updated = True\<rparr>)"
    unfolding update_sides [OF dh] using ls(1) by (simp add: handle_of_def d)
  have spec: "spec_update order d n r sequence (abs_book b) = (abs_book ?b,
      \<lparr>ur_events = Update_accepted (uo_key order) # side_change d (abs_book b) (abs_book ?b),
       ur_resting_order = handle_of n r, ur_filled_resting_orders = [], ur_updated = True\<rparr>)"
    using True by (simp add: spec_update_def ls(3) Let_def handle_of_def d)
  show ?thesis
    by (rule that [OF _ _ b']) (simp_all add: code spec side_change_code [OF ok b'] del: abs_set_side)
next
  case False
  have d: "ro_direction r = d" using ok lv by (rule live_direction)
  have dh: "h_direction (handle_of n r) = Some d" by (simp add: handle_of_def make_handle_def d)
  have "reduce_order_size (side_before d) order (handle_of n r) (side_levels d b) = (side_levels d b, Inr False)"
    unfolding handle_of_def
    by (rule reduce_order_size_False [OF book_ok_side [OF ok] _ key])
       (use lv False in \<open>auto simp: live_def keeps_priority_def not_le\<close>)
  then have "update order (handle_of n r) sequence b = replace_order order (handle_of n r) d (crosses d) sequence b"
    by (simp add: update_sides [OF dh])
  with replace_refines [OF ok lv key False] that show ?thesis by metis
qed

end
