(* ===== verification/Engine.thy ===== *)
theory Engine
  imports Book_Refine
begin

text \<open>
  The matching engine (\<^verbatim>\<open>components/matching/engine/src/engine.cpp\<close>): the books by symbol, the index of
  active orders and the sequence counter, with validation, the three commands, snapshots and the
  bookkeeping after each. The \<^verbatim>\<open>std::unordered_map\<close>s are partial functions: the sources only look up,
  insert and erase. An operation returns the engine it leaves with the events or the fault.
\<close>

record active_order =
  ao_instrument :: symbol_id
  ao_handle :: resting_order_handle

record engine =
  en_books :: "symbol_id \<rightharpoonup> order_book"
  en_active_orders :: "order_key \<rightharpoonup> active_order"
  en_next_sequence :: sequence_number

definition initial_engine :: engine where
  "initial_engine = \<lparr>en_books = Map.empty, en_active_orders = Map.empty,
     en_next_sequence = Sequence_number 1\<rparr>"

subsection \<open>Validation and rejection\<close>

definition validate_submit :: "submit_order \<Rightarrow> string option" where
  "validate_submit order =
     (if user_value (ok_user (so_key order)) = 0 then Some ''user id must be non-zero''
      else if client_order_value (ok_client_order (so_key order)) = 0
        then Some ''client order id must be non-zero''
      else if symbol_value (so_instrument order) = 0 then Some ''symbol id must be non-zero''
      else if quantity_value (so_size order) = 0 then Some ''order size must be positive''
      else None)"

definition validate_update :: "update_order \<Rightarrow> string option" where
  "validate_update order =
     (if user_value (ok_user (uo_key order)) = 0 then Some ''user id must be non-zero''
      else if client_order_value (ok_client_order (uo_key order)) = 0
        then Some ''client order id must be non-zero''
      else if quantity_value (uo_size order) = 0 then Some ''order size must be positive''
      else case uo_pricing order of
          Limit_order _ \<Rightarrow> None
        | Market_order \<Rightarrow> Some ''update pricing must be limit'')"

definition reject_submit :: "order_key \<Rightarrow> string \<Rightarrow> event list" where
  "reject_submit key reason = [Submit_rejected key reason]"

definition reject_update :: "order_key \<Rightarrow> string \<Rightarrow> event list" where
  "reject_update key reason = [Update_rejected key reason]"

definition reject_cancel :: "order_key \<Rightarrow> string \<Rightarrow> event list" where
  "reject_cancel key reason = [Cancel_rejected key reason]"

subsection \<open>Books and bookkeeping\<close>

text \<open>\<^verbatim>\<open>try_emplace\<close>: the book of the symbol, made when it is not there yet.\<close>

definition get_or_create_book :: "symbol_id \<Rightarrow> engine \<Rightarrow> engine \<times> order_book" where
  "get_or_create_book instrument e =
     (case en_books e instrument of
        Some b \<Rightarrow> (e, b)
      | None \<Rightarrow> (e\<lparr>en_books := (en_books e)(instrument \<mapsto> make_order_book instrument)\<rparr>,
                 make_order_book instrument))"

definition find_book :: "symbol_id \<Rightarrow> engine \<Rightarrow> order_book option" where
  "find_book instrument e = en_books e instrument"

text \<open>Writing back the book that an operation mutated through its reference.\<close>

definition put_book :: "symbol_id \<Rightarrow> order_book \<Rightarrow> engine \<Rightarrow> engine" where
  "put_book instrument b e = e\<lparr>en_books := (en_books e)(instrument \<mapsto> b)\<rparr>"

definition erase_active :: "order_key \<Rightarrow> engine \<Rightarrow> engine" where
  "erase_active key e = e\<lparr>en_active_orders := (en_active_orders e)(key := None)\<rparr>"

fun erase_all_active :: "order_key list \<Rightarrow> engine \<Rightarrow> engine" where
  "erase_all_active [] e = e"
| "erase_all_active (key # keys) e = erase_all_active keys (erase_active key e)"

definition take_sequence :: "engine \<Rightarrow> sequence_number \<times> engine" where
  "take_sequence e =
     (case sequence_post_increment (en_next_sequence e) of
        (previous, next) \<Rightarrow> (previous, e\<lparr>en_next_sequence := next\<rparr>))"

text \<open>\<^verbatim>\<open>emplace\<close> leaves an existing entry alone.\<close>

definition record_submit_result :: "submit_order \<Rightarrow> submit_result \<Rightarrow> engine \<Rightarrow> engine" where
  "record_submit_result order result e =
     (let e1 = erase_all_active (sr_filled_resting_orders result) e
      in if has_value (sr_resting_order result) \<and> en_active_orders e1 (so_key order) = None
         then e1\<lparr>en_active_orders := (en_active_orders e1)(so_key order \<mapsto>
                \<lparr>ao_instrument = so_instrument order, ao_handle = sr_resting_order result\<rparr>)\<rparr>
         else e1)"

text \<open>
  The iterator \<open>active\<close> points at the entry of \<open>key\<close>; erasing that entry in the loop would leave it
  dangling.
\<close>

definition record_update_result :: "order_key \<Rightarrow> update_result \<Rightarrow> engine \<Rightarrow> engine \<times> unit outcome" where
  "record_update_result key result e =
     (let e1 = erase_all_active (ur_filled_resting_orders result) e
      in case en_active_orders e1 key of
           None \<Rightarrow> (e1, Inl (Undefined_behaviour ''use of an erased map iterator''))
         | Some active \<Rightarrow>
             if has_value (ur_resting_order result)
             then (e1\<lparr>en_active_orders := (en_active_orders e1)
                     (key \<mapsto> active\<lparr>ao_handle := ur_resting_order result\<rparr>)\<rparr>, Inr ())
             else (erase_active key e1, Inr ()))"

definition record_cancel_result :: "order_key \<Rightarrow> cancel_result \<Rightarrow> engine \<Rightarrow> engine" where
  "record_cancel_result key result e = (if cr_cancelled result then erase_active key e else e)"

subsection \<open>Commands\<close>

definition engine_submit :: "submit_order \<Rightarrow> engine \<Rightarrow> engine \<times> event list outcome" where
  "engine_submit order e =
     (case validate_submit order of
        Some reason \<Rightarrow> (e, Inr (reject_submit (so_key order) reason))
      | None \<Rightarrow>
          if en_active_orders e (so_key order) \<noteq> None
          then (e, Inr (reject_submit (so_key order) ''order key is already active''))
          else
            (case get_or_create_book (so_instrument order) e of
               (e1, b) \<Rightarrow>
                 (case take_sequence e1 of
                    (sequence, e2) \<Rightarrow>
                      (case submit order sequence b of
                         (b', Inl f) \<Rightarrow> (put_book (so_instrument order) b' e2, Inl f)
                       | (b', Inr result) \<Rightarrow>
                           (record_submit_result order result (put_book (so_instrument order) b' e2),
                            Inr (sr_events result))))))"

definition engine_update :: "update_order \<Rightarrow> engine \<Rightarrow> engine \<times> event list outcome" where
  "engine_update order e =
     (case validate_update order of
        Some reason \<Rightarrow> (e, Inr (reject_update (uo_key order) reason))
      | None \<Rightarrow>
          (case en_active_orders e (uo_key order) of
             None \<Rightarrow> (e, Inr (reject_update (uo_key order) ''order is not active''))
           | Some active \<Rightarrow>
               (case find_book (ao_instrument active) e of
                  None \<Rightarrow> (erase_active (uo_key order) e,
                           Inr (reject_update (uo_key order) ''order book is missing''))
                | Some b \<Rightarrow>
                    (case take_sequence e of
                       (sequence, e1) \<Rightarrow>
                         (case update order (ao_handle active) sequence b of
                            (b', Inl f) \<Rightarrow> (put_book (ao_instrument active) b' e1, Inl f)
                          | (b', Inr result) \<Rightarrow>
                              (let e2 = put_book (ao_instrument active) b' e1
                               in if \<not> ur_updated result
                                  then (erase_active (uo_key order) e2,
                                        Inr (reject_update (uo_key order) ''order book is inconsistent''))
                                  else (case record_update_result (uo_key order) result e2 of
                                          (e3, Inl f) \<Rightarrow> (e3, Inl f)
                                        | (e3, Inr _) \<Rightarrow> (e3, Inr (ur_events result)))))))))"

definition engine_cancel :: "cancel_order \<Rightarrow> engine \<Rightarrow> engine \<times> event list outcome" where
  "engine_cancel order e =
     (case en_active_orders e (co_key order) of
        None \<Rightarrow> (e, Inr (reject_cancel (co_key order) ''order is not active''))
      | Some active \<Rightarrow>
          (case find_book (ao_instrument active) e of
             None \<Rightarrow> (erase_active (co_key order) e,
                      Inr (reject_cancel (co_key order) ''order book is missing''))
           | Some b \<Rightarrow>
               (case cancel (co_key order) (ao_handle active) b of
                  (b', Inl f) \<Rightarrow> (put_book (ao_instrument active) b' e, Inl f)
                | (b', Inr result) \<Rightarrow>
                    (record_cancel_result (co_key order) result (put_book (ao_instrument active) b' e),
                     Inr (cr_events result)))))"

definition engine_snapshot :: "symbol_id \<Rightarrow> nat \<Rightarrow> engine \<Rightarrow> order_book_snapshot option" where
  "engine_snapshot instrument depth e =
     (case find_book instrument e of None \<Rightarrow> None | Some b \<Rightarrow> Some (snapshot b depth))"

subsection \<open>Command sequences\<close>

text \<open>
  The commands of \<^verbatim>\<open>commands.hpp\<close> and what one of them answers; \<open>engine_run\<close> executes a sequence in
  order, as the single worker thread does.
\<close>

datatype command =
    Submit_command submit_order
  | Cancel_command cancel_order
  | Update_command update_order
  | Snapshot_command symbol_id nat

datatype reply =
    Events "event list"
  | Snapshot "order_book_snapshot option"

fun engine_execute :: "command \<Rightarrow> engine \<Rightarrow> engine \<times> reply outcome" where
  "engine_execute (Submit_command order) e = map_prod id (map_sum id Events) (engine_submit order e)"
| "engine_execute (Cancel_command order) e = map_prod id (map_sum id Events) (engine_cancel order e)"
| "engine_execute (Update_command order) e = map_prod id (map_sum id Events) (engine_update order e)"
| "engine_execute (Snapshot_command instrument depth) e =
     (e, Inr (Snapshot (engine_snapshot instrument depth e)))"

fun engine_run :: "command list \<Rightarrow> engine \<Rightarrow> engine \<times> reply outcome list" where
  "engine_run [] e = (e, [])"
| "engine_run (c # cs) e =
     (case engine_execute c e of
        (e1, r) \<Rightarrow> (case engine_run cs e1 of (e2, rs) \<Rightarrow> (e2, r # rs)))"

end
