(* ===== verification/Engine_Correct.thy ===== *)
theory Engine_Correct
  imports Engine
begin

text \<open>
  The invariant of the engine and its preservation. \<open>engine_ok\<close> says that every book is well-formed
  and that the index of active orders is exactly the set of resting orders: the entry of a key holds
  the symbol and the live handle of the one order resting under that key. From it follow that no
  command dereferences a dangling iterator or throws, and that keys are unique over all books.
\<close>

definition bind :: "node \<times> resting_order \<Rightarrow> order_key \<times> resting_order_handle" where
  "bind e = (ro_key (snd e), handle_of (fst e) (snd e))"

definition binds :: "spec_book \<Rightarrow> (order_key \<times> resting_order_handle) set" where
  "binds sb = bind ` (set (sb_bids sb) \<union> set (sb_asks sb))"

definition book_binds :: "engine \<Rightarrow> symbol_id \<Rightarrow> (order_key \<times> resting_order_handle) set" where
  "book_binds e s = (case en_books e s of None \<Rightarrow> {} | Some b \<Rightarrow> binds (abs_book b))"

definition engine_ok :: "engine \<Rightarrow> bool" where
  "engine_ok e \<longleftrightarrow>
     (\<forall>s b. en_books e s = Some b \<longrightarrow> book_ok b \<and> ob_instrument b = s) \<and>
     (\<forall>s k h. en_active_orders e k = Some \<lparr>ao_instrument = s, ao_handle = h\<rparr> \<longleftrightarrow> (k, h) \<in> book_binds e s)"

lemma engine_okI:
  assumes "\<And>s b. en_books e s = Some b \<Longrightarrow> book_ok b \<and> ob_instrument b = s"
    and "\<And>s k h. en_active_orders e k = Some \<lparr>ao_instrument = s, ao_handle = h\<rparr> \<longleftrightarrow> (k, h) \<in> book_binds e s"
  shows "engine_ok e"
  using assms by (simp add: engine_ok_def)

lemma engine_ok_book: "engine_ok e \<Longrightarrow> en_books e s = Some b \<Longrightarrow> book_ok b"
  by (simp add: engine_ok_def)

lemma engine_ok_instrument: "engine_ok e \<Longrightarrow> en_books e s = Some b \<Longrightarrow> ob_instrument b = s"
  by (simp add: engine_ok_def)

lemma engine_ok_active:
  "engine_ok e \<Longrightarrow>
   en_active_orders e k = Some \<lparr>ao_instrument = s, ao_handle = h\<rparr> \<longleftrightarrow> (k, h) \<in> book_binds e s"
  by (simp add: engine_ok_def)

lemma initial_engine_ok: "engine_ok initial_engine"
  by (simp add: engine_ok_def initial_engine_def book_binds_def)

subsection \<open>Bindings of a book\<close>

lemma image_filter_iff:
  "(\<And>e. e \<in> A \<Longrightarrow> P e = Q (f e)) \<Longrightarrow> f ` {e \<in> A. P e} = {x \<in> f ` A. Q x}"
  by auto

lemma image_filter_all: "(\<And>e. e \<in> A \<Longrightarrow> Q (f e)) \<Longrightarrow> f ` A = {x \<in> f ` A. Q x}"
  by auto

lemma Collect_Un_distrib: "{x \<in> A. P x} \<union> {x \<in> B. P x} = {x \<in> A \<union> B. P x}"
  by auto

lemma binds_side: "binds sb = bind ` set (spec_queue d sb) \<union> bind ` set (spec_queue (opposite d) sb)"
  by (cases d) (auto simp: binds_def)

lemma bind_simps [simp]:
  "fst (bind e) = ro_key (snd e)"
  "bind (n, take_from_resting x r) = bind (n, r)"
  by (simp_all add: bind_def handle_of_def)

lemma handle_of_inj: "handle_of n r = handle_of m r' \<Longrightarrow> n = m"
  by (simp add: handle_of_def make_handle_def)

text \<open>Keys of a book are unique when no two bindings share a key.\<close>

definition keys_unique :: "spec_book \<Rightarrow> bool" where
  "keys_unique sb \<longleftrightarrow> (\<forall>x \<in> binds sb. \<forall>y \<in> binds sb. fst x = fst y \<longrightarrow> x = y)"

lemma keys_uniqueD:
  "keys_unique sb \<Longrightarrow> x \<in> binds sb \<Longrightarrow> y \<in> binds sb \<Longrightarrow> fst x = fst y \<Longrightarrow> x = y"
  by (simp add: keys_unique_def)

lemma engine_keys_unique: "engine_ok e \<Longrightarrow> en_books e s = Some b \<Longrightarrow> keys_unique (abs_book b)"
proof -
  assume ok: "engine_ok e" and b: "en_books e s = Some b"
  have "h = h'" if "(k, h) \<in> book_binds e s" "(k, h') \<in> book_binds e s" for k h h'
    using that unfolding engine_ok_active [OF ok, symmetric] by simp
  then show ?thesis using b by (auto simp: keys_unique_def book_binds_def)
qed

lemma distinct_binds:
  assumes "queue_ok d q" "bind ` set q \<subseteq> B" "\<forall>x \<in> B. \<forall>y \<in> B. fst x = fst y \<longrightarrow> x = y"
  shows "distinct (map fst (map bind q))"
proof -
  have "inj_on (\<lambda>e. ro_key (snd e)) (set q)"
  proof (rule inj_onI)
    fix x y assume xy: "x \<in> set q" "y \<in> set q" "ro_key (snd x) = ro_key (snd y)"
    then have "bind x = bind y" using assms(2,3) by (metis bind_simps(1) image_subset_iff)
    then have "fst x = fst y" by (auto simp: bind_def dest: handle_of_inj)
    with xy(1,2) assms(1) show "x = y"
      by (metis (no_types, lifting) queue_ok_def eq_key_imp_eq_value prod.collapse)
  qed
  moreover have "distinct q" using assms(1) by (simp add: queue_ok_def distinct_map)
  ultimately show ?thesis by (simp add: distinct_map comp_def)
qed

lemma consume_binds:
  assumes "consume cross x q = (x', ys, ts, fs)"
  shows "\<exists>k. map bind ys = drop k (map bind q) \<and> fs = take k (map fst (map bind q))"
  using assms
proof (rule consume_shape)
  fix k
  assume "fs = map (\<lambda>e. ro_key (snd e)) (take k q)" "ys = drop k q"
  then show ?thesis by (intro exI [of _ k]) (simp add: drop_map take_map comp_def)
next
  fix k n r x rest
  assume "drop k q = (n, r) # rest" "fs = map (\<lambda>e. ro_key (snd e)) (take k q)"
    "ys = (n, take_from_resting x r) # rest"
  moreover from this have "map bind (drop k q) = map bind ys" by simp
  ultimately show ?thesis by (intro exI [of _ k]) (simp add: drop_map take_map comp_def)
qed

lemma set_drop_distinct:
  assumes "distinct (map fst xs)"
  shows "set (drop k xs) = {x \<in> set xs. fst x \<notin> set (take k (map fst xs))}"
proof -
  have "distinct (map fst (take k xs) @ map fst (drop k xs))"
    using assms by (metis append_take_drop_id map_append)
  then have "fst ` set (take k xs) \<inter> fst ` set (drop k xs) = {}" by simp
  moreover have "set xs = set (take k xs) \<union> set (drop k xs)"
    by (metis append_take_drop_id set_append)
  ultimately show ?thesis by (auto simp: take_map)
qed

lemma spec_rest_binds:
  "spec_rest d key pricing sequence q sb = (sb', h) \<Longrightarrow>
   binds sb' = binds sb \<union> (if has_value h then {(key, h)} else {})"
proof -
  assume sr: "spec_rest d key pricing sequence q sb = (sb', h)"
  have [simp]: "\<not> has_value empty_handle" "has_value (make_handle d p n)" for p n
    by (simp_all add: has_value_def empty_handle_def make_handle_def)
  show ?thesis
  proof (cases "q = 0 \<or> limit_price pricing = None")
    case True
    with sr show ?thesis by (auto simp: spec_rest_def split: option.splits)
  next
    case False
    then obtain p where "limit_price pricing = Some p" "q \<noteq> 0" by auto
    moreover have "bind (sb_next sb, \<lparr>ro_key = key, ro_direction = d, ro_limit_price = p,
        ro_open_size = Quantity q, ro_sequence = sequence\<rparr>) = (key, make_handle d p (sb_next sb))"
      by (simp add: bind_def handle_of_def)
    ultimately show ?thesis using sr by (auto simp: spec_rest_def binds_side [of _ d])
  qed
qed

lemma spec_execute_binds:
  assumes ex: "spec_execute d key pricing qty sequence sb = (sb', h, ts, fs)"
    and ok: "spec_ok sb" and uniq: "keys_unique sb"
  shows "binds sb' = {x \<in> binds sb. fst x \<notin> set fs} \<union> (if has_value h then {(key, h)} else {})"
    "set fs \<subseteq> fst ` binds sb"
proof -
  obtain q ys where c: "consume (crosses d pricing) (quantity_value qty) (spec_queue (opposite d) sb) = (q, ys, ts, fs)"
    and sr: "spec_rest d key pricing sequence q (set_spec_queue (opposite d) ys sb) = (sb', h)"
    using ex by (auto simp: spec_execute_def split: prod.splits)
  let ?o = "spec_queue (opposite d) sb" and ?w = "spec_queue d sb"
  obtain k where k: "map bind ys = drop k (map bind ?o)" "fs = take k (map fst (map bind ?o))"
    using consume_binds [OF c] by blast
  have B: "binds sb = bind ` set ?w \<union> bind ` set ?o" by (rule binds_side)
  have "queue_ok (opposite d) ?o" using ok by (simp add: spec_ok_iff [of sb d])
  then have dist: "distinct (map fst (map bind ?o))"
    by (rule distinct_binds [where B = "binds sb", OF _ _ uniq [unfolded keys_unique_def]])
       (unfold B, rule Un_upper2)
  have ys: "bind ` set ys = {x \<in> bind ` set ?o. fst x \<notin> set fs}"
    using set_drop_distinct [OF dist, of k] unfolding k [symmetric] set_map .
  have fs: "set fs \<subseteq> fst ` bind ` set ?o"
    unfolding k(2) by (metis set_map set_take_subset)
  have disj: "bind ` set ?w \<inter> bind ` set ?o = {}"
  proof -
    have "fst ` set ?w \<inter> fst ` set ?o = {}" using ok by (simp add: spec_ok_iff [of sb d])
    then show ?thesis by (force simp: bind_def dest: handle_of_inj)
  qed
  have "fst x \<notin> set fs" if x: "x \<in> bind ` set ?w" for x
  proof
    assume "fst x \<in> set fs"
    with fs have "fst x \<in> fst ` (bind ` set ?o)" by (rule subsetD)
    then obtain y where "y \<in> bind ` set ?o" "fst y = fst x" by (rule imageE) simp
    then have "y = x" using x by (intro keys_uniqueD [OF uniq]) (simp_all only: B UnI1 UnI2)
    with x \<open>y \<in> bind ` set ?o\<close> disj show False by blast
  qed
  then have "binds (set_spec_queue (opposite d) ys sb) = {x \<in> binds sb. fst x \<notin> set fs}"
    unfolding B binds_side [of _ d] using ys by auto
  then show "binds sb' = {x \<in> binds sb. fst x \<notin> set fs} \<union> (if has_value h then {(key, h)} else {})"
    using spec_rest_binds [OF sr] by simp
  show "set fs \<subseteq> fst ` binds sb" unfolding B image_Un using fs by (rule le_supI2)
qed

lemma live_bind: "live b d n r \<Longrightarrow> bind (n, r) \<in> binds (abs_book b)"
  by (auto simp: live_def binds_side [of _ d])

lemma bind_live:
  assumes "(k, h) \<in> binds (abs_book b)"
  obtains d n r where "live b d n r" "ro_key r = k" "h = handle_of n r"
  using assms by (auto simp: binds_side [of _ Buy] bind_def live_def intro: that [of Buy] that [of Sell])

lemma remove_binds:
  assumes ok: "book_ok b" and lv: "live b d n r" and uniq: "keys_unique (abs_book b)"
  shows "binds (set_spec_queue d (remove_node n (queue (side_levels d b))) (abs_book b)) =
    {x \<in> binds (abs_book b). fst x \<noteq> ro_key r}"
proof -
  let ?w = "queue (side_levels d b)" and ?o = "queue (side_levels (opposite d) b)"
  have B: "binds (abs_book b) = bind ` set ?w \<union> bind ` set ?o" by (simp add: binds_side [of _ d])
  have nr: "(n, r) \<in> set ?w" using lv by (simp add: live_def)
  have so: "spec_ok (abs_book b)" using ok by (simp add: book_ok_def)
  have key: "fst e = n" if "e \<in> set ?w \<union> set ?o" "ro_key (snd e) = ro_key r" for e
  proof -
    have "bind e \<in> binds (abs_book b)" "bind (n, r) \<in> binds (abs_book b)"
      using that(1) nr unfolding B by blast+
    then have "bind e = bind (n, r)" using that(2) by (intro keys_uniqueD [OF uniq]) simp_all
    then show ?thesis by (auto simp: bind_def dest: handle_of_inj)
  qed
  have dist: "distinct (map fst ?w)" and disj: "fst ` set ?w \<inter> fst ` set ?o = {}"
    using so by (simp_all add: spec_ok_iff [of _ d] queue_ok_def)
  have node: "e = (n, r)" if "e \<in> set ?w" "fst e = n" for e
    using eq_key_imp_eq_value [OF dist nr, of "snd e"] that by (cases e) simp
  have n: "n \<in> fst ` set ?w" using nr by (rule image_eqI [rotated]) simp
  have other: "fst e \<noteq> n" if "e \<in> set ?o" for e
    using disj n imageI [OF that, of fst] by blast
  have iff: "(fst e \<noteq> n) = (fst (bind e) \<noteq> ro_key r)" if "e \<in> set ?w" for e
  proof -
    have "ro_key (snd e) = ro_key r" if "fst e = n" using node [OF \<open>e \<in> set ?w\<close> that] by simp
    moreover have "fst e = n" if "ro_key (snd e) = ro_key r"
      using key [OF UnI1 [OF \<open>e \<in> set ?w\<close>] that] .
    ultimately show ?thesis unfolding bind_simps by iprover
  qed
  have "bind ` {e \<in> set ?w. fst e \<noteq> n} = {x \<in> bind ` set ?w. fst x \<noteq> ro_key r}"
    by (rule image_filter_iff) (rule iff)
  moreover have "fst (bind e) \<noteq> ro_key r" if "e \<in> set ?o" for e
    using key [OF UnI2 [OF that]] other [OF that] unfolding bind_simps by iprover
  then have "bind ` set ?o = {x \<in> bind ` set ?o. fst x \<noteq> ro_key r}" by (rule image_filter_all)
  ultimately have "bind ` {e \<in> set ?w. fst e \<noteq> n} \<union> bind ` set ?o =
      {x \<in> bind ` set ?w. fst x \<noteq> ro_key r} \<union> {x \<in> bind ` set ?o. fst x \<noteq> ro_key r}"
    by (rule arg_cong2 [where f = "(\<union>)"])
  also note Collect_Un_distrib
  finally show ?thesis unfolding B by (simp only: binds_side [of _ d] remove_node_def spec_queue_simps abs_book_simps set_filter)
qed

lemma resize_binds:
  "binds (set_spec_queue d (resize_node n s (spec_queue d sb)) sb) = binds sb"
proof -
  have "bind ` set (resize_node n s q) = bind ` set q" for q
    by (force simp: resize_node_def bind_def handle_of_def)
  then show ?thesis by (simp add: binds_side [of _ d])
qed

end
