(* ===== verification/Engine_Spec.thy ===== *)
theory Engine_Spec
  imports Engine_Correct
begin

text \<open>
  The abstract engine: one abstract book for each symbol and a sequence counter, with no levels, no
  handles and no index of active orders. A key is active when an order rests under it somewhere.
  \<open>spec_step\<close> relates a command, the reply and the next state, as the matching rules of the project
  describe them.
\<close>

record spec_engine =
  se_books :: "symbol_id \<rightharpoonup> spec_book"
  se_next_sequence :: sequence_number

definition initial_spec_engine :: spec_engine where
  "initial_spec_engine = \<lparr>se_books = Map.empty, se_next_sequence = Sequence_number 1\<rparr>"

definition empty_spec_book :: "symbol_id \<Rightarrow> spec_book" where
  "empty_spec_book s = \<lparr>sb_instrument = s, sb_bids = [], sb_asks = [], sb_next = 0\<rparr>"

definition resting_in :: "spec_engine \<Rightarrow> symbol_id \<Rightarrow> side \<Rightarrow> node \<Rightarrow> resting_order \<Rightarrow> bool" where
  "resting_in se s d n r \<longleftrightarrow> (\<exists>sb. se_books se s = Some sb \<and> (n, r) \<in> set (spec_queue d sb))"

definition key_active :: "spec_engine \<Rightarrow> order_key \<Rightarrow> bool" where
  "key_active se k \<longleftrightarrow> (\<exists>s d n r. resting_in se s d n r \<and> ro_key r = k)"

definition bump :: "sequence_number \<Rightarrow> sequence_number" where
  "bump s = Sequence_number (sequence_value s + 1)"

definition set_book :: "symbol_id \<Rightarrow> spec_book \<Rightarrow> spec_engine \<Rightarrow> spec_engine" where
  "set_book s sb se = se\<lparr>se_books := (se_books se)(s \<mapsto> sb)\<rparr>"

definition bump_engine :: "spec_engine \<Rightarrow> spec_engine" where
  "bump_engine se = se\<lparr>se_next_sequence := bump (se_next_sequence se)\<rparr>"

text \<open>The levels of a queue: runs of equal prices with their total, best price first.\<close>

function ladder :: "order_queue \<Rightarrow> price_level_snapshot list" where
  "ladder [] = []"
| "ladder (e # q) =
     \<lparr>pls_level_price = ro_limit_price (snd e),
      pls_total_size = open_value (snd e) +
        total_open (takeWhile (\<lambda>x. ro_limit_price (snd x) = ro_limit_price (snd e)) q)\<rparr> #
     ladder (dropWhile (\<lambda>x. ro_limit_price (snd x) = ro_limit_price (snd e)) q)"
  by pat_completeness auto
termination
  by (relation "measure length") (auto simp: less_Suc_eq_le length_dropWhile_le)

definition spec_snapshot :: "spec_book \<Rightarrow> nat \<Rightarrow> order_book_snapshot" where
  "spec_snapshot sb depth = \<lparr>obs_instrument = sb_instrument sb,
     obs_bids = take depth (ladder (sb_bids sb)), obs_asks = take depth (ladder (sb_asks sb))\<rparr>"

inductive spec_step :: "spec_engine \<Rightarrow> command \<Rightarrow> reply \<Rightarrow> spec_engine \<Rightarrow> bool" where
  submit_invalid:
    "validate_submit order = Some reason \<Longrightarrow>
     spec_step se (Submit_command order) (Events [Submit_rejected (so_key order) reason]) se"
| submit_active:
    "validate_submit order = None \<Longrightarrow> key_active se (so_key order) \<Longrightarrow>
     spec_step se (Submit_command order)
       (Events [Submit_rejected (so_key order) ''order key is already active'']) se"
| submit_done:
    "validate_submit order = None \<Longrightarrow> \<not> key_active se (so_key order) \<Longrightarrow>
     sb = (case se_books se (so_instrument order) of Some sb \<Rightarrow> sb | None \<Rightarrow> empty_spec_book (so_instrument order)) \<Longrightarrow>
     spec_submit order (se_next_sequence se) sb = (sb', result) \<Longrightarrow>
     spec_step se (Submit_command order) (Events (sr_events result))
       (bump_engine (set_book (so_instrument order) sb' se))"
| update_invalid:
    "validate_update order = Some reason \<Longrightarrow>
     spec_step se (Update_command order) (Events [Update_rejected (uo_key order) reason]) se"
| update_inactive:
    "validate_update order = None \<Longrightarrow> \<not> key_active se (uo_key order) \<Longrightarrow>
     spec_step se (Update_command order) (Events [Update_rejected (uo_key order) ''order is not active'']) se"
| update_done:
    "validate_update order = None \<Longrightarrow> resting_in se s d n r \<Longrightarrow> ro_key r = uo_key order \<Longrightarrow>
     se_books se s = Some sb \<Longrightarrow>
     spec_update order d n r (se_next_sequence se) sb = (sb', result) \<Longrightarrow>
     spec_step se (Update_command order) (Events (ur_events result)) (bump_engine (set_book s sb' se))"
| cancel_inactive:
    "\<not> key_active se (co_key order) \<Longrightarrow>
     spec_step se (Cancel_command order) (Events [Cancel_rejected (co_key order) ''order is not active'']) se"
| cancel_done:
    "resting_in se s d n r \<Longrightarrow> ro_key r = co_key order \<Longrightarrow> se_books se s = Some sb \<Longrightarrow>
     spec_cancel (co_key order) d n sb = (sb', result) \<Longrightarrow>
     spec_step se (Cancel_command order) (Events (cr_events result)) (set_book s sb' se)"
| snapshot_taken:
    "spec_step se (Snapshot_command s depth)
       (Snapshot (map_option (\<lambda>sb. spec_snapshot sb depth) (se_books se s))) se"

inductive_cases spec_submitE: "spec_step se (Submit_command order) reply se'"
inductive_cases spec_updateE: "spec_step se (Update_command order) reply se'"
inductive_cases spec_cancelE: "spec_step se (Cancel_command order) reply se'"
inductive_cases spec_snapshotE: "spec_step se (Snapshot_command s depth) reply se'"

inductive spec_run :: "spec_engine \<Rightarrow> command list \<Rightarrow> reply list \<Rightarrow> spec_engine \<Rightarrow> bool" where
  run_nil: "spec_run se [] [] se"
| run_cons: "spec_step se c r se1 \<Longrightarrow> spec_run se1 cs rs se2 \<Longrightarrow> spec_run se (c # cs) (r # rs) se2"

inductive_simps spec_run_Nil [simp]: "spec_run se [] rs se'"
inductive_simps spec_run_Cons: "spec_run se (c # cs) rs se'"

definition abs_engine :: "engine \<Rightarrow> spec_engine" where
  "abs_engine e = \<lparr>se_books = map_option abs_book \<circ> en_books e, se_next_sequence = en_next_sequence e\<rparr>"

lemma abs_engine_simps [simp]:
  "se_books (abs_engine e) s = map_option abs_book (en_books e s)"
  "se_next_sequence (abs_engine e) = en_next_sequence e"
  by (simp_all add: abs_engine_def)

lemma abs_initial_engine: "abs_engine initial_engine = initial_spec_engine"
  by (simp add: abs_engine_def initial_engine_def initial_spec_engine_def fun_eq_iff)

lemma abs_make_order_book: "abs_book (make_order_book s) = empty_spec_book s"
  by (simp add: abs_book_def make_order_book_def empty_spec_book_def)

lemma resting_in_live: "resting_in (abs_engine e) s d n r \<longleftrightarrow> (\<exists>b. en_books e s = Some b \<and> live b d n r)"
  by (auto simp: resting_in_def live_def)

subsection \<open>The ladder of a queue is the level map\<close>

lemma total_open_same_price:
  assumes "level_ok d p l" "levels_ok d ms" "\<forall>k \<in> fst ` set ms. side_before d p k"
  shows "takeWhile (\<lambda>x. ro_limit_price (snd x) = p) (pl_orders l @ queue ms) = pl_orders l"
    "dropWhile (\<lambda>x. ro_limit_price (snd x) = p) (pl_orders l @ queue ms) = queue ms"
proof -
  have same: "\<And>y. y \<in> set (pl_orders l) \<Longrightarrow> ro_limit_price (snd y) = p" using assms(1) by (simp add: level_ok_def)
  have "\<forall>y \<in> set (queue ms). side_before d p (ro_limit_price (snd y))"
    using assms(2,3) by (rule queue_all_prices)
  then have other: "\<And>y. y \<in> set (queue ms) \<Longrightarrow> ro_limit_price (snd y) \<noteq> p"
    using book_order.lt_irrefl by metis
  show "takeWhile (\<lambda>x. ro_limit_price (snd x) = p) (pl_orders l @ queue ms) = pl_orders l"
    by (simp add: takeWhile_append_all [where xs = "pl_orders l"] same takeWhile_none other)
  show "dropWhile (\<lambda>x. ro_limit_price (snd x) = p) (pl_orders l @ queue ms) = queue ms"
    by (simp add: dropWhile_append_all [where xs = "pl_orders l"] same dropWhile_none other)
qed

lemma ladder_queue:
  "levels_ok d ls \<Longrightarrow>
   ladder (queue ls) = map (\<lambda>(p, l). \<lparr>pls_level_price = p, pls_total_size = pl_total_size l\<rparr>) ls"
proof (induction ls)
  case Nil
  show ?case by (simp)
next
  case (Cons x ms)
  obtain p l where x: "x = (p, l)" by fastforce
  from Cons.prems have lo: "level_ok d p l" and ms: "levels_ok d ms" "\<forall>k \<in> fst ` set ms. side_before d p k"
    by (simp_all add: x levels_ok_Cons)
  obtain e os where os: "pl_orders l = e # os" using lo by (cases "pl_orders l") (auto simp: level_ok_def)
  have e: "ro_limit_price (snd e) = p" and tot: "pl_total_size l = open_value (snd e) + total_open os"
    using lo by (simp_all add: level_ok_def os)
  show ?case
    using total_open_same_price [OF lo ms] Cons.IH [OF ms(1)] by (simp add: x os e tot)
qed

lemma snapshot_refines: "book_ok b \<Longrightarrow> snapshot b depth = spec_snapshot (abs_book b) depth"
  using ladder_queue [OF book_ok_side, of b Buy] ladder_queue [OF book_ok_side, of b Sell]
  by (simp add: snapshot_def spec_snapshot_def snapshot_levels_eq abs_book_def take_map)

end
