(* ===== verification/Engine_Refine.thy ===== *)
theory Engine_Refine
  imports Engine_Spec
begin

text \<open>
  The engine of the code simulates the abstract engine: from a state that satisfies \<open>engine_ok\<close>
  every command returns normally, answers what \<open>spec_step\<close> allows, and keeps \<open>engine_ok\<close>. The
  branches for a missing or inconsistent book are therefore unreachable.
\<close>

lemma erase_all_active_simps [simp]:
  "en_books (erase_all_active ks e) = en_books e"
  "en_next_sequence (erase_all_active ks e) = en_next_sequence e"
  "en_active_orders (erase_all_active ks e) k = (if k \<in> set ks then None else en_active_orders e k)"
  by (induction ks e rule: erase_all_active.induct) (simp_all add: erase_active_def)

lemma book_binds_other: "en_books e' s = en_books e s \<Longrightarrow> book_binds e' s = book_binds e s"
  by (simp add: book_binds_def)

lemma abs_engine_eqI:
  "en_books e' = (en_books e)(s \<mapsto> b) \<Longrightarrow> abs_book b = sb \<Longrightarrow>
   en_next_sequence e' = en_next_sequence e \<Longrightarrow> abs_engine e' = set_book s sb (abs_engine e)"
  by (simp add: abs_engine_def set_book_def fun_eq_iff)

text \<open>
  The bookkeeping after an operation on the book of \<open>s\<close>: the keys \<open>R\<close> left the book, and \<open>key\<close> may
  have been rested anew with handle \<open>h\<close>.
\<close>

lemma engine_ok_step:
  assumes ok: "engine_ok e"
    and books: "en_books e' = (en_books e)(s \<mapsto> b')" and b': "book_ok b'" "ob_instrument b' = s"
    and binds': "binds (abs_book b') =
      {x \<in> book_binds e s. fst x \<notin> R} \<union> (if has_value h then {(key, h)} else {})"
    and R: "R \<subseteq> fst ` book_binds e s"
    and fresh: "has_value h \<Longrightarrow> key \<in> R \<or> en_active_orders e key = None"
    and act: "\<And>k. en_active_orders e' k =
      (if has_value h \<and> k = key then Some \<lparr>ao_instrument = s, ao_handle = h\<rparr>
       else if k \<in> R then None else en_active_orders e k)"
  shows "engine_ok e'"
proof (rule engine_okI)
  fix s' b assume "en_books e' s' = Some b"
  then show "book_ok b \<and> ob_instrument b = s'"
    using b' engine_ok_book [OF ok] engine_ok_instrument [OF ok] by (auto simp: books split: if_splits)
next
  fix s' k h'
  have owner: "\<exists>h0. en_active_orders e k = Some \<lparr>ao_instrument = s, ao_handle = h0\<rparr>" if "k \<in> R" for k
    using subsetD [OF R that] by (auto simp: engine_ok_active [OF ok])
  show "en_active_orders e' k = Some \<lparr>ao_instrument = s', ao_handle = h'\<rparr> \<longleftrightarrow> (k, h') \<in> book_binds e' s'"
  proof (cases "s' = s")
    case True
    have "book_binds e' s = binds (abs_book b')" by (simp add: book_binds_def books)
    moreover have "has_value h \<Longrightarrow> (key, h') \<in> book_binds e s \<Longrightarrow> key \<in> R"
      using fresh by (auto simp: engine_ok_active [OF ok, symmetric])
    ultimately show ?thesis
      using engine_ok_active [OF ok, of k s h'] by (auto simp: True binds' act)
  next
    case False
    have "book_binds e' s' = book_binds e s'" using False by (intro book_binds_other) (simp add: books)
    moreover have "k \<notin> R" if "en_active_orders e k = Some \<lparr>ao_instrument = s', ao_handle = h'\<rparr>"
      using owner [of k] that False by auto
    moreover have "\<not> (has_value h \<and> k = key)" if "en_active_orders e k = Some \<lparr>ao_instrument = s', ao_handle = h'\<rparr>"
      using fresh owner [of key] that False by auto
    ultimately show ?thesis
      using engine_ok_active [OF ok, of k s' h'] False by (auto simp: act)
  qed
qed

lemma engine_ok_sequence:
  "engine_ok (e\<lparr>en_next_sequence := q\<rparr>) = engine_ok e"
  by (simp add: engine_ok_def book_binds_def)

lemma key_active_iff:
  assumes "engine_ok e"
  shows "key_active (abs_engine e) k \<longleftrightarrow> en_active_orders e k \<noteq> None"
proof
  assume "key_active (abs_engine e) k"
  then obtain s d n r b where "en_books e s = Some b" "live b d n r" "ro_key r = k"
    by (auto simp: key_active_def resting_in_live)
  then have "(k, handle_of n r) \<in> book_binds e s"
    using live_bind [of b d n r] by (simp add: book_binds_def bind_def)
  then show "en_active_orders e k \<noteq> None" by (simp add: engine_ok_active [OF assms, symmetric])
next
  assume "en_active_orders e k \<noteq> None"
  then obtain s h where "en_active_orders e k = Some \<lparr>ao_instrument = s, ao_handle = h\<rparr>"
    by (metis active_order.cases option.exhaust_sel)
  then have "(k, h) \<in> book_binds e s" by (simp add: engine_ok_active [OF assms])
  then obtain b where "en_books e s = Some b" "(k, h) \<in> binds (abs_book b)"
    by (auto simp: book_binds_def split: option.splits)
  then show "key_active (abs_engine e) k"
    unfolding key_active_def resting_in_live by (metis bind_live)
qed

text \<open>What the index entry of an active key points at.\<close>

lemma active_live:
  assumes "engine_ok e" "en_active_orders e k = Some a"
  obtains b d n r where "en_books e (ao_instrument a) = Some b" "live b d n r" "ro_key r = k"
    "ao_handle a = handle_of n r" "book_ok b"
proof -
  have "en_active_orders e k = Some \<lparr>ao_instrument = ao_instrument a, ao_handle = ao_handle a\<rparr>"
    using assms(2) by simp
  then have "(k, ao_handle a) \<in> book_binds e (ao_instrument a)"
    by (simp only: engine_ok_active [OF assms(1)])
  then obtain b where b: "en_books e (ao_instrument a) = Some b" "(k, ao_handle a) \<in> binds (abs_book b)"
    by (auto simp: book_binds_def split: option.splits)
  from b(2) show ?thesis by (rule bind_live) (metis that b(1) engine_ok_book [OF assms(1)])
qed

subsection \<open>Cancel\<close>

lemma has_value_simps [simp]:
  "\<not> has_value empty_handle" "has_value (make_handle d p n)" "has_value (handle_of n r)"
  by (simp_all add: has_value_def empty_handle_def make_handle_def handle_of_def)

lemma engine_cancel_sim:
  assumes ok: "engine_ok e"
  obtains e' evs where "engine_cancel order e = (e', Inr evs)" "engine_ok e'"
    "spec_step (abs_engine e) (Cancel_command order) (Events evs) (abs_engine e')"
proof (cases "en_active_orders e (co_key order)")
  case None
  then have "\<not> key_active (abs_engine e) (co_key order)" by (simp add: key_active_iff [OF ok])
  from cancel_inactive [OF this] show ?thesis
    by (rule that [rotated 2]) (simp_all add: engine_cancel_def None reject_cancel_def ok)
next
  case (Some a)
  let ?s = "ao_instrument a"
  obtain b d n r where b: "en_books e ?s = Some b" "live b d n r" "ro_key r = co_key order"
    "ao_handle a = handle_of n r" "book_ok b" using active_live [OF ok Some] .
  obtain b' where b': "cancel (co_key order) (handle_of n r) b = (b', Inr (snd (spec_cancel (co_key order) d n (abs_book b))))"
    "abs_book b' = fst (spec_cancel (co_key order) d n (abs_book b))" "book_ok b'"
    using cancel_refines [OF b(5,2)] unfolding b(3) .
  let ?e' = "erase_active (co_key order) (put_book ?s b' e)"
  have binds': "binds (abs_book b') = {x \<in> binds (abs_book b). fst x \<noteq> co_key order}"
    using remove_binds [OF b(5,2) engine_keys_unique [OF ok b(1)]] b(3) b'(2) by (simp add: spec_cancel_def Let_def)
  have key: "co_key order \<in> fst ` binds (abs_book b)"
    using live_bind [OF b(2)] b(3) by (force simp: image_iff)
  have inst: "ob_instrument b' = ?s"
    using arg_cong [OF b'(2), of sb_instrument] engine_ok_instrument [OF ok b(1)]
    by (simp add: spec_cancel_def Let_def)
  have ok': "engine_ok ?e'"
    by (rule engine_ok_step [OF ok _ b'(3) inst, where R = "{co_key order}" and h = empty_handle])
       (use binds' key in \<open>simp_all add: book_binds_def b(1) erase_active_def put_book_def\<close>)
  have abs: "abs_engine ?e' = set_book ?s (abs_book b') (abs_engine e)"
    by (rule abs_engine_eqI) (simp_all add: erase_active_def put_book_def)
  have cr: "cr_cancelled (snd (spec_cancel k d n sb))" for k sb by (simp add: spec_cancel_def Let_def)
  show ?thesis
  proof (rule that [OF _ ok'])
    show "engine_cancel order e = (?e', Inr (cr_events (snd (spec_cancel (co_key order) d n (abs_book b)))))"
      using b b' cr by (simp add: engine_cancel_def Some find_book_def record_cancel_result_def)
    show "spec_step (abs_engine e) (Cancel_command order)
        (Events (cr_events (snd (spec_cancel (co_key order) d n (abs_book b))))) (abs_engine ?e')"
      unfolding abs by (rule cancel_done [where d = d and n = n and r = r and sb = "abs_book b"])
        (use b b' in \<open>auto simp: resting_in_live prod_eq_iff\<close>)
  qed
qed

subsection \<open>Submit\<close>

lemma get_or_create_book_ok:
  assumes ok: "engine_ok e" and g: "get_or_create_book s e = (e1, b)"
  shows "book_ok b" "ob_instrument b = s" "en_books e1 = (en_books e)(s \<mapsto> b)"
    "binds (abs_book b) = book_binds e s"
    "en_active_orders e1 = en_active_orders e" "en_next_sequence e1 = en_next_sequence e"
    "abs_book b = (case se_books (abs_engine e) s of Some sb \<Rightarrow> sb | None \<Rightarrow> empty_spec_book s)"
proof -
  have "book_ok b \<and> ob_instrument b = s \<and> en_books e1 = (en_books e)(s \<mapsto> b) \<and>
    binds (abs_book b) = book_binds e s \<and>
    en_active_orders e1 = en_active_orders e \<and> en_next_sequence e1 = en_next_sequence e \<and>
    abs_book b = (case se_books (abs_engine e) s of Some sb \<Rightarrow> sb | None \<Rightarrow> empty_spec_book s)"
  proof (cases "en_books e s")
    case None
    with g show ?thesis
      by (auto simp: get_or_create_book_def make_order_book_ok book_binds_def abs_make_order_book)
        (simp_all add: make_order_book_def empty_spec_book_def binds_def)
  next
    case (Some b0)
    with g show ?thesis
      using engine_ok_book [OF ok Some] engine_ok_instrument [OF ok Some]
      by (auto simp: get_or_create_book_def book_binds_def)
  qed
  then show "book_ok b" "ob_instrument b = s" "en_books e1 = (en_books e)(s \<mapsto> b)"
    "binds (abs_book b) = book_binds e s"
    "en_active_orders e1 = en_active_orders e" "en_next_sequence e1 = en_next_sequence e"
    "abs_book b = (case se_books (abs_engine e) s of Some sb \<Rightarrow> sb | None \<Rightarrow> empty_spec_book s)"
    by blast+
qed

lemma spec_execute_instrument:
  "spec_execute d key pricing qty q sb = (sb', h, ts, fs) \<Longrightarrow> sb_instrument sb' = sb_instrument sb"
  by (auto simp: spec_execute_def spec_rest_def split: prod.splits option.splits if_splits)

lemma abs_bump:
  "en_books e' = (en_books e)(s \<mapsto> b) \<Longrightarrow> abs_book b = sb \<Longrightarrow>
   en_next_sequence e' = bump (en_next_sequence e) \<Longrightarrow>
   abs_engine e' = bump_engine (set_book s sb (abs_engine e))"
  by (simp add: abs_engine_def set_book_def bump_engine_def fun_eq_iff)

lemma take_sequence_simps:
  "take_sequence e = (en_next_sequence e, e\<lparr>en_next_sequence := bump (en_next_sequence e)\<rparr>)"
  by (simp add: take_sequence_def sequence_post_increment_def bump_def)

lemma engine_submit_new:
  assumes ok: "engine_ok e" and val: "validate_submit order = None" and free: "en_active_orders e (so_key order) = None"
  obtains e' evs where "engine_submit order e = (e', Inr evs)" "engine_ok e'"
    "spec_step (abs_engine e) (Submit_command order) (Events evs) (abs_engine e')"
proof -
  let ?s = "so_instrument order" and ?k = "so_key order"
  obtain e1 b where g: "get_or_create_book ?s e = (e1, b)" by fastforce
  note b = get_or_create_book_ok [OF ok g]
  obtain sb' h ts fs where x: "spec_execute (so_direction order) ?k (so_pricing order) (so_size order)
      (en_next_sequence e) (abs_book b) = (sb', h, ts, fs)" by (metis prod_cases4)
  let ?res = "snd (spec_submit order (en_next_sequence e) (abs_book b))"
  have spec: "fst (spec_submit order (en_next_sequence e) (abs_book b)) = sb'"
    "sr_resting_order ?res = h" "sr_filled_resting_orders ?res = fs"
    by (simp_all add: spec_submit_def x)
  obtain b' where b': "submit order (en_next_sequence e) b = (b', Inr ?res)" "abs_book b' = sb'" "book_ok b'"
    using submit_refines [OF b(1), of order "en_next_sequence e"] unfolding spec(1) .
  let ?e2 = "put_book ?s b' (e1\<lparr>en_next_sequence := bump (en_next_sequence e1)\<rparr>)"
  let ?e' = "record_submit_result order ?res ?e2"
  have "keys_unique (abs_book b)"
    using b(4) by (auto simp: keys_unique_def engine_ok_active [OF ok, symmetric])
  then have binds': "binds (abs_book b') = {x \<in> book_binds e ?s. fst x \<notin> set fs} \<union>
      (if has_value h then {(?k, h)} else {})" and fs: "set fs \<subseteq> fst ` book_binds e ?s"
    using spec_execute_binds [OF x] b(1) unfolding b'(2) b(4) book_ok_def by blast+
  have inst: "ob_instrument b' = ?s"
    using arg_cong [OF b'(2), of sb_instrument] x b(2) by (simp add: spec_execute_instrument)
  have act: "en_active_orders ?e' k = (if has_value h \<and> k = ?k then Some \<lparr>ao_instrument = ?s, ao_handle = h\<rparr>
     else if k \<in> set fs then None else en_active_orders e k)" for k
    using free by (simp add: record_submit_result_def spec Let_def put_book_def b(5))
  have fields: "en_books ?e' = (en_books e)(?s \<mapsto> b')" "en_next_sequence ?e' = bump (en_next_sequence e)"
    by (simp_all add: record_submit_result_def Let_def put_book_def b(3,6))
  have ok': "engine_ok ?e'"
    by (rule engine_ok_step [OF ok fields(1) b'(3) inst binds' fs]) (simp_all add: free act)
  show ?thesis
  proof (rule that [OF _ ok'])
    show "engine_submit order e = (?e', Inr (sr_events ?res))"
      using val free by (simp add: engine_submit_def g take_sequence_simps b'(1) b(6))
    have "spec_submit order (se_next_sequence (abs_engine e)) (abs_book b) = (sb', ?res)"
      by (simp add: prod_eq_iff spec)
    from submit_done [OF val _ b(7) this] free
    show "spec_step (abs_engine e) (Submit_command order) (Events (sr_events ?res)) (abs_engine ?e')"
      by (simp add: key_active_iff [OF ok] abs_bump [OF fields(1) b'(2) fields(2)])
  qed
qed

lemma engine_submit_sim:
  assumes ok: "engine_ok e"
  obtains e' evs where "engine_submit order e = (e', Inr evs)" "engine_ok e'"
    "spec_step (abs_engine e) (Submit_command order) (Events evs) (abs_engine e')"
proof -
  consider (invalid) reason where "validate_submit order = Some reason"
    | (active) "validate_submit order = None" "en_active_orders e (so_key order) \<noteq> None"
    | (new) "validate_submit order = None" "en_active_orders e (so_key order) = None"
    by blast
  then show ?thesis
  proof cases
    case invalid
    from submit_invalid [OF this] show ?thesis
      by (rule that [rotated 2]) (simp_all add: engine_submit_def invalid reject_submit_def ok)
  next
    case active
    with submit_active [of order "abs_engine e"] show ?thesis
      by (intro that [of e]) (simp_all add: engine_submit_def reject_submit_def ok key_active_iff)
  next
    case new
    with engine_submit_new [OF ok] that show ?thesis by metis
  qed
qed

subsection \<open>Update\<close>

lemma live_binding:
  assumes "en_books e s = Some b" "live b d n r"
  shows "(ro_key r, handle_of n r) \<in> book_binds e s"
  using live_bind [OF assms(2)] assms(1) by (simp add: book_binds_def bind_def)

text \<open>What the update of a live order does to the bindings of its book.\<close>

lemma update_bindings:
  assumes ok: "engine_ok e" and b: "en_books e s = Some b" and lv: "live b d n r"
    and key: "uo_key order = ro_key r"
    and up: "spec_update order d n r q (abs_book b) = (sb', res)"
  obtains fs where
    "binds sb' = {x \<in> book_binds e s. fst x \<notin> insert (ro_key r) (set fs)} \<union>
       (if has_value (ur_resting_order res) then {(ro_key r, ur_resting_order res)} else {})"
    "set fs \<subseteq> fst ` book_binds e s" "ro_key r \<notin> set fs" "ur_filled_resting_orders res = fs"
    "ur_updated res" "sb_instrument sb' = ob_instrument b"
proof -
  have B: "book_binds e s = binds (abs_book b)" by (simp add: book_binds_def b)
  have bok: "book_ok b" using engine_ok_book [OF ok b] .
  have uniq: "keys_unique (abs_book b)" using engine_keys_unique [OF ok b] .
  have mem: "(ro_key r, handle_of n r) \<in> binds (abs_book b)" using live_binding [OF b lv] by (simp add: B)
  show ?thesis
  proof (cases "keeps_priority order r")
    case True
    have d: "make_handle d (ro_limit_price r) n = handle_of n r"
      by (simp add: handle_of_def live_direction [OF bok lv])
    from True up have sb': "sb' = set_spec_queue d (resize_node n (uo_size order) (spec_queue d (abs_book b))) (abs_book b)"
      and res: "ur_resting_order res = handle_of n r" "ur_filled_resting_orders res = []" "ur_updated res"
      by (auto simp: spec_update_def Let_def d)
    have "x \<in> binds (abs_book b) \<longleftrightarrow> x \<in> {x \<in> binds (abs_book b). fst x \<noteq> ro_key r} \<union> {(ro_key r, handle_of n r)}" for x
      using keys_uniqueD [OF uniq _ mem, of x] mem by (cases x) auto
    then have "binds sb' = {x \<in> binds (abs_book b). fst x \<noteq> ro_key r} \<union> {(ro_key r, handle_of n r)}"
      unfolding sb' resize_binds by blast
    with res show ?thesis by (intro that [of "[]"]) (simp_all add: B sb')
  next
    case False
    let ?sb = "set_spec_queue d (remove_node n (queue (side_levels d b))) (abs_book b)"
    obtain h ts fs where x: "spec_execute d (uo_key order) (uo_pricing order) (uo_size order) q ?sb = (sb', h, ts, fs)"
      and res: "ur_resting_order res = h" "ur_filled_resting_orders res = fs" "ur_updated res"
      using False up by (auto simp: spec_update_def split: prod.splits)
    have rem: "binds ?sb = {x \<in> binds (abs_book b). fst x \<noteq> ro_key r}" using remove_binds [OF bok lv uniq] .
    have "spec_ok ?sb" using spec_ok_remove [of "abs_book b" d n] bok by (simp add: book_ok_def)
    moreover have "keys_unique ?sb" using uniq by (simp add: keys_unique_def rem)
    ultimately have 1: "binds sb' = {x \<in> binds ?sb. fst x \<notin> set fs} \<union> (if has_value h then {(uo_key order, h)} else {})"
      "set fs \<subseteq> fst ` binds ?sb"
      using spec_execute_binds [OF x] by blast+
    have "sb_instrument sb' = ob_instrument b" using x by (simp add: spec_execute_instrument)
    with 1 res show ?thesis by (intro that [of fs]) (auto simp: B rem key)
  qed
qed

lemma engine_update_found:
  assumes ok: "engine_ok e" and val: "validate_update order = None" and act0: "en_active_orders e (uo_key order) = Some a"
  obtains e' evs where "engine_update order e = (e', Inr evs)" "engine_ok e'"
    "spec_step (abs_engine e) (Update_command order) (Events evs) (abs_engine e')"
proof -
  let ?s = "ao_instrument a" and ?k = "uo_key order" and ?q = "en_next_sequence e"
  obtain b d n r where b: "en_books e ?s = Some b" "live b d n r" "ro_key r = ?k"
    "ao_handle a = handle_of n r" "book_ok b" using active_live [OF ok act0] .
  obtain sb' res where up: "spec_update order d n r ?q (abs_book b) = (sb', res)" by fastforce
  have "0 < quantity_value (uo_size order)"
    using val by (auto simp: validate_update_def word_neq_0_conv split: if_splits)
  from update_refines [OF b(5,2) b(3) [symmetric] this, of ?q]
  obtain b' where b': "update order (handle_of n r) ?q b = (b', Inr res)" "abs_book b' = sb'" "book_ok b'"
    unfolding up fst_conv snd_conv .
  obtain fs where fs: "binds sb' = {x \<in> book_binds e ?s. fst x \<notin> insert ?k (set fs)} \<union>
        (if has_value (ur_resting_order res) then {(?k, ur_resting_order res)} else {})"
      "set fs \<subseteq> fst ` book_binds e ?s" "?k \<notin> set fs" "ur_filled_resting_orders res = fs"
      "ur_updated res" "sb_instrument sb' = ob_instrument b"
    using update_bindings [OF ok b(1,2) b(3) [symmetric] up] unfolding b(3) .
  let ?e2 = "put_book ?s b' (e\<lparr>en_next_sequence := bump ?q\<rparr>)"
  define e' where "e' = fst (record_update_result ?k res ?e2)"
  note record_def = record_update_result_def fs(4) Let_def put_book_def erase_active_def
  have e': "record_update_result ?k res ?e2 = (e', Inr ())"
    and fields: "en_books e' = (en_books e)(?s \<mapsto> b')" "en_next_sequence e' = bump ?q"
    using act0 fs(3) by (simp_all add: e'_def record_def)
  have act: "en_active_orders e' k = (if has_value (ur_resting_order res) \<and> k = ?k
          then Some \<lparr>ao_instrument = ?s, ao_handle = ur_resting_order res\<rparr>
        else if k \<in> insert ?k (set fs) then None else en_active_orders e k)" for k
    using act0 fs(3) by (cases a) (simp add: e'_def record_def)
  have inst: "ob_instrument b' = ?s"
    using arg_cong [OF b'(2), of sb_instrument] fs(6) engine_ok_instrument [OF ok b(1)] by simp
  have sub: "insert ?k (set fs) \<subseteq> fst ` book_binds e ?s"
    using live_binding [OF b(1,2)] fs(2) unfolding b(3) by (auto intro: image_eqI [rotated])
  have ok': "engine_ok e'"
    by (rule engine_ok_step [OF ok fields(1) b'(3) inst fs(1) [folded b'(2)] sub]) (simp_all add: act)
  show ?thesis
  proof (rule that [OF _ ok'])
    show "engine_update order e = (e', Inr (ur_events res))"
      using val act0 b(1) by (simp add: engine_update_def find_book_def take_sequence_simps b(4) b'(1) Let_def fs(5) e')
    from update_done [OF val, of "abs_engine e" ?s d n r "abs_book b" sb' res]
    show "spec_step (abs_engine e) (Update_command order) (Events (ur_events res)) (abs_engine e')"
      using b(1,2,3) up by (simp add: resting_in_live abs_bump [OF fields(1) b'(2) fields(2)])
  qed
qed

lemma engine_update_sim:
  assumes ok: "engine_ok e"
  obtains e' evs where "engine_update order e = (e', Inr evs)" "engine_ok e'"
    "spec_step (abs_engine e) (Update_command order) (Events evs) (abs_engine e')"
proof -
  consider (invalid) reason where "validate_update order = Some reason"
    | (inactive) "validate_update order = None" "en_active_orders e (uo_key order) = None"
    | (found) a where "validate_update order = None" "en_active_orders e (uo_key order) = Some a"
    by blast
  then show ?thesis
  proof cases
    case invalid
    from update_invalid [OF this] show ?thesis
      by (rule that [rotated 2]) (simp_all add: engine_update_def invalid reject_update_def ok)
  next
    case inactive
    with update_inactive [of order "abs_engine e"] show ?thesis
      by (intro that [of e]) (simp_all add: engine_update_def reject_update_def ok key_active_iff)
  next
    case found
    with engine_update_found [OF ok] that show ?thesis by metis
  qed
qed

subsection \<open>Whole runs\<close>

lemma engine_execute_sim:
  assumes "engine_ok e"
  obtains e' r where "engine_execute c e = (e', Inr r)" "engine_ok e'"
    "spec_step (abs_engine e) c r (abs_engine e')"
proof (cases c)
  case (Submit_command order)
  from engine_submit_sim [OF assms, of order] that show ?thesis by (metis Submit_command engine_execute.simps(1) id_apply map_prod_simp map_sum.simps(2))
next
  case (Cancel_command order)
  from engine_cancel_sim [OF assms, of order] that show ?thesis by (metis Cancel_command engine_execute.simps(2) id_apply map_prod_simp map_sum.simps(2))
next
  case (Update_command order)
  from engine_update_sim [OF assms, of order] that show ?thesis by (metis Update_command engine_execute.simps(3) id_apply map_prod_simp map_sum.simps(2))
next
  case (Snapshot_command s depth)
  have eq: "engine_snapshot s depth e =
      map_option (\<lambda>sb. spec_snapshot sb depth) (se_books (abs_engine e) s)"
    using engine_ok_book [OF assms, of s]
    by (cases "en_books e s") (simp_all add: engine_snapshot_def find_book_def snapshot_refines)
  from snapshot_taken [of "abs_engine e" s depth] assms show ?thesis
    by (intro that [of e]) (simp_all add: Snapshot_command eq)
qed

lemma engine_run_sim:
  assumes "engine_ok e" "engine_run cs e = (e', rs)"
  shows "engine_ok e' \<and> (\<exists>replies. rs = map Inr replies \<and> spec_run (abs_engine e) cs replies (abs_engine e'))"
  using assms
proof (induction cs arbitrary: e e' rs)
  case Nil
  then show ?case by simp
next
  case (Cons c cs)
  obtain e1 r where 1: "engine_execute c e = (e1, Inr r)" "engine_ok e1"
    "spec_step (abs_engine e) c r (abs_engine e1)" using engine_execute_sim [OF Cons.prems(1)] .
  with Cons.prems(2) obtain rs' where 2: "engine_run cs e1 = (e', rs')" "rs = Inr r # rs'"
    by (auto split: prod.splits)
  from Cons.IH [OF 1(2) 2(1)] obtain replies where "engine_ok e'" "rs' = map Inr replies"
    "spec_run (abs_engine e1) cs replies (abs_engine e')" by blast
  with 1(3) 2(2) show ?case by (metis list.simps(9) run_cons)
qed

lemma engine_run_ok: "engine_ok (fst (engine_run cs initial_engine))"
  using engine_run_sim [OF initial_engine_ok] by (metis prod.collapse)

end
