(* ===== verification/Engine_Facts.thy ===== *)
theory Engine_Facts
  imports Engine_Refine
begin

text \<open>
  Facts about the abstract engine that the properties of the matching engine rest on: what a step
  executes and conserves, the ordering of each queue by price and then by sequence number, and what
  a reader of the \<^verbatim>\<open>book_updated\<close> events sees.
\<close>

definition reachable_engine :: "command list \<Rightarrow> engine" where
  "reachable_engine cs = fst (engine_run cs initial_engine)"

definition book_of :: "engine \<Rightarrow> symbol_id \<Rightarrow> order_book" where
  "book_of e s = (case en_books e s of Some b \<Rightarrow> b | None \<Rightarrow> make_order_book s)"

definition side_queue :: "engine \<Rightarrow> symbol_id \<Rightarrow> side \<Rightarrow> order_queue" where
  "side_queue e s d = queue (side_levels d (book_of e s))"

lemma reachable_ok: "engine_ok (reachable_engine cs)"
  by (simp add: reachable_engine_def engine_run_ok)

lemma book_of_ok: "engine_ok e \<Longrightarrow> book_ok (book_of e s)"
  by (auto simp: book_of_def make_order_book_ok split: option.splits dest: engine_ok_book)

lemma book_of_instrument: "engine_ok e \<Longrightarrow> ob_instrument (book_of e s) = s"
  by (auto simp: book_of_def split: option.splits dest: engine_ok_instrument)
     (simp add: make_order_book_def)

definition spec_book_of :: "spec_engine \<Rightarrow> symbol_id \<Rightarrow> spec_book" where
  "spec_book_of se s = (case se_books se s of Some sb \<Rightarrow> sb | None \<Rightarrow> empty_spec_book s)"

lemma spec_book_of_abs: "spec_book_of (abs_engine e) s = abs_book (book_of e s)"
  by (simp add: spec_book_of_def book_of_def abs_make_order_book split: option.splits)

lemma book_case:
  "(case en_books e s of None \<Rightarrow> empty_spec_book s | Some x \<Rightarrow> ((\<lambda>sb. sb) \<circ> abs_book) x) = abs_book (book_of e s)"
  by (simp add: book_of_def abs_make_order_book split: option.splits)

lemma side_queue_spec: "side_queue e s d = spec_queue d (spec_book_of (abs_engine e) s)"
  by (simp add: side_queue_def spec_book_of_abs)

lemma spec_book_of_set [simp]:
  "spec_book_of (set_book s sb se) s' = (if s' = s then sb else spec_book_of se s')"
  "spec_book_of (bump_engine se) s' = spec_book_of se s'"
  "se_next_sequence (set_book s sb se) = se_next_sequence se"
  "se_next_sequence (bump_engine se) = bump (se_next_sequence se)"
  by (simp_all add: spec_book_of_def set_book_def bump_engine_def)

lemma resting_in_book: "resting_in se s d n r \<Longrightarrow> (n, r) \<in> set (spec_queue d (spec_book_of se s))"
  by (auto simp: resting_in_def spec_book_of_def)

text \<open>Every command is one of: a rejection or snapshot that changes nothing, or an operation on one book.\<close>

lemma engine_submit_spec:
  assumes ok: "engine_ok e" and val: "validate_submit order = None"
    and free: "en_active_orders e (so_key order) = None"
    and run: "engine_submit order e = (e', Inr evs)"
  shows "engine_ok e'" "evs = sr_events (snd (spec_submit order (en_next_sequence e) (abs_book (book_of e (so_instrument order)))))"
    "abs_engine e' = bump_engine (set_book (so_instrument order)
       (fst (spec_submit order (en_next_sequence e) (abs_book (book_of e (so_instrument order))))) (abs_engine e))"
proof -
  obtain e1 evs1 where 1: "engine_submit order e = (e1, Inr evs1)" "engine_ok e1"
    "spec_step (abs_engine e) (Submit_command order) (Events evs1) (abs_engine e1)"
    using engine_submit_sim [OF ok] .
  have na: "\<not> key_active (abs_engine e) (so_key order)" by (simp add: key_active_iff [OF ok] free)
  from 1(3) have "evs1 = sr_events (snd (spec_submit order (en_next_sequence e) (abs_book (book_of e (so_instrument order))))) \<and>
      abs_engine e1 = bump_engine (set_book (so_instrument order)
       (fst (spec_submit order (en_next_sequence e) (abs_book (book_of e (so_instrument order))))) (abs_engine e))"
    by (rule spec_submitE) (use val na in \<open>auto simp: book_case\<close>)
  with 1(1,2) run show "engine_ok e'" "evs = sr_events (snd (spec_submit order (en_next_sequence e) (abs_book (book_of e (so_instrument order)))))"
    "abs_engine e' = bump_engine (set_book (so_instrument order)
       (fst (spec_submit order (en_next_sequence e) (abs_book (book_of e (so_instrument order))))) (abs_engine e))"
    by auto
qed

lemma engine_update_spec:
  assumes ok: "engine_ok e" and val: "validate_update order = None"
    and act: "en_active_orders e (uo_key order) = Some a"
    and run: "engine_update order e = (e', Inr evs)"
  obtains d n r where "en_books e (ao_instrument a) \<noteq> None"
    "(n, r) \<in> set (side_queue e (ao_instrument a) d)" "ro_key r = uo_key order"
    "evs = ur_events (snd (spec_update order d n r (en_next_sequence e) (abs_book (book_of e (ao_instrument a)))))"
    "abs_engine e' = bump_engine (set_book (ao_instrument a)
       (fst (spec_update order d n r (en_next_sequence e) (abs_book (book_of e (ao_instrument a))))) (abs_engine e))"
proof -
  obtain e1 evs1 where 1: "engine_update order e = (e1, Inr evs1)" "engine_ok e1"
    "spec_step (abs_engine e) (Update_command order) (Events evs1) (abs_engine e1)"
    using engine_update_sim [OF ok] .
  have ka: "key_active (abs_engine e) (uo_key order)" by (simp add: key_active_iff [OF ok] act)
  from 1 run have eq: "e1 = e'" "evs1 = evs" by auto
  have same: "s = ao_instrument a" if a: "resting_in (abs_engine e) s d n r" "ro_key r = uo_key order" for s d n r
  proof -
    obtain b where "en_books e s = Some b" "live b d n r" using a(1) by (auto simp: resting_in_live)
    from live_binding [OF this] a(2) act show ?thesis
      by (simp add: engine_ok_active [OF ok, symmetric])
  qed
  from 1(3) show ?thesis
  proof (rule spec_updateE)
    fix s d n r sb sb' result
    assume a: "resting_in (abs_engine e) s d n r" "ro_key r = uo_key order" "se_books (abs_engine e) s = Some sb"
      "spec_update order d n r (se_next_sequence (abs_engine e)) sb = (sb', result)"
      "Events evs1 = Events (ur_events result)" "abs_engine e1 = bump_engine (set_book s sb' (abs_engine e))"
    have s: "s = ao_instrument a" using same [OF a(1,2)] .
    have sb: "sb = abs_book (book_of e s)" using a(3) by (auto simp: book_of_def)
    show ?thesis
      by (rule that [of n r d]) (use a resting_in_book [OF a(1)] in \<open>auto simp: s [symmetric] sb [symmetric] eq side_queue_spec\<close>)
  qed (use val ka in auto)
qed

lemma engine_cancel_spec:
  assumes ok: "engine_ok e" and act: "en_active_orders e (co_key order) = Some a"
    and run: "engine_cancel order e = (e', Inr evs)"
  obtains d n r where "en_books e (ao_instrument a) \<noteq> None"
    "(n, r) \<in> set (side_queue e (ao_instrument a) d)" "ro_key r = co_key order"
    "evs = cr_events (snd (spec_cancel (co_key order) d n (abs_book (book_of e (ao_instrument a)))))"
    "abs_engine e' = set_book (ao_instrument a)
       (fst (spec_cancel (co_key order) d n (abs_book (book_of e (ao_instrument a))))) (abs_engine e)"
proof -
  obtain e1 evs1 where 1: "engine_cancel order e = (e1, Inr evs1)" "engine_ok e1"
    "spec_step (abs_engine e) (Cancel_command order) (Events evs1) (abs_engine e1)"
    using engine_cancel_sim [OF ok] .
  have ka: "key_active (abs_engine e) (co_key order)" by (simp add: key_active_iff [OF ok] act)
  from 1 run have eq: "e1 = e'" "evs1 = evs" by auto
  from 1(3) show ?thesis
  proof (rule spec_cancelE)
    fix s d n r sb sb' result
    assume a: "resting_in (abs_engine e) s d n r" "ro_key r = co_key order" "se_books (abs_engine e) s = Some sb"
      "spec_cancel (co_key order) d n sb = (sb', result)"
      "Events evs1 = Events (cr_events result)" "abs_engine e1 = set_book s sb' (abs_engine e)"
    obtain b where "en_books e s = Some b" "live b d n r" using a(1) by (auto simp: resting_in_live)
    from live_binding [OF this] a(2) act have s: "s = ao_instrument a"
      by (simp add: engine_ok_active [OF ok, symmetric])
    have sb: "sb = abs_book (book_of e s)" using a(3) by (auto simp: book_of_def)
    show ?thesis
      by (rule that [of n r d]) (use a resting_in_book [OF a(1)] in \<open>auto simp: s [symmetric] sb [symmetric] eq side_queue_spec\<close>)
  qed (use ka in auto)
qed

subsection \<open>Quantities\<close>

definition executed :: "event list \<Rightarrow> nat" where
  "executed evs = (\<Sum>ev \<leftarrow> evs. case ev of Trade_executed _ _ _ _ q \<Rightarrow> unat (quantity_value q) | _ \<Rightarrow> 0)"

definition open_sum :: "order_queue \<Rightarrow> nat" where
  "open_sum q = (\<Sum>e \<leftarrow> q. unat (open_value (snd e)))"

lemma executed_simps [simp]:
  "executed [] = 0" "executed (evs @ evs') = executed evs + executed evs'"
  "executed (Submit_accepted k # evs) = executed evs" "executed (Update_accepted k # evs) = executed evs"
  "executed (Order_cancelled k # evs) = executed evs"
  "executed (top_change i d before after) = 0"
  "executed (side_change d sb sb') = 0"
  by (simp_all add: executed_def top_change_def side_change_def)

lemma open_sum_simps [simp]:
  "open_sum [] = 0" "open_sum (e # q) = unat (open_value (snd e)) + open_sum q"
  "open_sum (p @ q) = open_sum p + open_sum q"
  by (simp_all add: open_sum_def)

lemma unat_total_open: "unat (total_open q) = open_sum q mod 2 ^ 64"
  by (induction q) (simp_all add: unat_word_ariths mod_simps)

lemma executed_trades: "executed (trade_events k i ts) = (\<Sum>(r, x) \<leftarrow> ts. unat x)"
  by (induction ts) (auto simp: executed_def trade_events_def)

lemma consume_open_sum:
  "consume cross q xs = (q', ys, ts, fs) \<Longrightarrow> (\<Sum>(r, x) \<leftarrow> ts. unat x) + open_sum ys = open_sum xs"
proof (induction cross q xs arbitrary: q' ys ts fs rule: consume.induct)
  case (2 cross q n r xs)
  then show ?case
    by (auto split: if_splits prod.splits simp: unat_sub word_less_nat_alt word_le_nat_alt)
qed simp

text \<open>A fill is of an order of the queue, for at most what it had open.\<close>

lemma consume_trades:
  assumes "consume cross q xs = (q', ys, ts, fs)" "\<forall>z \<in> set xs. 0 < open_value (snd z)"
    and "(r, y) \<in> set ts"
  shows "0 < y \<and> y \<le> open_value r \<and> (\<exists>n. (n, r) \<in> set xs)"
  using assms(1)
proof (rule consume_shape)
  fix k assume "ts = map (\<lambda>e. (snd e, open_value (snd e))) (take k xs)"
  with assms(2,3) show ?thesis by (force dest: in_set_takeD)
next
  fix k n r' x rest
  assume a: "drop k xs = (n, r') # rest" "0 < x" "x < open_value r'"
    "ts = map (\<lambda>e. (snd e, open_value (snd e))) (take k xs) @ [(r', x)]"
  have "(n, r') \<in> set xs" using a(1) in_set_dropD [of "(n, r')" k xs] by simp
  with a assms(2,3) show ?thesis by (force dest: in_set_takeD)
qed

lemma open_sum_enqueue [simp]: "open_sum (enqueue lt e q) = unat (open_value (snd e)) + open_sum q"
proof -
  define P where "P = (\<lambda>x :: nat \<times> resting_order. \<not> lt (ro_limit_price (snd e)) (ro_limit_price (snd x)))"
  have "open_sum (takeWhile P q) + open_sum (dropWhile P q) = open_sum q"
    by (simp only: open_sum_simps(3) [symmetric] takeWhile_dropWhile_id)
  then show ?thesis by (simp add: enqueue_def Let_def P_def [symmetric])
qed

lemma spec_execute_conserves:
  assumes "spec_execute d key pricing qty sq sb = (sb', h, ts, fs)"
  shows "(\<Sum>(r, x) \<leftarrow> ts. unat x) + open_sum (spec_queue (opposite d) sb') = open_sum (spec_queue (opposite d) sb)"
    "(\<Sum>(r, x) \<leftarrow> ts. unat x) \<le> unat (quantity_value qty)"
    "open_sum (spec_queue d sb') = open_sum (spec_queue d sb) +
       (if limit_price pricing = None then 0 else unat (quantity_value qty) - (\<Sum>(r, x) \<leftarrow> ts. unat x))"
proof -
  obtain q ys where c: "consume (crosses d pricing) (quantity_value qty) (spec_queue (opposite d) sb) = (q, ys, ts, fs)"
    and sr: "spec_rest d key pricing sq q (set_spec_queue (opposite d) ys sb) = (sb', h)"
    using assms by (auto simp: spec_execute_def split: prod.splits)
  have le: "unat q \<le> unat (quantity_value qty)" using consume_le [OF c] by (simp add: word_le_nat_alt)
  show "(\<Sum>(r, x) \<leftarrow> ts. unat x) + open_sum (spec_queue (opposite d) sb') = open_sum (spec_queue (opposite d) sb)"
    using consume_open_sum [OF c] sr by (cases "limit_price pricing"; cases "q = 0") (auto simp: spec_rest_def)
  show "(\<Sum>(r, x) \<leftarrow> ts. unat x) \<le> unat (quantity_value qty)" using consume_executed [OF c] by simp
  show "open_sum (spec_queue d sb') = open_sum (spec_queue d sb) +
       (if limit_price pricing = None then 0 else unat (quantity_value qty) - (\<Sum>(r, x) \<leftarrow> ts. unat x))"
    using consume_executed [OF c] sr le by (cases "limit_price pricing"; cases "q = 0") (auto simp: spec_rest_def)
qed

subsection \<open>Time priority by sequence number\<close>

text \<open>At one price the orders stand in the order of their sequence numbers, all below \<open>bound\<close>.\<close>

definition time_ordered :: "nat \<Rightarrow> order_queue \<Rightarrow> bool" where
  "time_ordered bound q \<longleftrightarrow>
     sorted_wrt (\<lambda>a b. ro_limit_price (snd a) = ro_limit_price (snd b) \<longrightarrow>
       sequence_value (ro_sequence (snd a)) < sequence_value (ro_sequence (snd b))) q \<and>
     (\<forall>e \<in> set q. unat (sequence_value (ro_sequence (snd e))) < bound)"

lemma time_ordered_Nil [simp]: "time_ordered m []"
  by (simp add: time_ordered_def)

lemma time_ordered_mono: "time_ordered m q \<Longrightarrow> m \<le> n \<Longrightarrow> time_ordered n q"
  unfolding time_ordered_def by (meson order_less_le_trans)

lemma time_ordered_drop: "time_ordered m q \<Longrightarrow> time_ordered m (drop k q)"
  unfolding time_ordered_def by (auto simp: sorted_wrt_drop dest: in_set_dropD)

lemma time_ordered_remove: "time_ordered m q \<Longrightarrow> time_ordered m (remove_node n q)"
  unfolding time_ordered_def remove_node_def by (auto simp: sorted_wrt_filter)

lemma time_ordered_resize: "time_ordered m q \<Longrightarrow> time_ordered m (resize_node n s q)"
proof -
  have "ro_sequence (if c then r\<lparr>ro_open_size := s\<rparr> else r) = ro_sequence r"
    "ro_limit_price (if c then r\<lparr>ro_open_size := s\<rparr> else r) = ro_limit_price r" for c and r :: resting_order
    by simp_all
  note [simp] = this
  show "time_ordered m q \<Longrightarrow> time_ordered m (resize_node n s q)"
    unfolding time_ordered_def resize_node_def by (simp add: sorted_wrt_map split_beta del: if_split)
qed

lemma time_ordered_consume:
  assumes "time_ordered m q" "consume cross x q = (x', ys, ts, fs)"
  shows "time_ordered m ys"
  using assms(2)
proof (rule consume_shape)
  fix k assume "ys = drop k q"
  with assms(1) show ?thesis by (simp add: time_ordered_drop)
next
  fix k n r x rest
  assume a: "drop k q = (n, r) # rest" "ys = (n, take_from_resting x r) # rest"
  have "time_ordered m ((n, r) # rest)" using time_ordered_drop [OF assms(1), of k] a(1) by simp
  then show ?thesis by (simp add: a(2) time_ordered_def)
qed

lemma time_ordered_enqueue:
  assumes q: "time_ordered m q" "queue_ok d q"
    and e: "unat (sequence_value (ro_sequence (snd e))) = m"
  shows "time_ordered (Suc m) (enqueue (side_before d) e q)"
proof -
  define ahead where "ahead = (\<lambda>x :: node \<times> resting_order.
    \<not> side_before d (ro_limit_price (snd e)) (ro_limit_price (snd x)))"
  define P where "P = (\<lambda>(a :: node \<times> resting_order) (b :: node \<times> resting_order). ro_limit_price (snd a) = ro_limit_price (snd b) \<longrightarrow>
       sequence_value (ro_sequence (snd a)) < sequence_value (ro_sequence (snd b)))"
  have eq: "enqueue (side_before d) e q = takeWhile ahead q @ e # dropWhile ahead q"
    by (simp add: enqueue_def ahead_def Let_def)
  have s: "sorted_wrt P (takeWhile ahead q @ dropWhile ahead q)"
    using q(1) by (simp add: time_ordered_def P_def)
  have bound: "\<forall>x \<in> set q. unat (sequence_value (ro_sequence (snd x))) < m"
    using q(1) by (simp add: time_ordered_def)
  have 1: "\<forall>x \<in> set (takeWhile ahead q). P x e"
    using bound e by (auto simp: P_def word_less_nat_alt dest: set_takeWhileD)
  have 2: "\<forall>x \<in> set (dropWhile ahead q). P e x"
    using dropWhile_behind [OF q(2), of e] unfolding ahead_def P_def
    by (metis book_order.lt_irrefl)
  have "sorted_wrt P (enqueue (side_before d) e q)"
    using s [unfolded sorted_wrt_append] 1 2 unfolding eq sorted_wrt_append by simp
  then show ?thesis using bound e by (auto simp: time_ordered_def P_def less_Suc_eq)
qed

lemma spec_rest_time_ordered:
  assumes "\<forall>d. time_ordered m (spec_queue d sb)" "\<forall>d. queue_ok d (spec_queue d sb)"
    and "unat (sequence_value sequence) = m"
    and "spec_rest d key pricing sequence q sb = (sb', h)"
  shows "time_ordered (Suc m) (spec_queue d' sb')"
proof -
  have mono: "time_ordered (Suc m) (spec_queue d sb)" for d
    by (rule time_ordered_mono [of m]) (use assms(1) in simp_all)
  show ?thesis
  proof (cases "q = 0 \<or> limit_price pricing = None")
    case True
    with assms(4) mono show ?thesis by (auto simp: spec_rest_def split: option.splits)
  next
    case False
    then obtain p where p: "limit_price pricing = Some p" "q \<noteq> 0" by auto
    from assms(4) p have sb': "sb' = (set_spec_queue d
                  (enqueue (side_before d)
                    (sb_next sb, \<lparr>ro_key = key, ro_direction = d, ro_limit_price = p,
                                  ro_open_size = Quantity q, ro_sequence = sequence\<rparr>)
                    (spec_queue d sb)) sb)\<lparr>sb_next := Suc (sb_next sb)\<rparr>"
      by (simp add: spec_rest_def)
    show ?thesis
    proof (cases "d' = d")
      case True
      then show ?thesis using assms(1,2,3) by (auto simp: sb' intro!: time_ordered_enqueue)
    next
      case False
      then have "d' = opposite d" by (cases d; cases d') auto
      then show ?thesis using mono by (simp add: sb')
    qed
  qed
qed

lemma spec_execute_time_ordered:
  assumes t: "\<forall>d. time_ordered m (spec_queue d sb)" and ok: "spec_ok sb"
    and q: "unat (sequence_value sequence) = m"
    and ex: "spec_execute d key pricing qty sequence sb = (sb', h, ts, fs)"
  shows "time_ordered (Suc m) (spec_queue d' sb')"
proof -
  obtain q' ys where c: "consume (crosses d pricing) (quantity_value qty) (spec_queue (opposite d) sb) = (q', ys, ts, fs)"
    and sr: "spec_rest d key pricing sequence q' (set_spec_queue (opposite d) ys sb) = (sb', h)"
    using ex by (auto simp: spec_execute_def split: prod.splits)
  have okq: "queue_ok e (spec_queue e sb)" for e using ok by (simp add: spec_ok_iff [of sb e])
  have side: "e = d \<or> e = opposite d" for e by (cases e; cases d) auto
  have "queue_ok (opposite d) ys" using queue_ok_consume [OF okq c] by blast
  then have 1: "\<forall>e. queue_ok e (spec_queue e (set_spec_queue (opposite d) ys sb))"
    using okq side by (metis spec_queue_simps(1,3))
  have "time_ordered m ys" using t c by (blast intro: time_ordered_consume)
  then have 2: "\<forall>e. time_ordered m (spec_queue e (set_spec_queue (opposite d) ys sb))"
    using t side by (metis spec_queue_simps(1,3))
  show ?thesis using spec_rest_time_ordered [OF 2 1 q sr] .
qed

lemma time_ordered_set_queue:
  assumes "\<forall>d. time_ordered m (spec_queue d sb)" "time_ordered m q"
  shows "time_ordered m (spec_queue d' (set_spec_queue d q sb))"
  using assms by (cases d; cases d') (metis spec_queue_simps(1,2,3) opposite.simps)+

lemma spec_update_time_ordered:
  assumes t: "\<forall>d. time_ordered m (spec_queue d sb)" and ok: "spec_ok sb"
    and q: "unat (sequence_value sequence) = m"
  shows "time_ordered (Suc m) (spec_queue d' (fst (spec_update order d n r sequence sb)))"
proof (cases "keeps_priority order r")
  case True
  have "time_ordered m (spec_queue d' (set_spec_queue d (resize_node n (uo_size order) (spec_queue d sb)) sb))"
    using t by (intro time_ordered_set_queue) (simp_all add: time_ordered_resize)
  then show ?thesis using True by (auto simp: spec_update_def Let_def intro: time_ordered_mono)
next
  case False
  let ?sb = "set_spec_queue d (remove_node n (spec_queue d sb)) sb"
  obtain sb' h ts fs where x: "spec_execute d (uo_key order) (uo_pricing order) (uo_size order) sequence ?sb = (sb', h, ts, fs)"
    by (metis prod_cases4)
  have "\<forall>d'. time_ordered m (spec_queue d' ?sb)"
    using t by (intro allI time_ordered_set_queue) (simp_all add: time_ordered_remove)
  from spec_execute_time_ordered [OF this spec_ok_remove [OF ok] q x] False x show ?thesis
    by (simp add: spec_update_def)
qed

lemma spec_submit_book: "fst (spec_submit order sequence sb) =
    fst (spec_execute (so_direction order) (so_key order) (so_pricing order) (so_size order) sequence sb)"
  by (simp add: spec_submit_def split: prod.splits)

lemma unat_bump:
  "unat (sequence_value s) < 2 ^ 64 - 1 \<Longrightarrow> unat (sequence_value (bump s)) = Suc (unat (sequence_value s))"
proof -
  assume "unat (sequence_value s) < 2 ^ 64 - 1"
  then have "sequence_value s \<noteq> - 1" by (auto simp: unsigned_minus_1_eq_mask mask_eq_exp_minus_1)
  then show ?thesis by (simp add: bump_def unat_inc)
qed

lemma spec_step_time_ordered:
  assumes step: "spec_step se c r se'"
    and ok: "\<forall>s. spec_ok (spec_book_of se s)"
    and t: "\<forall>s d. time_ordered (unat (sequence_value (se_next_sequence se))) (spec_queue d (spec_book_of se s))"
    and bound: "unat (sequence_value (se_next_sequence se)) < 2 ^ 64 - 1"
  shows "time_ordered (unat (sequence_value (se_next_sequence se'))) (spec_queue d (spec_book_of se' s)) \<and>
    unat (sequence_value (se_next_sequence se')) \<le> Suc (unat (sequence_value (se_next_sequence se)))"
proof -
  let ?m = "unat (sequence_value (se_next_sequence se))"
  have mono: "time_ordered (Suc ?m) (spec_queue d (spec_book_of se s))" for s d
    by (rule time_ordered_mono [of ?m]) (use t in simp_all)
  show ?thesis
    using step
  proof cases
    case (submit_done order sb sb' result)
    have sb: "sb = spec_book_of se (so_instrument order)" using submit_done(6) by (simp add: spec_book_of_def)
    obtain sb1 h ts fs where x: "spec_execute (so_direction order) (so_key order) (so_pricing order) (so_size order)
        (se_next_sequence se) sb = (sb1, h, ts, fs)" by (metis prod_cases4)
    have "sb' = sb1" using submit_done(7) spec_submit_book [of order "se_next_sequence se" sb] x by simp
    then have "time_ordered (Suc ?m) (spec_queue d sb')"
      using spec_execute_time_ordered [OF _ _ refl x, of d] t ok unfolding sb by simp
    with mono show ?thesis by (simp add: submit_done unat_bump [OF bound])
  next
    case (update_done order s1 d1 n r1 sb sb' result)
    have sb: "sb = spec_book_of se s1" using update_done(7) by (simp add: spec_book_of_def)
    have "time_ordered (Suc ?m) (spec_queue d sb')"
      using spec_update_time_ordered [OF _ _ refl, of "se_next_sequence se" sb d order d1 n r1] update_done(8) t ok
      unfolding sb by simp
    with mono show ?thesis by (simp add: update_done unat_bump [OF bound])
  next
    case (cancel_done s1 d1 n r1 order sb sb' result)
    have sb: "sb = spec_book_of se s1" using cancel_done(6) by (simp add: spec_book_of_def)
    have "sb' = set_spec_queue d1 (remove_node n (spec_queue d1 sb)) sb"
      using cancel_done(7) by (auto simp: spec_cancel_def Let_def)
    then have "time_ordered ?m (spec_queue d sb')"
      using t by (simp add: sb time_ordered_set_queue time_ordered_remove)
    with t show ?thesis by (simp add: cancel_done)
  qed (use t in simp_all)
qed

subsection \<open>Runs\<close>

lemma engine_run_snoc:
  "engine_run (cs @ [c]) e =
    (case engine_run cs e of (e1, rs) \<Rightarrow> case engine_execute c e1 of (e2, r) \<Rightarrow> (e2, rs @ [r]))"
  by (induction cs arbitrary: e) (simp_all split: prod.splits)

text \<open>Induction over the commands executed so far.\<close>

lemma reachable_induct [case_names initial step]:
  assumes "P [] initial_engine []"
    and "\<And>cs e rs c e' r. \<lbrakk>P cs e rs; engine_run cs initial_engine = (e, rs); engine_ok e; engine_ok e';
           engine_execute c e = (e', Inr r); spec_step (abs_engine e) c r (abs_engine e')\<rbrakk> \<Longrightarrow>
         P (cs @ [c]) e' (rs @ [Inr r])"
  shows "P cs (reachable_engine cs) (snd (engine_run cs initial_engine))"
proof (induction cs rule: rev_induct)
  case Nil
  show ?case using assms(1) by (simp add: reachable_engine_def)
next
  case (snoc c cs)
  obtain e rs where run: "engine_run cs initial_engine = (e, rs)" by fastforce
  have ok: "engine_ok e" using engine_run_ok [of cs] by (simp add: run)
  obtain e' r where x: "engine_execute c e = (e', Inr r)" "engine_ok e'"
    "spec_step (abs_engine e) c r (abs_engine e')" using engine_execute_sim [OF ok] .
  have "P cs e rs" using snoc by (simp add: reachable_engine_def run)
  from assms(2) [OF this run ok x(2,1,3)] show ?case
    by (simp add: reachable_engine_def engine_run_snoc run x(1))
qed

lemma engine_spec_ok: "engine_ok e \<Longrightarrow> spec_ok (spec_book_of (abs_engine e) s)"
  using book_of_ok [of e s] by (simp add: spec_book_of_abs book_ok_def)

lemma reachable_time_ordered_aux:
  "length cs < 2 ^ 64 - 1 \<longrightarrow>
   unat (sequence_value (en_next_sequence (reachable_engine cs))) \<le> Suc (length cs) \<and>
   (\<forall>s d. time_ordered (unat (sequence_value (en_next_sequence (reachable_engine cs))))
      (side_queue (reachable_engine cs) s d))"
proof (induction rule: reachable_induct [where P = "\<lambda>cs e rs. length cs < 2 ^ 64 - 1 \<longrightarrow>
   unat (sequence_value (en_next_sequence e)) \<le> Suc (length cs) \<and>
   (\<forall>s d. time_ordered (unat (sequence_value (en_next_sequence e))) (side_queue e s d))"])
  case initial
  have "side_queue initial_engine s d = []" for s d
    by (cases d) (simp_all add: side_queue_def book_of_def initial_engine_def make_order_book_def)
  then show ?case by (simp add: initial_engine_def)
next
  case (step cs e rs c e' r)
  show ?case
  proof (intro impI)
    assume len: "length (cs @ [c]) < 2 ^ 64 - 1"
    with step(1) have b: "unat (sequence_value (en_next_sequence e)) \<le> Suc (length cs)"
      and t: "\<forall>s d. time_ordered (unat (sequence_value (en_next_sequence e))) (side_queue e s d)" by simp_all
    from b len have lt: "unat (sequence_value (en_next_sequence e)) < 2 ^ 64 - 1" by simp
    have "\<forall>s. spec_ok (spec_book_of (abs_engine e) s)" using engine_spec_ok [OF step(3)] by blast
    note st = spec_step_time_ordered [OF step(6) this]
    have "unat (sequence_value (en_next_sequence e')) \<le> Suc (unat (sequence_value (en_next_sequence e))) \<and>
      time_ordered (unat (sequence_value (en_next_sequence e'))) (side_queue e' s d)" for s d
      using st t lt by (simp add: side_queue_spec)
    with b show "unat (sequence_value (en_next_sequence e')) \<le> Suc (length (cs @ [c])) \<and>
     (\<forall>s d. time_ordered (unat (sequence_value (en_next_sequence e'))) (side_queue e' s d))"
      by (metis Suc_le_mono le_trans length_append_singleton)
  qed
qed

subsection \<open>Reading the book updates\<close>

type_synonym tops = "symbol_id \<Rightarrow> side \<Rightarrow> price option \<times> u64"

fun see :: "event \<Rightarrow> tops \<Rightarrow> tops" where
  "see (Book_updated s d p tot) v = v(s := (v s)(d := (p, tot)))"
| "see _ v = v"

definition replay :: "event list \<Rightarrow> tops" where
  "replay evs = fold see evs (\<lambda>_ _. (None, 0))"

fun reply_events :: "reply outcome \<Rightarrow> event list" where
  "reply_events (Inr (Events evs)) = evs"
| "reply_events _ = []"

definition quote :: "order_queue \<Rightarrow> price option \<times> u64" where
  "quote q = (case queue_top q of None \<Rightarrow> (None, 0) | Some t \<Rightarrow> (Some (tob_best_price t), tob_total_size t))"

lemma fold_see_trades [simp]: "fold see (trade_events k i ts) = id"
  by (induction ts) (auto simp: trade_events_def)

lemma fold_see_source:
  "fold see evs v s d = (Some p, tot) \<Longrightarrow> v s d = (Some p, tot) \<or> Book_updated s d (Some p) tot \<in> set evs"
proof (induction evs arbitrary: v)
  case (Cons ev evs)
  then show ?case by (cases ev) (fastforce simp: fun_upd_def split: if_splits)+
qed simp

text \<open>The reader's row for the symbol of a book is up to date.\<close>

definition row_ok :: "tops \<Rightarrow> spec_book \<Rightarrow> bool" where
  "row_ok v sb \<longleftrightarrow> (\<forall>d. v (sb_instrument sb) d = quote (spec_queue d sb))"

lemma row_okD: "row_ok v sb \<Longrightarrow> v (sb_instrument sb) d = quote (spec_queue d sb)"
  by (simp add: row_ok_def)

definition quote_row :: "spec_book \<Rightarrow> side \<Rightarrow> price option \<times> u64" where
  "quote_row sb = (\<lambda>d. quote (spec_queue d sb))"

lemma fold_see_side_change:
  assumes "v i d = quote (spec_queue d sb)" "i = sb_instrument sb"
  shows "fold see (side_change d sb sb') v = v(i := (v i)(d := quote (spec_queue d sb')))"
proof (cases "queue_top (spec_queue d sb) = queue_top (spec_queue d sb')")
  case True
  then have "quote (spec_queue d sb') = v i d" using assms(1) by (simp add: quote_def)
  with True show ?thesis by (simp add: side_change_def top_change_def)
next
  case False
  then show ?thesis
    by (auto simp: side_change_def top_change_def quote_def assms(2) split: option.splits)
qed

lemma two_sides: "f(d := g d, opposite d := g (opposite d)) = g"
proof
  fix e show "(f(d := g d, opposite d := g (opposite d))) e = g e" by (cases d; cases e) simp_all
qed

lemma fold_see_both:
  assumes "row_ok v sb"
  shows "fold see (side_change d sb sb' @ side_change (opposite d) sb sb') v =
    v(sb_instrument sb := quote_row sb')"
proof -
  let ?i = "sb_instrument sb"
  have "fold see (side_change d sb sb') v = v(?i := (v ?i)(d := quote (spec_queue d sb')))"
    using row_okD [OF assms] by (rule fold_see_side_change) simp
  moreover have "fold see (side_change (opposite d) sb sb') (v(?i := (v ?i)(d := quote (spec_queue d sb')))) =
      v(?i := (v ?i)(d := quote (spec_queue d sb'), opposite d := quote (spec_queue (opposite d) sb')))"
    using row_okD [OF assms] by (subst fold_see_side_change [where i = ?i]) simp_all
  ultimately show ?thesis
    using two_sides [of "v ?i" d "quote_row sb'"] by (simp add: quote_row_def)
qed

lemma fold_see_one:
  assumes "row_ok v sb"
  shows "fold see (side_change d sb (set_spec_queue d q sb)) v =
    v(sb_instrument sb := quote_row (set_spec_queue d q sb))"
proof -
  let ?i = "sb_instrument sb"
  have "quote_row (set_spec_queue d q sb) = (v ?i)(d := quote q)"
  proof
    fix e show "quote_row (set_spec_queue d q sb) e = ((v ?i)(d := quote q)) e"
      using row_okD [OF assms, of e] by (cases d; cases e) (simp_all add: quote_row_def)
  qed
  then show ?thesis using fold_see_side_change [of v ?i d sb "set_spec_queue d q sb"] row_okD [OF assms, of d] by simp
qed

lemma fold_see_submit:
  assumes "row_ok v sb"
  shows "fold see (sr_events (snd (spec_submit order q sb))) v =
    v(sb_instrument sb := quote_row (fst (spec_submit order q sb)))"
  using fold_see_both [OF assms, of Buy] by (simp add: spec_submit_def split: prod.splits)

lemma fold_see_cancel:
  assumes "row_ok v sb"
  shows "fold see (cr_events (snd (spec_cancel k d n sb))) v =
    v(sb_instrument sb := quote_row (fst (spec_cancel k d n sb)))"
  using fold_see_one [OF assms, of d] by (simp add: spec_cancel_def Let_def)

lemma fold_see_update:
  assumes "row_ok v sb"
  shows "fold see (ur_events (snd (spec_update order d n r q sb))) v =
    v(sb_instrument sb := quote_row (fst (spec_update order d n r q sb)))"
  using fold_see_one [OF assms, of d] fold_see_both [OF assms, of d]
  by (simp add: spec_update_def Let_def split: prod.splits)

lemma spec_step_see:
  assumes step: "spec_step se c r se'"
    and inst: "\<forall>s. sb_instrument (spec_book_of se s) = s"
    and v: "\<forall>s d. v s d = quote (spec_queue d (spec_book_of se s))"
  shows "fold see (reply_events (Inr r)) v s d = quote (spec_queue d (spec_book_of se' s))"
proof -
  have row: "row_ok v (spec_book_of se s)" for s using v inst by (simp add: row_ok_def)
  show ?thesis
    using step
  proof cases
    case (submit_done order sb sb' result)
    have sb: "sb = spec_book_of se (so_instrument order)" using submit_done(6) by (simp add: spec_book_of_def)
    have "fold see (sr_events (snd (spec_submit order (se_next_sequence se) sb))) v =
      v(so_instrument order := quote_row (fst (spec_submit order (se_next_sequence se) sb)))"
      using fold_see_submit [OF row [of "so_instrument order"]] inst by (simp add: sb)
    with submit_done(7) v show ?thesis by (simp add: submit_done(2,3) quote_row_def)
  next
    case (update_done order s1 d1 n r1 sb sb' result)
    have sb: "sb = spec_book_of se s1" using update_done(7) by (simp add: spec_book_of_def)
    have "fold see (ur_events (snd (spec_update order d1 n r1 (se_next_sequence se) sb))) v =
      v(s1 := quote_row (fst (spec_update order d1 n r1 (se_next_sequence se) sb)))"
      using fold_see_update [OF row [of s1]] inst by (simp add: sb)
    with update_done(8) v show ?thesis by (simp add: update_done(2,3) quote_row_def)
  next
    case (cancel_done s1 d1 n r1 order sb sb' result)
    have sb: "sb = spec_book_of se s1" using cancel_done(6) by (simp add: spec_book_of_def)
    have "fold see (cr_events (snd (spec_cancel (co_key order) d1 n sb))) v =
      v(s1 := quote_row (fst (spec_cancel (co_key order) d1 n sb)))"
      using fold_see_cancel [OF row [of s1]] inst by (simp add: sb)
    with cancel_done(7) v show ?thesis by (simp add: cancel_done(2,3) quote_row_def)
  qed (use v in simp_all)
qed

subsection \<open>Active keys\<close>

lemma ex_side: "(\<exists>d. P d) \<longleftrightarrow> P Buy \<or> P Sell"
  by (metis side.exhaust)

lemma key_in_binds: "k \<in> fst ` binds sb \<longleftrightarrow> (\<exists>d n r. (n, r) \<in> set (spec_queue d sb) \<and> ro_key r = k)"
proof -
  have "fst ` binds sb = (\<lambda>e. ro_key (snd e)) ` (set (sb_bids sb) \<union> set (sb_asks sb))"
    by (simp add: binds_def image_image)
  then have "k \<in> fst ` binds sb \<longleftrightarrow>
      (\<exists>n r. (n, r) \<in> set (sb_bids sb) \<and> ro_key r = k) \<or> (\<exists>n r. (n, r) \<in> set (sb_asks sb) \<and> ro_key r = k)"
    unfolding image_Un by (force simp: image_iff)
  then show ?thesis by (simp add: ex_side)
qed

lemma key_active_binds:
  "key_active se k \<longleftrightarrow> (\<exists>s sb. se_books se s = Some sb \<and> k \<in> fst ` binds sb)"
  unfolding key_active_def resting_in_def key_in_binds by blast

text \<open>A key that is not active stays inactive when the changed book gains no key.\<close>

lemma market_key_inactive:
  assumes ok: "engine_ok e" and free: "en_active_orders e k = None"
    and abs: "abs_engine e' = bump_engine (set_book s sb' (abs_engine e))"
    and sub: "fst ` binds sb' \<subseteq> fst ` binds (abs_book (book_of e s))"
  shows "\<not> key_active (abs_engine e') k"
proof -
  have na: "\<not> key_active (abs_engine e) k" by (simp add: key_active_iff [OF ok] free)
  have "k \<notin> fst ` binds (abs_book (book_of e s))"
  proof (cases "en_books e s")
    case None
    then show ?thesis by (simp add: book_of_def abs_make_order_book binds_def empty_spec_book_def)
  next
    case (Some b)
    then have "se_books (abs_engine e) s = Some (abs_book b)" by simp
    with na show ?thesis unfolding key_active_binds book_of_def Some option.case by blast
  qed
  then have new: "k \<notin> fst ` binds sb'" using sub by (rule contra_subsetD [rotated])
  have "se_books (abs_engine e') = (se_books (abs_engine e))(s \<mapsto> sb')"
    by (simp add: abs set_book_def bump_engine_def)
  with new na show ?thesis unfolding key_active_binds by (metis fun_upd_apply option.inject)
qed

lemma side_queue_book:
  assumes "(n, r) \<in> set (side_queue e s d)"
  obtains b where "en_books e s = Some b" "live b d n r"
  using assms by (cases "en_books e s"; cases d)
    (simp_all add: side_queue_def book_of_def make_order_book_def live_def)

lemma side_queue_active:
  assumes ok: "engine_ok e" and q: "(n, r) \<in> set (side_queue e s d)"
  shows "en_active_orders e (ro_key r) = Some \<lparr>ao_instrument = s, ao_handle = handle_of n r\<rparr>"
proof -
  obtain b where "en_books e s = Some b" "live b d n r" using side_queue_book [OF q] .
  from live_binding [OF this] show ?thesis by (simp add: engine_ok_active [OF ok])
qed

text \<open>A key rests at most once in the whole engine.\<close>

lemma side_queue_key_unique:
  assumes ok: "engine_ok e" and q: "(n, r) \<in> set (side_queue e s d)" "(n', r') \<in> set (side_queue e s' d')"
    and key: "ro_key r = ro_key r'"
  shows "s = s' \<and> d = d' \<and> n = n' \<and> r = r'"
proof -
  have a: "s = s'" "handle_of n r = handle_of n' r'"
    using side_queue_active [OF ok q(1)] side_queue_active [OF ok q(2)] key by simp_all
  then have n: "n = n'" by (blast dest: handle_of_inj)
  have so: "spec_ok (spec_book_of (abs_engine e) s)" by (rule engine_spec_ok [OF ok])
  have "d' = d"
  proof (rule ccontr)
    assume "d' \<noteq> d"
    then have d': "d' = opposite d" by (cases d; cases d') simp_all
    have "fst ` set (side_queue e s d) \<inter> fst ` set (side_queue e s (opposite d)) = {}"
      using so by (simp add: spec_ok_iff [of _ d] side_queue_spec)
    moreover have "n \<in> fst ` set (side_queue e s d)" using imageI [OF q(1), of fst] by simp
    moreover have "n \<in> fst ` set (side_queue e s (opposite d))"
      using imageI [OF q(2), of fst] by (simp add: a(1) n d')
    ultimately show False by blast
  qed
  moreover have "distinct (map fst (side_queue e s d))"
    using so by (simp add: spec_ok_iff [of _ d] side_queue_spec queue_ok_def)
  then have "r = r'" if "d' = d"
    using q that a(1) n by (metis eq_key_imp_eq_value)
  ultimately show ?thesis using a(1) n by simp
qed

lemma keys_unique_book_of: "engine_ok e \<Longrightarrow> keys_unique (abs_book (book_of e s))"
proof (cases "en_books e s")
  case None
  then show ?thesis
    by (simp add: book_of_def abs_make_order_book empty_spec_book_def keys_unique_def binds_def)
next
  case (Some b)
  assume "engine_ok e"
  from engine_keys_unique [OF this Some] show ?thesis by (simp only: book_of_def Some option.case)
qed

text \<open>What is left of a limit order rests behind its price, and nothing rests when nothing is left.\<close>

lemma spec_execute_rests:
  assumes ok: "spec_ok sb" and x: "spec_execute d key pricing qty sequence sb = (sb', h, ts, fs)"
    and p: "limit_price pricing = Some p"
  defines "rest \<equiv> unat (quantity_value qty) - (\<Sum>(r, x) \<leftarrow> ts. unat x)"
  shows "rest = 0 \<Longrightarrow> spec_queue d sb' = spec_queue d sb"
    "0 < rest \<Longrightarrow> spec_queue d sb' = enqueue (side_before d)
       (sb_next sb, \<lparr>ro_key = key, ro_direction = d, ro_limit_price = p, ro_open_size = Quantity (word_of_nat rest),
          ro_sequence = sequence\<rparr>) (spec_queue d sb)"
    "(\<lambda>e. ro_key (snd e)) ` set (spec_queue (opposite d) sb') \<subseteq> (\<lambda>e. ro_key (snd e)) ` set (spec_queue (opposite d) sb)"
proof -
  obtain q ys where c: "consume (crosses d pricing) (quantity_value qty) (spec_queue (opposite d) sb) = (q, ys, ts, fs)"
    and sr: "spec_rest d key pricing sequence q (set_spec_queue (opposite d) ys sb) = (sb', h)"
    using x by (auto simp: spec_execute_def split: prod.splits)
  have "unat q \<le> unat (quantity_value qty)" using consume_le [OF c] by (simp add: word_le_nat_alt)
  then have rest: "rest = unat q" using consume_executed [OF c] by (simp add: rest_def)
  then show "rest = 0 \<Longrightarrow> spec_queue d sb' = spec_queue d sb"
    using sr p by (auto simp: spec_rest_def unat_eq_0 split: if_splits)
  show "0 < rest \<Longrightarrow> spec_queue d sb' = enqueue (side_before d)
       (sb_next sb, \<lparr>ro_key = key, ro_direction = d, ro_limit_price = p, ro_open_size = Quantity (word_of_nat rest),
          ro_sequence = sequence\<rparr>) (spec_queue d sb)"
    using sr p rest by (auto simp: spec_rest_def unat_gt_0 split: if_splits)
  have ys: "spec_queue (opposite d) sb' = ys" using sr p by (auto simp: spec_rest_def split: if_splits)
  obtain k where "map bind ys = drop k (map bind (spec_queue (opposite d) sb))" using consume_binds [OF c] by blast
  then have "set (map (\<lambda>e. fst (bind e)) ys) \<subseteq> set (map (\<lambda>e. fst (bind e)) (spec_queue (opposite d) sb))"
    unfolding comp_def [symmetric] map_map [symmetric] by (simp only: set_map) (metis image_mono set_drop_subset set_map)
  then show "(\<lambda>e. ro_key (snd e)) ` set (spec_queue (opposite d) sb') \<subseteq> (\<lambda>e. ro_key (snd e)) ` set (spec_queue (opposite d) sb)"
    by (simp add: ys bind_def)
qed

lemma spec_replace_rests:
  assumes ok: "spec_ok sb" and np: "\<not> keeps_priority order r" and p: "uo_pricing order = Limit_order p"
    and up: "spec_update order d n r sequence sb = (sb', result)"
  defines "left \<equiv> unat (quantity_value (uo_size order)) - executed (ur_events result)"
  shows "executed (ur_events result) \<le> unat (quantity_value (uo_size order))"
    "open_sum (spec_queue (opposite d) sb) = open_sum (spec_queue (opposite d) sb') + executed (ur_events result)"
    "left = 0 \<Longrightarrow> spec_queue d sb' = remove_node n (spec_queue d sb)"
    "0 < left \<Longrightarrow> spec_queue d sb' = enqueue (side_before d)
       (sb_next sb, \<lparr>ro_key = uo_key order, ro_direction = d, ro_limit_price = p, ro_open_size = Quantity (word_of_nat left),
          ro_sequence = sequence\<rparr>) (remove_node n (spec_queue d sb))"
    "(\<lambda>e. ro_key (snd e)) ` set (spec_queue (opposite d) sb') \<subseteq> (\<lambda>e. ro_key (snd e)) ` set (spec_queue (opposite d) sb)"
proof -
  let ?sb = "set_spec_queue d (remove_node n (spec_queue d sb)) sb"
  obtain h ts fs where x: "spec_execute d (uo_key order) (uo_pricing order) (uo_size order) sequence ?sb = (sb', h, ts, fs)"
    and ev: "executed (ur_events result) = (\<Sum>(r, x) \<leftarrow> ts. unat x)"
    using up np by (auto simp: spec_update_def executed_trades split: prod.splits)
  have l: "limit_price (uo_pricing order) = Some p" by (simp add: p)
  note rests = spec_execute_rests [OF spec_ok_remove [OF ok] x l, folded ev left_def, unfolded spec_queue_simps]
  show "executed (ur_events result) \<le> unat (quantity_value (uo_size order))"
    "open_sum (spec_queue (opposite d) sb) = open_sum (spec_queue (opposite d) sb') + executed (ur_events result)"
    using spec_execute_conserves(1,2) [OF x] by (simp_all add: ev)
  show "left = 0 \<Longrightarrow> spec_queue d sb' = remove_node n (spec_queue d sb)" by (rule rests(1))
  show "0 < left \<Longrightarrow> spec_queue d sb' = enqueue (side_before d)
       (sb_next sb, \<lparr>ro_key = uo_key order, ro_direction = d, ro_limit_price = p, ro_open_size = Quantity (word_of_nat left),
          ro_sequence = sequence\<rparr>) (remove_node n (spec_queue d sb))" by (rule rests(2))
  show "(\<lambda>e. ro_key (snd e)) ` set (spec_queue (opposite d) sb') \<subseteq> (\<lambda>e. ro_key (snd e)) ` set (spec_queue (opposite d) sb)"
    by (rule rests(3))
qed

text \<open>A key that rested once, at a place that is gone, is not active any more.\<close>

lemma key_gone:
  assumes ok: "engine_ok e" "engine_ok e'" and old: "(n, r) \<in> set (side_queue e s d)"
    and own: "side_queue e' s d = remove_node n (side_queue e s d)"
    and other: "(\<lambda>x. ro_key (snd x)) ` set (side_queue e' s (opposite d)) \<subseteq> (\<lambda>x. ro_key (snd x)) ` set (side_queue e s (opposite d))"
    and rest: "\<And>s' d'. s' \<noteq> s \<Longrightarrow> side_queue e' s' d' = side_queue e s' d'"
  shows "en_active_orders e' (ro_key r) = None"
proof (rule ccontr)
  assume "en_active_orders e' (ro_key r) \<noteq> None"
  then obtain a where "en_active_orders e' (ro_key r) = Some a" by auto
  from active_live [OF ok(2) this] obtain b d1 n1 r1 where a: "en_books e' (ao_instrument a) = Some b" "live b d1 n1 r1"
    "ro_key r1 = ro_key r" by metis
  then have new: "(n1, r1) \<in> set (side_queue e' (ao_instrument a) d1)" by (simp add: side_queue_def book_of_def live_def)
  note uniq = side_queue_key_unique [OF ok(1) _ old]
  consider "ao_instrument a \<noteq> s" | "ao_instrument a = s" "d1 = d" | "ao_instrument a = s" "d1 = opposite d"
    by (cases d; cases d1) auto
  then show False
  proof cases
    case 1
    with new rest a(3) uniq show False by metis
  next
    case 2
    with new have "(n1, r1) \<in> set (side_queue e s d)" "n1 \<noteq> n" by (auto simp: own remove_node_def)
    with a(3) uniq show False by metis
  next
    case 3
    with new other have "ro_key r1 \<in> (\<lambda>x. ro_key (snd x)) ` set (side_queue e s (opposite d))" by force
    then obtain n2 r2 where "(n2, r2) \<in> set (side_queue e s (opposite d))" "ro_key r2 = ro_key r" using a(3) by force
    with uniq show False by (metis opposite_neq(1))
  qed
qed

end
