(* ===== verification/Engine_Properties.thy ===== *)
theory Engine_Properties
  imports Engine_Facts
begin

text \<open>
  The properties of the matching engine. Each is about a state the engine reaches from its
  constructor by a sequence of commands, \<open>reachable_engine cs\<close>, so it assumes no invariant.
\<close>

text \<open>C1: every command of every sequence returns normally (no exception, no dangling iterator, no
  answer about a missing or inconsistent book), and the replies and the final state are those that
  the abstract engine of the matching rules allows.\<close>

theorem engine_implements_matching_rules:
  "\<exists>replies. snd (engine_run cs initial_engine) = map Inr replies \<and>
     spec_run initial_spec_engine cs replies (abs_engine (fst (engine_run cs initial_engine)))"
  using engine_run_sim [OF initial_engine_ok surjective_pairing] by (simp add: abs_initial_engine)

text \<open>C4: the index of active orders is exact. A key is in it just when an order rests under that key,
  with the symbol of that order's book and a handle to that order's node.\<close>

theorem active_index_exact:
  "en_active_orders (reachable_engine cs) k = Some a \<longleftrightarrow>
     (\<exists>b d n r. en_books (reachable_engine cs) (ao_instrument a) = Some b \<and>
        (n, r) \<in> set (queue (side_levels d b)) \<and> ro_key r = k \<and>
        ao_handle a = make_handle d (ro_limit_price r) n)"
proof
  assume "en_active_orders (reachable_engine cs) k = Some a"
  from active_live [OF reachable_ok this] obtain b d n r
    where "en_books (reachable_engine cs) (ao_instrument a) = Some b" "live b d n r" "ro_key r = k"
      "ao_handle a = handle_of n r" "book_ok b" .
  then show "\<exists>b d n r. en_books (reachable_engine cs) (ao_instrument a) = Some b \<and>
      (n, r) \<in> set (queue (side_levels d b)) \<and> ro_key r = k \<and> ao_handle a = make_handle d (ro_limit_price r) n"
    using live_direction [of b d n r] by (auto simp: live_def handle_of_def)
next
  assume "\<exists>b d n r. en_books (reachable_engine cs) (ao_instrument a) = Some b \<and>
      (n, r) \<in> set (queue (side_levels d b)) \<and> ro_key r = k \<and> ao_handle a = make_handle d (ro_limit_price r) n"
  then obtain b d n r where b: "en_books (reachable_engine cs) (ao_instrument a) = Some b" "live b d n r"
    "ro_key r = k" "ao_handle a = make_handle d (ro_limit_price r) n"
    by (auto simp: live_def)
  moreover have "ao_handle a = handle_of n r"
    using b live_direction [OF engine_ok_book [OF reachable_ok b(1)] b(2)] by (simp add: handle_of_def)
  ultimately have "(k, ao_handle a) \<in> book_binds (reachable_engine cs) (ao_instrument a)"
    using live_binding by metis
  then show "en_active_orders (reachable_engine cs) k = Some a"
    by (simp add: engine_ok_active [OF reachable_ok, symmetric])
qed

text \<open>C3: no book is ever crossed or locked: every resting bid is priced below every resting ask.\<close>

theorem books_never_crossed:
  assumes "x \<in> set (side_queue (reachable_engine cs) s Buy)"
    and "y \<in> set (side_queue (reachable_engine cs) s Sell)"
  shows "ro_limit_price (snd x) < ro_limit_price (snd y)"
  using assms engine_spec_ok [OF reachable_ok, of cs s]
  by (simp add: side_queue_spec spec_ok_def uncrossed_def)

definition key1 :: order_key where "key1 = \<lparr>ok_user = User_id 1, ok_client_order = Client_order_id 1\<rparr>"
definition key2 :: order_key where "key2 = \<lparr>ok_user = User_id 1, ok_client_order = Client_order_id 2\<rparr>"
definition key3 :: order_key where "key3 = \<lparr>ok_user = User_id 2, ok_client_order = Client_order_id 1\<rparr>"

definition limit_submit :: "order_key \<Rightarrow> side \<Rightarrow> u64 \<Rightarrow> u64 \<Rightarrow> submit_order" where
  "limit_submit k d p q = \<lparr>so_key = k, so_instrument = Symbol_id 1, so_direction = d,
     so_pricing = Limit_order (Price p), so_size = Quantity q\<rparr>"

definition quotes_100_101 :: "command list" where
  "quotes_100_101 = [Submit_command (limit_submit key1 Buy 100 5), Submit_command (limit_submit key2 Sell 101 7)]"

lemma books_never_crossed_witness:
  "ro_limit_price (snd (hd (side_queue (reachable_engine quotes_100_101) (Symbol_id 1) Buy))) <
   ro_limit_price (snd (hd (side_queue (reachable_engine quotes_100_101) (Symbol_id 1) Sell)))"
proof (rule books_never_crossed)
  show "hd (side_queue (reachable_engine quotes_100_101) (Symbol_id 1) Buy)
      \<in> set (side_queue (reachable_engine quotes_100_101) (Symbol_id 1) Buy)"
    by (rule hd_in_set) code_simp
  show "hd (side_queue (reachable_engine quotes_100_101) (Symbol_id 1) Sell)
      \<in> set (side_queue (reachable_engine quotes_100_101) (Symbol_id 1) Sell)"
    by (rule hd_in_set) code_simp
qed

text \<open>C10: price-time priority. In each queue of each book an earlier order has a strictly better price,
  or the same price and a strictly smaller sequence number, as long as the 64-bit sequence counter
  cannot have wrapped.\<close>

theorem price_time_priority:
  assumes "length cs < 2 ^ 64 - 1"
    and "i < j" "j < length (side_queue (reachable_engine cs) s d)"
  defines "a \<equiv> snd (side_queue (reachable_engine cs) s d ! i)"
    and "b \<equiv> snd (side_queue (reachable_engine cs) s d ! j)"
  shows "side_before d (ro_limit_price a) (ro_limit_price b) \<or>
    ro_limit_price a = ro_limit_price b \<and> sequence_value (ro_sequence a) < sequence_value (ro_sequence b)"
proof -
  let ?q = "side_queue (reachable_engine cs) s d"
  have "queue_ok d ?q"
    using engine_spec_ok [OF reachable_ok, of cs s] by (simp add: side_queue_spec spec_ok_iff [of _ d])
  then have "\<not> side_before d (ro_limit_price b) (ro_limit_price a)"
    using assms(2,3) unfolding queue_ok_def a_def b_def by (auto dest: sorted_wrt_nth_less)
  moreover have "time_ordered (unat (sequence_value (en_next_sequence (reachable_engine cs)))) ?q"
    using reachable_time_ordered_aux assms(1) by blast
  then have "ro_limit_price a = ro_limit_price b \<longrightarrow> sequence_value (ro_sequence a) < sequence_value (ro_sequence b)"
    using assms(2,3) unfolding time_ordered_def a_def b_def by (auto dest: sorted_wrt_nth_less)
  ultimately show ?thesis using book_order.lt_total [of d] by blast
qed

lemma price_time_priority_witness:
  "let cs = [Submit_command (limit_submit key1 Buy 100 5), Submit_command (limit_submit key2 Buy 100 7)];
       q = side_queue (reachable_engine cs) (Symbol_id 1) Buy
   in side_before Buy (ro_limit_price (snd (q ! 0))) (ro_limit_price (snd (q ! 1))) \<or>
      ro_limit_price (snd (q ! 0)) = ro_limit_price (snd (q ! 1)) \<and>
      sequence_value (ro_sequence (snd (q ! 0))) < sequence_value (ro_sequence (snd (q ! 1)))"
  unfolding Let_def by (rule price_time_priority) (simp, simp, code_simp)

text \<open>C12: a trade names the submitting order, the symbol of the book and an order that was resting on
  the other side; it executes at that order's price, which is within the limit of the incoming
  order, for a positive size of at most what that order had open.\<close>

theorem trades_at_resting_price_within_limit:
  assumes "engine_submit order (reachable_engine cs) = (e', Inr evs)"
    and "Trade_executed aggressor resting s p q \<in> set evs"
  shows "aggressor = so_key order \<and> s = so_instrument order \<and>
    crosses (so_direction order) (so_pricing order) p \<and> 0 < quantity_value q \<and>
    (\<exists>n r. (n, r) \<in> set (side_queue (reachable_engine cs) s (opposite (so_direction order))) \<and>
       ro_key r = resting \<and> ro_limit_price r = p \<and> q \<le> ro_open_size r)"
proof -
  let ?e = "reachable_engine cs"
  have val: "validate_submit order = None" "en_active_orders ?e (so_key order) = None"
    using assms by (auto simp: engine_submit_def reject_submit_def split: option.splits if_splits)
  let ?sb = "abs_book (book_of ?e (so_instrument order))" and ?d = "so_direction order"
  obtain sb' h ts fs where x: "spec_execute ?d (so_key order) (so_pricing order) (so_size order)
      (en_next_sequence ?e) ?sb = (sb', h, ts, fs)" by (metis prod_cases4)
  have evs: "evs = sr_events (snd (spec_submit order (en_next_sequence ?e) ?sb))"
    using engine_submit_spec(2) [OF reachable_ok val assms(1)] .
  have "Trade_executed aggressor resting s p q \<in>
      set (trade_events (so_key order) (sb_instrument ?sb) ts)"
    using assms(2) by (auto simp: evs spec_submit_def x side_change_def top_change_def split: if_splits)
  then obtain r y where t: "(r, y) \<in> set ts" "aggressor = so_key order" "resting = ro_key r"
    "s = so_instrument order" "p = ro_limit_price r" "q = Quantity y"
    by (auto simp: trade_events_def book_of_instrument [OF reachable_ok])
  from x obtain q' ys where c: "consume (crosses ?d (so_pricing order)) (quantity_value (so_size order))
      (spec_queue (opposite ?d) ?sb) = (q', ys, ts, fs)"
    by (auto simp: spec_execute_def split: prod.splits)
  have "\<forall>z \<in> set (spec_queue (opposite ?d) ?sb). 0 < open_value (snd z)"
    using engine_spec_ok [OF reachable_ok, of cs "so_instrument order"]
    by (simp add: spec_ok_iff [of _ ?d] queue_ok_def spec_book_of_abs)
  from consume_trades [OF c this t(1)] side_crossing.consume_crosses [OF c] t show ?thesis
    by (auto simp: side_queue_def quantity_order_defs)
qed

definition ask_100 :: "command list" where
  "ask_100 = [Submit_command (limit_submit key1 Sell 100 5)]"

definition buy_101 :: submit_order where
  "buy_101 = limit_submit key2 Buy 101 7"

lemma run_result: "snd x = y \<Longrightarrow> x = (fst x, y)"
  by (simp add: prod_eq_iff)

lemma buy_101_run:
  "snd (engine_submit buy_101 (reachable_engine ask_100)) =
    Inr [Submit_accepted key2, Trade_executed key2 key1 (Symbol_id 1) (Price 100) (Quantity 5),
         Book_updated (Symbol_id 1) Buy (Some (Price 101)) 2, Book_updated (Symbol_id 1) Sell None 0]"
  by code_simp

lemma trades_at_resting_price_within_limit_witness:
  "key2 = so_key buy_101 \<and> Symbol_id 1 = so_instrument buy_101 \<and>
    crosses (so_direction buy_101) (so_pricing buy_101) (Price 100) \<and> 0 < quantity_value (Quantity 5) \<and>
    (\<exists>n r. (n, r) \<in> set (side_queue (reachable_engine ask_100) (Symbol_id 1) (opposite (so_direction buy_101))) \<and>
       ro_key r = key1 \<and> ro_limit_price r = Price 100 \<and> Quantity 5 \<le> ro_open_size r)"
  by (rule trades_at_resting_price_within_limit [OF run_result [OF buy_101_run]]) simp

definition open_at :: "engine \<Rightarrow> submit_order \<Rightarrow> side \<Rightarrow> nat" where
  "open_at e order d = open_sum (side_queue e (so_instrument order) d)"

text \<open>C13: quantity is conserved. What a submit executes leaves the other side of the book, never exceeds
  the order, and what is left of a limit order, and only of a limit order, rests on its own side.
  The sums are over the naturals, so nothing wraps.\<close>

theorem submit_conserves_quantity:
  assumes "engine_submit order (reachable_engine cs) = (e', Inr evs)"
    and "validate_submit order = None" "en_active_orders (reachable_engine cs) (so_key order) = None"
  shows "executed evs \<le> unat (quantity_value (so_size order)) \<and>
    open_at (reachable_engine cs) order (opposite (so_direction order)) =
      open_at e' order (opposite (so_direction order)) + executed evs \<and>
    open_at e' order (so_direction order) = open_at (reachable_engine cs) order (so_direction order) +
      (if so_pricing order = Market_order then 0 else unat (quantity_value (so_size order)) - executed evs)"
proof -
  let ?e = "reachable_engine cs"
  note sp = engine_submit_spec [OF reachable_ok assms(2,3,1)]
  let ?sb = "abs_book (book_of ?e (so_instrument order))" and ?d = "so_direction order"
  obtain sb' h ts fs where x: "spec_execute ?d (so_key order) (so_pricing order) (so_size order)
      (en_next_sequence ?e) ?sb = (sb', h, ts, fs)" by (metis prod_cases4)
  have ev: "executed evs = (\<Sum>(r, x) \<leftarrow> ts. unat x)"
    by (simp add: sp(2) spec_submit_def x executed_trades)
  have q: "side_queue e' (so_instrument order) d = spec_queue d sb'" for d
    by (simp add: side_queue_spec sp(3) spec_submit_book x)
  have q0: "side_queue ?e (so_instrument order) d = spec_queue d ?sb" for d
    by (simp add: side_queue_def)
  have lim: "limit_price (so_pricing order) = None \<longleftrightarrow> so_pricing order = Market_order"
    by (cases "so_pricing order") simp_all
  show ?thesis
    using spec_execute_conserves [OF x] unfolding open_at_def q q0 ev lim by simp
qed

lemma submit_conserves_quantity_witness:
  "executed [Submit_accepted key2, Trade_executed key2 key1 (Symbol_id 1) (Price 100) (Quantity 5),
         Book_updated (Symbol_id 1) Buy (Some (Price 101)) 2, Book_updated (Symbol_id 1) Sell None 0]
      \<le> unat (quantity_value (so_size buy_101))"
  by (rule submit_conserves_quantity [OF run_result [OF buy_101_run], THEN conjunct1]) code_simp+

text \<open>C14: a market order never rests. Whatever it executes, it is not active afterwards and its own side
  of the book is untouched.\<close>

theorem market_order_never_rests:
  assumes "engine_submit order (reachable_engine cs) = (e', Inr evs)"
    and "so_pricing order = Market_order" "en_active_orders (reachable_engine cs) (so_key order) = None"
  shows "en_active_orders e' (so_key order) = None \<and>
    side_queue e' (so_instrument order) (so_direction order) =
      side_queue (reachable_engine cs) (so_instrument order) (so_direction order)"
proof (cases "validate_submit order")
  case (Some reason)
  with assms show ?thesis by (simp add: engine_submit_def)
next
  case None
  let ?e = "reachable_engine cs"
  note sp = engine_submit_spec [OF reachable_ok None assms(3,1)]
  let ?sb = "abs_book (book_of ?e (so_instrument order))" and ?d = "so_direction order"
  obtain sb' h ts fs where x: "spec_execute ?d (so_key order) (so_pricing order) (so_size order)
      (en_next_sequence ?e) ?sb = (sb', h, ts, fs)" by (metis prod_cases4)
  have sub: "fst ` binds sb' \<subseteq> fst ` binds ?sb" and own: "spec_queue ?d sb' = spec_queue ?d ?sb"
  proof -
    obtain q ys where c: "consume (crosses ?d Market_order) (quantity_value (so_size order)) (spec_queue (opposite ?d) ?sb) = (q, ys, ts, fs)"
      and sb': "sb' = set_spec_queue (opposite ?d) ys ?sb"
      using x by (auto simp: spec_execute_def spec_rest_def assms(2) split: prod.splits)
    have "set (map bind ys) \<subseteq> set (map bind (spec_queue (opposite ?d) ?sb))"
      using consume_binds [OF c] by (metis set_drop_subset)
    then have "binds sb' \<subseteq> binds ?sb" by (auto simp: sb' binds_side [of _ ?d])
    then show "fst ` binds sb' \<subseteq> fst ` binds ?sb" by (rule image_mono)
    show "spec_queue ?d sb' = spec_queue ?d ?sb" by (simp add: sb')
  qed
  have q: "spec_book_of (abs_engine e') (so_instrument order) = sb'"
    by (simp add: sp(3) spec_submit_book x)
  have "\<not> key_active (abs_engine e') (so_key order)"
    using market_key_inactive [OF reachable_ok assms(3) sp(3)] sub by (simp add: spec_submit_book x)
  then show ?thesis
    using own by (simp add: key_active_iff [OF sp(1)] side_queue_spec q) (simp add: spec_book_of_abs)
qed

definition market_buy :: submit_order where
  "market_buy = \<lparr>so_key = key2, so_instrument = Symbol_id 1, so_direction = Buy,
     so_pricing = Market_order, so_size = Quantity 9\<rparr>"

lemma market_buy_run:
  "snd (engine_submit market_buy (reachable_engine ask_100)) =
    Inr [Submit_accepted key2, Trade_executed key2 key1 (Symbol_id 1) (Price 100) (Quantity 5),
         Book_updated (Symbol_id 1) Sell None 0]"
  by code_simp

lemma market_order_never_rests_witness:
  "en_active_orders (fst (engine_submit market_buy (reachable_engine ask_100))) key2 = None"
  using market_order_never_rests [OF run_result [OF market_buy_run]] by (simp add: market_buy_def) code_simp

text \<open>C15: an update that keeps the price and does not raise the size keeps time priority. Every queue of
  every symbol has the same nodes in the same places, only the updated order's open size changes,
  and no trade happens.\<close>

theorem reduce_keeps_priority:
  assumes "engine_update order (reachable_engine cs) = (e', Inr evs)"
    and "validate_update order = None"
    and "(n, r) \<in> set (side_queue (reachable_engine cs) s d)" "ro_key r = uo_key order"
    and "uo_pricing order = Limit_order (ro_limit_price r)" "uo_size order \<le> ro_open_size r"
  shows "side_queue e' s' d' =
      (if s' = s \<and> d' = d then resize_node n (uo_size order) (side_queue (reachable_engine cs) s d)
       else side_queue (reachable_engine cs) s' d') \<and> executed evs = 0"
proof -
  let ?e = "reachable_engine cs"
  obtain a where act: "en_active_orders ?e (uo_key order) = Some a" and s: "ao_instrument a = s"
    using side_queue_active [OF reachable_ok assms(3)] assms(4) by auto
  from engine_update_spec [OF reachable_ok assms(2) act assms(1)] obtain d1 n1 r1
    where u: "(n1, r1) \<in> set (side_queue ?e s d1)" "ro_key r1 = uo_key order"
      "evs = ur_events (snd (spec_update order d1 n1 r1 (en_next_sequence ?e) (abs_book (book_of ?e s))))"
      "abs_engine e' = bump_engine (set_book s
         (fst (spec_update order d1 n1 r1 (en_next_sequence ?e) (abs_book (book_of ?e s)))) (abs_engine ?e))"
    unfolding s by metis
  have same: "d1 = d" "n1 = n" "r1 = r"
    using side_queue_key_unique [OF reachable_ok u(1) assms(3)] u(2) assms(4) by simp_all
  have keep: "keeps_priority order r" using assms(5,6) by (simp add: keeps_priority_def)
  have "executed evs = 0" using keep by (simp add: u(3) same spec_update_def Let_def)
  moreover have "side_queue e' s' d' =
      (if s' = s \<and> d' = d then resize_node n (uo_size order) (side_queue ?e s d) else side_queue ?e s' d')"
    using keep
    by (cases d; cases d') (simp_all add: side_queue_spec u(4) same spec_update_def Let_def spec_book_of_abs abs_book_def)
  ultimately show ?thesis by blast
qed


definition update_to :: "order_key \<Rightarrow> u64 \<Rightarrow> u64 \<Rightarrow> update_order" where
  "update_to k p q = \<lparr>uo_key = k, uo_pricing = Limit_order (Price p), uo_size = Quantity q\<rparr>"

definition two_bids :: "command list" where
  "two_bids = [Submit_command (limit_submit key1 Buy 100 5), Submit_command (limit_submit key2 Buy 100 7)]"

lemma reduce_keeps_priority_witness:
  "side_queue (fst (engine_update (update_to key1 100 3) (reachable_engine two_bids))) (Symbol_id 1) Buy =
     resize_node 0 (Quantity 3) (side_queue (reachable_engine two_bids) (Symbol_id 1) Buy)"
proof -
  let ?r = "snd (hd (side_queue (reachable_engine two_bids) (Symbol_id 1) Buy))"
  have run: "snd (engine_update (update_to key1 100 3) (reachable_engine two_bids)) =
      Inr [Update_accepted key1, Book_updated (Symbol_id 1) Buy (Some (Price 100)) 10]" by code_simp
  have mem: "(0, ?r) \<in> set (side_queue (reachable_engine two_bids) (Symbol_id 1) Buy)" by code_simp
  have "validate_update (update_to key1 100 3) = None" "ro_key ?r = uo_key (update_to key1 100 3)"
    "uo_pricing (update_to key1 100 3) = Limit_order (ro_limit_price ?r)"
    "uo_size (update_to key1 100 3) \<le> ro_open_size ?r" by code_simp+
  from reduce_keeps_priority [OF run_result [OF run] this(1) mem this(2,3,4)] show ?thesis
    by (simp add: update_to_def)
qed


text \<open>C17: a cancel of an active order removes exactly that order. Its node leaves its queue, every
  other queue of every symbol is unchanged, the key is no longer active, and the answer starts with
  the cancellation.\<close>

theorem cancel_removes_exactly_that_order:
  assumes "(n, r) \<in> set (side_queue (reachable_engine cs) s d)"
    and "engine_cancel \<lparr>co_key = ro_key r\<rparr> (reachable_engine cs) = (e', Inr evs)"
  shows "side_queue e' s' d' =
      (if s' = s \<and> d' = d then remove_node n (side_queue (reachable_engine cs) s d)
       else side_queue (reachable_engine cs) s' d') \<and>
    en_active_orders e' = (en_active_orders (reachable_engine cs))(ro_key r := None) \<and>
    (\<exists>updates. evs = Order_cancelled (ro_key r) # updates)"
proof -
  let ?e = "reachable_engine cs"
  note act = side_queue_active [OF reachable_ok assms(1)]
  have act': "en_active_orders ?e (co_key \<lparr>co_key = ro_key r\<rparr>) =
      Some \<lparr>ao_instrument = s, ao_handle = handle_of n r\<rparr>" using act by simp
  from engine_cancel_spec [OF reachable_ok act' assms(2)] obtain d1 n1 r1
    where u: "(n1, r1) \<in> set (side_queue ?e s d1)" "ro_key r1 = ro_key r"
      "evs = cr_events (snd (spec_cancel (ro_key r) d1 n1 (abs_book (book_of ?e s))))"
      "abs_engine e' = set_book s (fst (spec_cancel (ro_key r) d1 n1 (abs_book (book_of ?e s)))) (abs_engine ?e)"
    by (simp only: cancel_order.select_convs active_order.select_convs) blast
  have same: "d1 = d" "n1 = n"
    using side_queue_key_unique [OF reachable_ok u(1) assms(1)] u(2) by simp_all
  have "side_queue e' s' d' =
      (if s' = s \<and> d' = d then remove_node n (side_queue ?e s d) else side_queue ?e s' d')"
    by (cases d; cases d') (simp_all add: side_queue_spec u(4) same spec_cancel_def Let_def spec_book_of_abs abs_book_def)
  moreover obtain b b' where b: "en_books ?e s = Some b"
    and c: "cancel (ro_key r) (handle_of n r) b = (b', Inr (snd (spec_cancel (ro_key r) d n (abs_book b))))"
    using side_queue_book [OF assms(1)] engine_ok_book [OF reachable_ok] cancel_refines by metis
  have "en_active_orders e' = (en_active_orders ?e)(ro_key r := None)"
    using assms(2) act b c
    by (auto simp: engine_cancel_def record_cancel_result_def erase_active_def put_book_def spec_cancel_def
        Let_def find_book_def)
  ultimately show ?thesis by (simp add: u(3) spec_cancel_def Let_def)
qed

lemma cancel_removes_exactly_that_order_witness:
  "en_active_orders (fst (engine_cancel \<lparr>co_key = key1\<rparr> (reachable_engine two_bids))) =
     (en_active_orders (reachable_engine two_bids))(key1 := None)"
proof -
  let ?r = "snd (hd (side_queue (reachable_engine two_bids) (Symbol_id 1) Buy))"
  have mem: "(0, ?r) \<in> set (side_queue (reachable_engine two_bids) (Symbol_id 1) Buy)" by code_simp
  have key: "ro_key ?r = key1" by code_simp
  have run: "snd (engine_cancel \<lparr>co_key = ro_key ?r\<rparr> (reachable_engine two_bids)) =
      Inr [Order_cancelled key1, Book_updated (Symbol_id 1) Buy (Some (Price 100)) 7]" by code_simp
  from cancel_removes_exactly_that_order [OF mem run_result [OF run]] show ?thesis by (simp add: key)
qed

text \<open>The conditions of the two validations together with the index.\<close>

definition submit_refused :: "submit_order \<Rightarrow> engine \<Rightarrow> bool" where
  "submit_refused order e \<longleftrightarrow>
     user_value (ok_user (so_key order)) = 0 \<or> client_order_value (ok_client_order (so_key order)) = 0 \<or>
     symbol_value (so_instrument order) = 0 \<or> quantity_value (so_size order) = 0 \<or>
     en_active_orders e (so_key order) \<noteq> None"

definition update_refused :: "update_order \<Rightarrow> engine \<Rightarrow> bool" where
  "update_refused order e \<longleftrightarrow>
     user_value (ok_user (uo_key order)) = 0 \<or> client_order_value (ok_client_order (uo_key order)) = 0 \<or>
     quantity_value (uo_size order) = 0 \<or> uo_pricing order = Market_order \<or>
     en_active_orders e (uo_key order) = None"

definition is_rejection :: "event \<Rightarrow> bool" where
  "is_rejection ev \<longleftrightarrow> (case ev of Submit_rejected _ _ \<Rightarrow> True | Update_rejected _ _ \<Rightarrow> True | Cancel_rejected _ _ \<Rightarrow> True
     | _ \<Rightarrow> False)"

text \<open>What a command answers when it is refused with the rejection \<open>rej\<close>, or taken with the acceptance \<open>acc\<close>.\<close>

definition answers_as :: "bool \<Rightarrow> (string \<Rightarrow> event) \<Rightarrow> event \<Rightarrow> engine \<Rightarrow> engine \<times> event list outcome \<Rightarrow> bool" where
  "answers_as refused rej acc e answer \<longleftrightarrow>
     (\<exists>e' evs. answer = (e', Inr evs) \<and>
       (if refused then e' = e \<and> (\<exists>reason. evs = [rej reason])
        else \<exists>rest. evs = acc # rest \<and> \<not> list_ex is_rejection evs))"

lemma no_rejection [simp]:
  "\<not> list_ex is_rejection (trade_events k i ts)" "\<not> list_ex is_rejection (side_change d sb sb')"
  "\<not> is_rejection (Submit_accepted k)" "\<not> is_rejection (Update_accepted k)" "\<not> is_rejection (Order_cancelled k)"
  by (auto simp: is_rejection_def trade_events_def side_change_def top_change_def list_ex_iff split: if_splits)

lemma submit_answers:
  "answers_as (submit_refused s (reachable_engine cs)) (Submit_rejected (so_key s)) (Submit_accepted (so_key s))
     (reachable_engine cs) (engine_submit s (reachable_engine cs))"
proof (cases "submit_refused s (reachable_engine cs)")
  case True
  then show ?thesis
    by (auto simp: submit_refused_def engine_submit_def validate_submit_def reject_submit_def answers_as_def)
next
  case False
  then have free: "validate_submit s = None" "en_active_orders (reachable_engine cs) (so_key s) = None"
    by (auto simp: submit_refused_def validate_submit_def)
  obtain e' evs where run: "engine_submit s (reachable_engine cs) = (e', Inr evs)" using engine_submit_sim [OF reachable_ok] by metis
  show ?thesis using engine_submit_spec(2) [OF reachable_ok free run] False
    by (simp add: answers_as_def run spec_submit_def split: prod.splits)
qed

lemma update_answers:
  "answers_as (update_refused u (reachable_engine cs)) (Update_rejected (uo_key u)) (Update_accepted (uo_key u))
     (reachable_engine cs) (engine_update u (reachable_engine cs))"
proof (cases "update_refused u (reachable_engine cs)")
  case True
  then show ?thesis
    by (cases "uo_pricing u")
       (auto simp: update_refused_def engine_update_def validate_update_def reject_update_def answers_as_def)
next
  case False
  then obtain a where free: "validate_update u = None" "en_active_orders (reachable_engine cs) (uo_key u) = Some a"
    by (cases "uo_pricing u") (auto simp: update_refused_def validate_update_def)
  obtain e' evs where run: "engine_update u (reachable_engine cs) = (e', Inr evs)" using engine_update_sim [OF reachable_ok] by metis
  show ?thesis
    by (rule engine_update_spec [OF reachable_ok free run])
      (use False in \<open>simp add: answers_as_def run spec_update_def Let_def split: prod.splits\<close>)
qed

lemma cancel_answers:
  "answers_as (en_active_orders (reachable_engine cs) (co_key c) = None) (Cancel_rejected (co_key c)) (Order_cancelled (co_key c))
     (reachable_engine cs) (engine_cancel c (reachable_engine cs))"
proof (cases "en_active_orders (reachable_engine cs) (co_key c)")
  case None
  then show ?thesis by (auto simp: engine_cancel_def reject_cancel_def answers_as_def)
next
  case (Some a)
  obtain e' evs where run: "engine_cancel c (reachable_engine cs) = (e', Inr evs)" using engine_cancel_sim [OF reachable_ok] by metis
  show ?thesis
    by (rule engine_cancel_spec [OF reachable_ok Some run])
      (simp add: answers_as_def run spec_cancel_def Let_def Some)
qed

text \<open>C11: rejection. A submit is rejected exactly when the user id, the client order id, the symbol or
  the size is zero or the key is active, an update exactly when an id or the size is zero, the
  pricing is not a limit or the key is not active, and a cancel exactly when the key is not active. A
  rejected command answers with its one rejection event and leaves the whole engine as it was, the
  sequence counter included; any other command returns, answers with its acceptance first and with no
  rejection at all.\<close>

theorem rejections_change_nothing:
  "answers_as (submit_refused s (reachable_engine cs)) (Submit_rejected (so_key s)) (Submit_accepted (so_key s))
     (reachable_engine cs) (engine_submit s (reachable_engine cs)) \<and>
   answers_as (update_refused u (reachable_engine cs)) (Update_rejected (uo_key u)) (Update_accepted (uo_key u))
     (reachable_engine cs) (engine_update u (reachable_engine cs)) \<and>
   answers_as (en_active_orders (reachable_engine cs) (co_key c) = None) (Cancel_rejected (co_key c)) (Order_cancelled (co_key c))
     (reachable_engine cs) (engine_cancel c (reachable_engine cs))"
  using submit_answers update_answers cancel_answers by blast

text \<open>C18: a snapshot shows, on each side, the first \<open>depth\<close> price levels of the resting orders, best
  price first, each with the wrapped sum of its open sizes, and nothing for a symbol without a
  book.\<close>

theorem snapshot_shows_best_levels:
  "engine_snapshot s depth (reachable_engine cs) =
     (case en_books (reachable_engine cs) s of None \<Rightarrow> None
      | Some b \<Rightarrow> Some \<lparr>obs_instrument = s,
          obs_bids = take depth (ladder (side_queue (reachable_engine cs) s Buy)),
          obs_asks = take depth (ladder (side_queue (reachable_engine cs) s Sell))\<rparr>)"
proof (cases "en_books (reachable_engine cs) s")
  case None
  then show ?thesis by (simp add: engine_snapshot_def find_book_def)
next
  case (Some b)
  show ?thesis
    using snapshot_refines [OF engine_ok_book [OF reachable_ok Some]] engine_ok_instrument [OF reachable_ok Some]
    by (simp add: engine_snapshot_def find_book_def Some spec_snapshot_def side_queue_def book_of_def abs_book_def)
qed

lemma replay_follows_queue:
  "\<forall>s d. replay (concat (map reply_events (snd (engine_run cs initial_engine)))) s d =
     quote (side_queue (reachable_engine cs) s d)"
proof (induction rule: reachable_induct [where P = "\<lambda>cs e rs. \<forall>s d. replay (concat (map reply_events rs)) s d =
    quote (side_queue e s d)"])
  case initial
  have "side_queue initial_engine s d = []" for s d
    by (cases d) (simp_all add: side_queue_def book_of_def initial_engine_def make_order_book_def)
  then show ?case by (simp add: replay_def quote_def queue_top_def)
next
  case (step cs e rs c e' r)
  have inst: "\<forall>s. sb_instrument (spec_book_of (abs_engine e) s) = s"
    by (simp add: spec_book_of_abs book_of_instrument [OF step(3)])
  from spec_step_see [OF step(6) inst step(1) [unfolded side_queue_spec]]
  show ?case by (simp add: replay_def side_queue_spec)
qed

text \<open>C19: the \<open>book_updated\<close> events are enough to follow the top of the book. A reader that starts with
  empty sides and applies every event of every reply holds, for each symbol and side, the best
  price and the total at it, or an empty side.\<close>

theorem book_updates_replay_the_top:
  "replay (concat (map reply_events (snd (engine_run cs initial_engine)))) s d =
     quote (side_queue (reachable_engine cs) s d)"
  using replay_follows_queue by blast

text \<open>C20: no price level is empty, its orders all have its price and a positive open size, and its 64-bit
  total is the sum of the open sizes modulo 2 to the 64; as long as that sum fits, it is exact.\<close>

theorem level_totals:
  assumes "(p, l) \<in> set (side_levels d (book_of (reachable_engine cs) s))"
  shows "pl_orders l \<noteq> [] \<and>
    list_all (\<lambda>e. ro_limit_price (snd e) = p \<and> ro_direction (snd e) = d \<and> 0 < open_value (snd e)) (pl_orders l) \<and>
    unat (pl_total_size l) = open_sum (pl_orders l) mod 2 ^ 64"
proof -
  have "level_ok d p l"
    using book_ok_side [OF book_of_ok [OF reachable_ok], of d cs s] assms by (force simp: levels_ok_def)
  then show ?thesis by (simp add: level_ok_def list_all_iff unat_total_open)
qed

lemma level_totals_witness:
  "unat (pl_total_size (snd (hd (side_levels Buy (book_of (reachable_engine two_bids) (Symbol_id 1)))))) =
   open_sum (pl_orders (snd (hd (side_levels Buy (book_of (reachable_engine two_bids) (Symbol_id 1)))))) mod 2 ^ 64"
proof -
  let ?x = "hd (side_levels Buy (book_of (reachable_engine two_bids) (Symbol_id 1)))"
  have "(fst ?x, snd ?x) \<in> set (side_levels Buy (book_of (reachable_engine two_bids) (Symbol_id 1)))"
    unfolding prod.collapse by (rule hd_in_set) code_simp
  from level_totals [OF this] show ?thesis by blast
qed

text \<open>C22: the nested matching loops over levels and lists do what filling the flat priority queue from its
  front does. On well-formed levels, for any crossing test, they return normally with the same
  remaining quantity, remaining queue, trades in the same order and the same filled keys, and leave
  well-formed levels.\<close>

theorem matching_loops_consume_the_queue:
  assumes "levels_ok d ls"
  shows "\<exists>m ts. match_order instrument pricing can_cross
        \<lparr>sm_incoming = incoming, sm_levels = ls, sm_events = evs, sm_filled = []\<rparr> = (m, Inr ()) \<and>
      levels_ok d (sm_levels m) \<and>
      consume (can_cross pricing) (in_value incoming) (queue ls) =
        (in_value (sm_incoming m), queue (sm_levels m), ts, sm_filled m) \<and>
      sm_events m = evs @ trade_events (in_key incoming) instrument ts"
proof -
  obtain q' ys ts fs where c: "consume (can_cross pricing) (in_value incoming) (queue ls) = (q', ys, ts, fs)"
    by (metis prod_cases4)
  let ?s = "\<lparr>sm_incoming = incoming, sm_levels = ls, sm_events = evs, sm_filled = []\<rparr>"
  obtain ls' where "match_order instrument pricing can_cross ?s =
      (\<lparr>sm_incoming = with_size incoming q', sm_levels = ls',
        sm_events = evs @ trade_events (in_key incoming) instrument ts, sm_filled = fs\<rparr>, Inr ())"
    "levels_ok d ls'" "queue ls' = ys"
    using match_order_correct [of d ?s can_cross pricing q' ys ts fs instrument] assms c by auto
  with c show ?thesis by (intro exI [of _ ts] exI) (auto simp: with_size_simps)
qed

lemma matching_loops_consume_the_queue_witness:
  "\<exists>m ts. match_order (Symbol_id 1) (Limit_order (Price 100)) can_sell_cross
        \<lparr>sm_incoming = \<lparr>in_key = key3, in_direction = Sell, in_open_size = Quantity 6, in_sequence = Sequence_number 3\<rparr>,
         sm_levels = side_levels Buy (book_of (reachable_engine two_bids) (Symbol_id 1)), sm_events = [], sm_filled = []\<rparr> =
      (m, Inr ()) \<and>
    levels_ok Buy (sm_levels m) \<and>
    consume (can_sell_cross (Limit_order (Price 100))) 6
        (queue (side_levels Buy (book_of (reachable_engine two_bids) (Symbol_id 1)))) =
      (in_value (sm_incoming m), queue (sm_levels m), ts, sm_filled m) \<and>
    sm_events m = [] @ trade_events key3 (Symbol_id 1) ts"
proof -
  have "levels_ok Buy (side_levels Buy (book_of (reachable_engine two_bids) (Symbol_id 1)))" by code_simp
  from matching_loops_consume_the_queue [OF this, of "Symbol_id 1" "Limit_order (Price 100)" can_sell_cross
      "\<lparr>in_key = key3, in_direction = Sell, in_open_size = Quantity 6, in_sequence = Sequence_number 3\<rparr>" "[]"]
  show ?thesis by (simp add: in_value_def)
qed

end
