(* ===== verification/Codec.thy ===== *)
theory Codec
  imports Prelude
begin

text \<open>
  The market-data messages and their codec
  (\<^verbatim>\<open>components/market_data/protocol\<close>: \<^verbatim>\<open>messages.hpp\<close>, \<^verbatim>\<open>codec.hpp\<close>, \<^verbatim>\<open>codec.cpp\<close>). The byte order
  comes from \<^verbatim>\<open>obz/endian.hpp\<close> of the external ObzLib, so \<^verbatim>\<open>write_be\<close> and \<^verbatim>\<open>read_be\<close> are a parameter
  \<open>ops\<close> of every definition that uses them; the locale \<open>endian\<close> states what the codec relies on, and
  it is interpreted on network byte order.
\<close>

datatype md_side = Md_buy | Md_sell
datatype md_symbol_id = Md_symbol_id (md_symbol_value: u32)

record book_update =
  bu_instrument :: md_symbol_id
  bu_direction :: md_side
  bu_best_price :: "u64 option"
  bu_aggregate_size :: u64

datatype message = Book_update_message book_update

record packet =
  pk_sequence :: u64
  pk_payload :: message

datatype decode_error =
    Header_truncated
  | Invalid_signature
  | Unsupported_version
  | Unknown_message_type
  | Invalid_sequence
  | Body_truncated
  | Body_length_mismatch
  | Invalid_symbol
  | Invalid_side
  | Invalid_flags
  | Invalid_book_state

definition protocol_version :: u16 where "protocol_version = 2"
definition book_updated_type :: u16 where "book_updated_type = 1"
definition header_signature :: u32 where "header_signature = 0x4f425a4d"
definition header_size :: nat where "header_size = 16"
definition book_update_size :: nat where "book_update_size = 22"
definition has_price_flag :: u8 where "has_price_flag = 1"

subsection \<open>The endian operations of ObzLib\<close>

record endian_ops =
  write_be8 :: "u8 \<Rightarrow> u8 list"
  write_be16 :: "u16 \<Rightarrow> u8 list"
  write_be32 :: "u32 \<Rightarrow> u8 list"
  write_be64 :: "u64 \<Rightarrow> u8 list"
  read_be8 :: "u8 list \<Rightarrow> u8"
  read_be16 :: "u8 list \<Rightarrow> u16"
  read_be32 :: "u8 list \<Rightarrow> u32"
  read_be64 :: "u8 list \<Rightarrow> u64"

text \<open>
  One width: writing takes \<open>n\<close> bytes, reading looks at the first \<open>n\<close> bytes only, and the two are
  inverse to each other.
\<close>

locale fixed_width =
  fixes n :: nat and encode_field :: "'a \<Rightarrow> u8 list" and decode_field :: "u8 list \<Rightarrow> 'a"
  assumes encode_length: "length (encode_field v) = n"
    and decode_encode_field: "decode_field (encode_field v @ rest) = v"
    and encode_decode_field: "n \<le> length bs \<Longrightarrow> encode_field (decode_field bs) = take n bs"
begin

lemma drop_encoded: "drop n (encode_field v @ rest) = rest"
  by (simp add: encode_length)

lemma decode_eq: "n \<le> length bs \<Longrightarrow> decode_field bs = v \<longleftrightarrow> take n bs = encode_field v"
proof
  assume "n \<le> length bs" "take n bs = encode_field v"
  then have "decode_field (encode_field v @ drop n bs) = decode_field bs"
    by (metis append_take_drop_id)
  then show "decode_field bs = v" by (simp add: decode_encode_field)
qed (simp add: encode_decode_field [symmetric])

end

locale endian =
  w8: fixed_width 1 "write_be8 ops" "read_be8 ops" +
  w16: fixed_width 2 "write_be16 ops" "read_be16 ops" +
  w32: fixed_width 4 "write_be32 ops" "read_be32 ops" +
  w64: fixed_width 8 "write_be64 ops" "read_be64 ops"
  for ops :: endian_ops

subsection \<open>Network byte order\<close>

fun be_digits :: "nat \<Rightarrow> int \<Rightarrow> u8 list" where
  "be_digits 0 x = []"
| "be_digits (Suc n) x = be_digits n (x div 256) @ [word_of_int x]"

definition be_value :: "u8 list \<Rightarrow> int" where
  "be_value bs = foldl (\<lambda>a b. 256 * a + uint b) 0 bs"

lemma be_value_snoc [simp]: "be_value [] = 0" "be_value (bs @ [b]) = 256 * be_value bs + uint b"
  by (simp_all add: be_value_def)

lemma length_be_digits [simp]: "length (be_digits n x) = n"
  by (induction n x rule: be_digits.induct) simp_all

lemma uint_word_mod: "uint (word_of_int x :: 'a::len word) = x mod 2 ^ LENGTH('a)"
  by (simp add: uint_word_of_int_eq take_bit_eq_mod)

lemma uint_byte: "0 \<le> uint (b :: u8)" "uint (b :: u8) < 256"
  using uint_lt2p [of b] by simp_all

lemma be_value_digits: "0 \<le> x \<Longrightarrow> be_value (be_digits n x) = x mod 256 ^ n"
proof (induction n x rule: be_digits.induct)
  case (2 n x)
  have "uint (word_of_int x :: u8) = x mod 256" by (simp add: uint_word_mod)
  with 2 show ?case by (simp add: mod_mult2_eq' zmod_zmult2_eq)
qed simp

lemma be_value_bounds: "0 \<le> be_value bs \<and> be_value bs < 256 ^ length bs"
proof (induction bs rule: rev_induct)
  case (snoc b bs)
  with uint_byte [of b] show ?case by simp
qed simp

lemma be_digits_value: "be_digits (length bs) (be_value bs) = bs"
proof (induction bs rule: rev_induct)
  case (snoc b bs)
  have "(256 * be_value bs + uint b) div 256 = be_value bs" using uint_byte [of b] by simp
  moreover have "uint (word_of_int (256 * be_value bs + uint b) :: u8) = uint b"
    using uint_word_mod [where 'a = 8, of "256 * be_value bs + uint b"] uint_byte [of b]
    by (simp del: of_int_add)
  then have "(word_of_int (256 * be_value bs + uint b) :: u8) = b" by (simp only: word_uint_eq_iff)
  ultimately show ?case using snoc by simp
qed simp

definition be_write :: "nat \<Rightarrow> 'a::len word \<Rightarrow> u8 list" where
  "be_write n v = be_digits n (uint v)"

definition be_read :: "nat \<Rightarrow> u8 list \<Rightarrow> 'a::len word" where
  "be_read n bs = word_of_int (be_value (take n bs))"

lemma be_fixed_width:
  assumes "LENGTH('a::len) = 8 * n"
  shows "fixed_width n (be_write n :: 'a word \<Rightarrow> u8 list) (be_read n)"
proof
  have pow: "(256 :: int) ^ n = 2 ^ LENGTH('a)" by (simp add: assms power_mult)
  fix v :: "'a word" and rest bs :: "u8 list"
  show "length (be_write n v) = n" by (simp add: be_write_def)
  show "be_read n (be_write n v @ rest) = v"
    using uint_lt2p [of v] by (simp add: be_read_def be_write_def be_value_digits pow)
  assume n: "n \<le> length bs"
  have "uint (word_of_int (be_value (take n bs)) :: 'a word) = be_value (take n bs)"
    using be_value_bounds [of "take n bs"] n by (simp add: uint_word_mod pow)
  then show "be_write n (be_read n bs :: 'a word) = take n bs"
    using be_digits_value [of "take n bs"] n by (simp add: be_write_def be_read_def)
qed

definition network_order :: endian_ops where
  "network_order =
     \<lparr>write_be8 = be_write 1, write_be16 = be_write 2, write_be32 = be_write 4, write_be64 = be_write 8,
      read_be8 = be_read 1, read_be16 = be_read 2, read_be32 = be_read 4, read_be64 = be_read 8\<rparr>"

interpretation network: endian network_order
  unfolding endian_def network_order_def endian_ops.select_convs
  by (intro conjI be_fixed_width) simp_all

subsection \<open>Encoding\<close>

text \<open>
  \<^verbatim>\<open>std::span\<close> over the packet's buffer: the buffer with the offset at which the span starts. A
  write through the span replaces bytes of the buffer, \<^verbatim>\<open>subspan\<close> moves the offset.
\<close>

type_synonym destination = "u8 list \<times> nat"

definition write_and_advance :: "('a \<Rightarrow> u8 list) \<Rightarrow> nat \<Rightarrow> 'a \<Rightarrow> destination \<Rightarrow> destination" where
  "write_and_advance write_be width value =
     (\<lambda>(buffer, offset).
        (take offset buffer @ write_be value @ drop (offset + width) buffer, offset + width))"

definition encode_header :: "endian_ops \<Rightarrow> u16 \<Rightarrow> u64 \<Rightarrow> destination \<Rightarrow> destination" where
  "encode_header ops type sequence destination =
     (let d1 = write_and_advance (write_be32 ops) 4 header_signature destination;
          d2 = write_and_advance (write_be16 ops) 2 protocol_version d1;
          d3 = write_and_advance (write_be16 ops) 2 type d2
      in write_and_advance (write_be64 ops) 8 sequence d3)"

definition encoded_side :: "md_side \<Rightarrow> u8" where
  "encoded_side d = (case d of Md_buy \<Rightarrow> 0 | Md_sell \<Rightarrow> 1)"

definition encode_book_update :: "endian_ops \<Rightarrow> book_update \<Rightarrow> u64 \<Rightarrow> u8 list outcome" where
  "encode_book_update ops update sequence =
     (if md_symbol_value (bu_instrument update) = 0
        then Inl (Invalid_argument ''book update symbol id must be non-zero'')
      else if bu_best_price update = Some 0
        then Inl (Invalid_argument ''book update price must be positive'')
      else if (bu_best_price update \<noteq> None) \<noteq> (bu_aggregate_size update > 0)
        then Inl (Invalid_argument ''book update must pair a price with positive aggregate size'')
      else
        (let bytes = replicate (header_size + book_update_size) 0;
             (bytes1, _) = encode_header ops book_updated_type sequence (bytes, 0);
             d1 = write_and_advance (write_be8 ops) 1 (encoded_side (bu_direction update))
                    (bytes1, header_size);
             d2 = write_and_advance (write_be8 ops) 1
                    (if bu_best_price update \<noteq> None then has_price_flag else 0) d1;
             d3 = write_and_advance (write_be64 ops) 8
                    (case bu_best_price update of Some p \<Rightarrow> p | None \<Rightarrow> 0) d2;
             d4 = write_and_advance (write_be64 ops) 8 (bu_aggregate_size update) d3;
             (bytes2, _) = write_and_advance (write_be32 ops) 4 (md_symbol_value (bu_instrument update)) d4
         in Inr bytes2))"

definition encode :: "endian_ops \<Rightarrow> packet \<Rightarrow> u8 list outcome" where
  "encode ops p =
     (if pk_sequence p = 0
        then Inl (Invalid_argument ''market-data sequence must be positive'')
      else case pk_payload p of
          Book_update_message update \<Rightarrow> encode_book_update ops update (pk_sequence p))"

subsection \<open>Decoding\<close>

definition read_and_advance :: "(u8 list \<Rightarrow> 'a) \<Rightarrow> nat \<Rightarrow> u8 list \<Rightarrow> 'a \<times> u8 list" where
  "read_and_advance read_be width source = (read_be source, drop width source)"

record decoded_header =
  dh_encoded_message_type :: u16
  dh_sequence :: u64

definition decode_header :: "endian_ops \<Rightarrow> u8 list \<Rightarrow> decode_error + decoded_header" where
  "decode_header ops bytes =
     (if length bytes < header_size then Inl Header_truncated
      else
        (let source = take header_size bytes;
             (signature, source1) = read_and_advance (read_be32 ops) 4 source
         in if signature \<noteq> header_signature then Inl Invalid_signature
            else
              (let (version, source2) = read_and_advance (read_be16 ops) 2 source1
               in if version \<noteq> protocol_version then Inl Unsupported_version
                  else
                    (let (encoded_message_type, source3) = read_and_advance (read_be16 ops) 2 source2;
                         (sequence, _) = read_and_advance (read_be64 ops) 8 source3
                     in if sequence = 0 then Inl Invalid_sequence
                        else Inr \<lparr>dh_encoded_message_type = encoded_message_type,
                                  dh_sequence = sequence\<rparr>))))"

definition decode_book_update :: "endian_ops \<Rightarrow> u8 list \<Rightarrow> u64 \<Rightarrow> decode_error + packet" where
  "decode_book_update ops body sequence =
     (if length body < book_update_size then Inl Body_truncated
      else if length body \<noteq> book_update_size then Inl Body_length_mismatch
      else
        (let (side_byte, source1) = read_and_advance (read_be8 ops) 1 body
         in case (if side_byte = 0 then Some Md_buy else if side_byte = 1 then Some Md_sell else None) of
              None \<Rightarrow> Inl Invalid_side
            | Some decoded_side \<Rightarrow>
                (let (encoded_flags, source2) = read_and_advance (read_be8 ops) 1 source1
                 in if and encoded_flags (not has_price_flag) \<noteq> 0 then Inl Invalid_flags
                    else
                      (let has_price = (and encoded_flags has_price_flag \<noteq> 0);
                           (encoded_price, source3) = read_and_advance (read_be64 ops) 8 source2
                       in if has_price \<noteq> (encoded_price > 0) then Inl Invalid_book_state
                          else
                            (let best_price = (if has_price then Some encoded_price else None);
                                 (aggregate_size, source4) = read_and_advance (read_be64 ops) 8 source3
                             in if has_price \<noteq> (aggregate_size > 0) then Inl Invalid_book_state
                                else
                                  (let (instrument, _) = read_and_advance (read_be32 ops) 4 source4
                                   in if instrument = 0 then Inl Invalid_symbol
                                      else Inr \<lparr>pk_sequence = sequence,
                                        pk_payload = Book_update_message
                                          \<lparr>bu_instrument = Md_symbol_id instrument,
                                           bu_direction = decoded_side,
                                           bu_best_price = best_price,
                                           bu_aggregate_size = aggregate_size\<rparr>\<rparr>))))))"

definition decode :: "endian_ops \<Rightarrow> u8 list \<Rightarrow> decode_error + packet" where
  "decode ops bytes =
     (case decode_header ops bytes of
        Inl e \<Rightarrow> Inl e
      | Inr header \<Rightarrow>
          (let body = drop header_size bytes
           in if dh_encoded_message_type header = book_updated_type
              then decode_book_update ops body (dh_sequence header)
              else Inl Unknown_message_type))"

fun decode_error_to_string :: "decode_error \<Rightarrow> string" where
  "decode_error_to_string Header_truncated = ''header_truncated''"
| "decode_error_to_string Invalid_signature = ''invalid_signature''"
| "decode_error_to_string Unsupported_version = ''unsupported_version''"
| "decode_error_to_string Unknown_message_type = ''unknown_message_type''"
| "decode_error_to_string Invalid_sequence = ''invalid_sequence''"
| "decode_error_to_string Body_truncated = ''body_truncated''"
| "decode_error_to_string Body_length_mismatch = ''body_length_mismatch''"
| "decode_error_to_string Invalid_symbol = ''invalid_symbol''"
| "decode_error_to_string Invalid_side = ''invalid_side''"
| "decode_error_to_string Invalid_flags = ''invalid_flags''"
| "decode_error_to_string Invalid_book_state = ''invalid_book_state''"

subsection \<open>What the codec puts on the wire\<close>

definition update_valid :: "book_update \<Rightarrow> bool" where
  "update_valid u \<longleftrightarrow> md_symbol_value (bu_instrument u) \<noteq> 0 \<and> bu_best_price u \<noteq> Some 0 \<and>
     (bu_best_price u \<noteq> None) = (bu_aggregate_size u > 0)"

definition wire_header :: "endian_ops \<Rightarrow> u64 \<Rightarrow> u8 list" where
  "wire_header ops sequence =
     write_be32 ops header_signature @ write_be16 ops protocol_version @
     write_be16 ops book_updated_type @ write_be64 ops sequence"

definition wire_update :: "endian_ops \<Rightarrow> book_update \<Rightarrow> u8 list" where
  "wire_update ops u =
     write_be8 ops (encoded_side (bu_direction u)) @
     write_be8 ops (if bu_best_price u \<noteq> None then has_price_flag else 0) @
     write_be64 ops (case bu_best_price u of Some p \<Rightarrow> p | None \<Rightarrow> 0) @
     write_be64 ops (bu_aggregate_size u) @ write_be32 ops (md_symbol_value (bu_instrument u))"

lemmas layout_defs = header_size_def book_update_size_def

context fixed_width
begin

lemma write_field:
  "offset = length pre \<Longrightarrow> write_and_advance encode_field n v (pre @ blank, offset) =
     (pre @ encode_field v @ drop n blank, offset + n)"
  by (simp add: write_and_advance_def encode_length)

lemma read_field:
  "read_and_advance decode_field n (encode_field v @ rest) = (v, rest)"
  by (simp add: read_and_advance_def decode_encode_field encode_length)

end

context endian
begin

lemmas field_lengths = w8.encode_length w16.encode_length w32.encode_length w64.encode_length
lemmas write_fields = w8.write_field w16.write_field w32.write_field w64.write_field
lemmas read_fields = w8.read_field w16.read_field w32.read_field w64.read_field

lemma wire_header_length: "length (wire_header ops sequence) = header_size"
  by (simp add: wire_header_def field_lengths layout_defs)

lemma wire_update_length: "length (wire_update ops u) = book_update_size"
  by (simp add: wire_update_def field_lengths layout_defs)

lemma encode_header_wire:
  assumes "header_size \<le> length blank"
  shows "encode_header ops book_updated_type sequence (blank, 0) =
    (wire_header ops sequence @ drop header_size blank, header_size)"
proof -
  have "encode_header ops book_updated_type sequence ([] @ blank, 0) =
    (wire_header ops sequence @ drop header_size blank, header_size)"
    unfolding encode_header_def Let_def wire_header_def
    by (subst w32.write_field, simp, subst append.assoc [symmetric],
        subst w16.write_field, simp add: field_lengths, subst append.assoc [symmetric],
        subst w16.write_field, simp add: field_lengths, subst append.assoc [symmetric],
        subst w64.write_field, simp add: field_lengths) (simp add: layout_defs)
  then show ?thesis by simp
qed

lemma encode_book_update_wire:
  "update_valid u \<Longrightarrow> encode_book_update ops u sequence = Inr (wire_header ops sequence @ wire_update ops u)"
proof -
  assume "update_valid u"
  moreover have "write_and_advance (write_be32 ops) 4 (md_symbol_value (bu_instrument u))
      (write_and_advance (write_be64 ops) 8 (bu_aggregate_size u)
      (write_and_advance (write_be64 ops) 8 (case bu_best_price u of Some p \<Rightarrow> p | None \<Rightarrow> 0)
      (write_and_advance (write_be8 ops) 1 (if bu_best_price u \<noteq> None then has_price_flag else 0)
      (write_and_advance (write_be8 ops) 1 (encoded_side (bu_direction u))
         (wire_header ops sequence @ replicate 22 0, header_size))))) =
      (wire_header ops sequence @ wire_update ops u, 38)"
    unfolding wire_update_def
    by (subst w8.write_field, simp add: wire_header_length, subst append.assoc [symmetric],
        subst w8.write_field, simp add: wire_header_length field_lengths, subst append.assoc [symmetric],
        subst w64.write_field, simp add: wire_header_length field_lengths, subst append.assoc [symmetric],
        subst w64.write_field, simp add: wire_header_length field_lengths, subst append.assoc [symmetric],
        subst w32.write_field, simp add: wire_header_length field_lengths) (simp add: layout_defs)
  ultimately show ?thesis
    by (auto simp: encode_book_update_def update_valid_def Let_def encode_header_wire layout_defs)
qed

lemma decode_header_wire:
  "sequence \<noteq> 0 \<Longrightarrow> decode_header ops (wire_header ops sequence @ body) =
     Inr \<lparr>dh_encoded_message_type = book_updated_type, dh_sequence = sequence\<rparr>"
  using read_fields(4) [of sequence "[]"]
  by (simp add: decode_header_def wire_header_length) (simp add: wire_header_def read_fields)

lemma decode_book_update_wire:
  assumes "update_valid u"
  shows "decode_book_update ops (wire_update ops u) sequence =
     Inr \<lparr>pk_sequence = sequence, pk_payload = Book_update_message u\<rparr>"
proof -
  have flags: "and (1 :: u8) (not 1) = 0" "and (1 :: u8) 1 \<noteq> 0" by simp_all
  show ?thesis
    using assms read_fields(3) [of "md_symbol_value (bu_instrument u)" "[]"]
    by (cases "bu_direction u"; cases "bu_best_price u"; cases u; cases "bu_instrument u")
       (simp_all add: decode_book_update_def wire_update_length Let_def del: One_nat_def,
        auto simp: wire_update_def read_fields update_valid_def encoded_side_def has_price_flag_def
          word_neq_0_conv [symmetric] simp del: One_nat_def)
qed

lemma header_fields:
  "length xs = 16 \<Longrightarrow> xs = take 4 xs @ take 2 (drop 4 xs) @ take 2 (drop 6 xs) @ take 8 (drop 8 xs)"
  using take_add [of 4 12 xs] take_add [of 2 10 "drop 4 xs"] take_add [of 2 8 "drop 6 xs"] by simp

lemma body_fields:
  "length xs = 22 \<Longrightarrow> xs = take 1 xs @ take 1 (drop 1 xs) @ take 8 (drop 2 xs) @ take 8 (drop 10 xs) @ take 4 (drop 18 xs)"
  using take_add [of 1 21 xs] take_add [of 1 20 "drop 1 xs"] take_add [of 8 12 "drop 2 xs"]
    take_add [of 8 4 "drop 10 xs"] by (simp add: numeral_2_eq_2)

text \<open>Reading back what was read gives the bytes: the decoder accepts canonical bytes only.\<close>

lemmas reread = w8.encode_decode_field w16.encode_decode_field w32.encode_decode_field w64.encode_decode_field

lemma header_reread:
  "length xs = 16 \<Longrightarrow> write_be32 ops (read_be32 ops xs) @ write_be16 ops (read_be16 ops (drop 4 xs)) @
     write_be16 ops (read_be16 ops (drop 6 xs)) @ write_be64 ops (read_be64 ops (drop 8 xs)) = xs"
  using header_fields [of xs] by (simp add: reread)

lemma decode_header_sound:
  assumes "decode_header ops bytes = Inr h"
  shows "take header_size bytes =
      write_be32 ops header_signature @ write_be16 ops protocol_version @
      write_be16 ops (dh_encoded_message_type h) @ write_be64 ops (dh_sequence h)"
    "dh_sequence h \<noteq> 0" "header_size \<le> length bytes"
proof -
  let ?s = "take header_size bytes"
  have len: "header_size \<le> length bytes" using assms by (auto simp: decode_header_def split: if_splits)
  then have l: "length ?s = 16" by (simp add: header_size_def)
  have h: "read_be32 ops ?s = header_signature" "read_be16 ops (drop 4 ?s) = protocol_version"
    "read_be16 ops (drop 6 ?s) = dh_encoded_message_type h" "read_be64 ops (drop 8 ?s) = dh_sequence h"
    "dh_sequence h \<noteq> 0"
    using assms by (auto simp: decode_header_def read_and_advance_def Let_def split: if_splits)
  from header_reread [OF l] have "?s = write_be32 ops header_signature @ write_be16 ops protocol_version @
      write_be16 ops (dh_encoded_message_type h) @ write_be64 ops (dh_sequence h)"
    unfolding h by (rule sym)
  then show "?s = write_be32 ops header_signature @ write_be16 ops protocol_version @
      write_be16 ops (dh_encoded_message_type h) @ write_be64 ops (dh_sequence h)" .
  show "dh_sequence h \<noteq> 0" "header_size \<le> length bytes" by fact+
qed

lemma flag_bits: "and f (not (1 :: u8)) = 0 \<Longrightarrow> f = (if and f 1 \<noteq> 0 then 1 else 0)"
proof -
  assume 0: "and f (not (1 :: u8)) = 0"
  have "f = or (and f 1) (and f (not 1))" by (rule bit_word_eqI) (auto simp: bit_simps)
  then have f: "f = and f 1" using 0 by simp
  moreover have "and f 1 = f mod 2" by (rule and_one_eq)
  ultimately show ?thesis by (metis odd_iff_mod_2_eq_one even_iff_mod_2_eq_zero)
qed

lemma decode_book_update_sound:
  assumes "decode_book_update ops body sequence = Inr p"
  obtains u where "p = \<lparr>pk_sequence = sequence, pk_payload = Book_update_message u\<rparr>"
    "update_valid u" "body = wire_update ops u"
proof -
  have l: "length body = 22"
    using assms by (auto simp: decode_book_update_def book_update_size_def split: if_splits)
  let ?side = "read_be8 ops body" and ?flags = "read_be8 ops (drop 1 body)"
  let ?price = "read_be64 ops (drop 2 body)" and ?size = "read_be64 ops (drop 10 body)"
  let ?inst = "read_be32 ops (drop 18 body)"
  obtain d where d: "?side = encoded_side d"
    and f: "and ?flags (not 1) = 0" and pr: "(and ?flags 1 \<noteq> 0) = (0 < ?price)"
    and sz: "(and ?flags 1 \<noteq> 0) = (0 < ?size)" and inst: "?inst \<noteq> 0"
    and p: "p = \<lparr>pk_sequence = sequence, pk_payload = Book_update_message
      \<lparr>bu_instrument = Md_symbol_id ?inst, bu_direction = d,
       bu_best_price = (if and ?flags 1 \<noteq> 0 then Some ?price else None), bu_aggregate_size = ?size\<rparr>\<rparr>"
    using assms
    by (auto simp: decode_book_update_def read_and_advance_def Let_def has_price_flag_def encoded_side_def
        word_neq_0_conv numeral_2_eq_2 split: if_splits option.splits md_side.splits)
  let ?u = "\<lparr>bu_instrument = Md_symbol_id ?inst, bu_direction = d,
       bu_best_price = (if and ?flags 1 \<noteq> 0 then Some ?price else None), bu_aggregate_size = ?size\<rparr>"
  have v: "update_valid ?u" using pr sz inst by (auto simp: update_valid_def)
  have flags: "(if bu_best_price ?u \<noteq> None then has_price_flag else 0) = ?flags"
    using flag_bits [OF f] by (auto simp: has_price_flag_def)
  have price: "(case bu_best_price ?u of Some p \<Rightarrow> p | None \<Rightarrow> 0) = ?price"
    using pr by (auto simp: word_neq_0_conv)
  have "wire_update ops ?u = take 1 body @ take 1 (drop 1 body) @ take 8 (drop 2 body) @
      take 8 (drop 10 body) @ take 4 (drop 18 body)"
    unfolding wire_update_def flags price using d [symmetric]
    by (simp add: reread l del: One_nat_def)
  also have "\<dots> = body"
    using l by (rule body_fields [symmetric])
  finally show ?thesis using that [OF p v] by simp
qed

lemma decode_sound:
  assumes "decode ops bytes = Inr p"
  obtains u where "pk_payload p = Book_update_message u" "update_valid u" "pk_sequence p \<noteq> 0"
    "bytes = wire_header ops (pk_sequence p) @ wire_update ops u"
proof -
  obtain h where h: "decode_header ops bytes = Inr h" "dh_encoded_message_type h = book_updated_type"
    "decode_book_update ops (drop header_size bytes) (dh_sequence h) = Inr p"
    using assms by (auto simp: decode_def Let_def split: sum.splits if_splits)
  from decode_book_update_sound [OF h(3)] obtain u where
    u: "p = \<lparr>pk_sequence = dh_sequence h, pk_payload = Book_update_message u\<rparr>"
      "update_valid u" "drop header_size bytes = wire_update ops u" .
  have "bytes = take header_size bytes @ drop header_size bytes" by simp
  also have "\<dots> = wire_header ops (dh_sequence h) @ wire_update ops u"
    unfolding decode_header_sound(1) [OF h(1)] u(3) by (simp add: wire_header_def h(2))
  finally show ?thesis using that u decode_header_sound(2) [OF h(1)] by simp
qed

lemma decode_wire:
  "sequence \<noteq> 0 \<Longrightarrow> update_valid u \<Longrightarrow>
   decode ops (wire_header ops sequence @ wire_update ops u) =
     Inr \<lparr>pk_sequence = sequence, pk_payload = Book_update_message u\<rparr>"
proof -
  assume a: "sequence \<noteq> 0" "update_valid u"
  have "drop header_size (wire_header ops sequence @ wire_update ops u) = wire_update ops u"
    by (simp add: wire_header_length)
  then show ?thesis
    by (simp only: decode_def decode_header_wire [OF a(1)] decode_book_update_wire [OF a(2)] Let_def) simp
qed

lemma encode_wire:
  "pk_sequence p \<noteq> 0 \<Longrightarrow> pk_payload p = Book_update_message u \<Longrightarrow> update_valid u \<Longrightarrow>
   encode ops p = Inr (wire_header ops (pk_sequence p) @ wire_update ops u)"
  by (simp add: encode_def encode_book_update_wire)

lemma encode_Inr:
  assumes "encode ops p = Inr bytes"
  obtains u where "pk_payload p = Book_update_message u" "pk_sequence p \<noteq> 0" "update_valid u"
    "bytes = wire_header ops (pk_sequence p) @ wire_update ops u"
proof -
  obtain u where u: "pk_payload p = Book_update_message u" by (cases "pk_payload p") auto
  have "pk_sequence p \<noteq> 0" "update_valid u"
    using assms u by (auto simp: encode_def encode_book_update_def update_valid_def word_neq_0_conv split: if_splits)
  with u encode_wire [OF this(1) u this(2)] assms that show ?thesis by simp
qed

lemma decode_encoded:
  assumes "encode ops p = Inr bytes"
  shows "decode ops bytes = Inr p" "length bytes = 38"
proof -
  from encode_Inr [OF assms] obtain u where u: "pk_payload p = Book_update_message u"
    "pk_sequence p \<noteq> 0" "update_valid u" "bytes = wire_header ops (pk_sequence p) @ wire_update ops u" .
  show "decode ops bytes = Inr p" using decode_wire [OF u(2,3)] by (simp add: u(4) u(1) [symmetric])
  show "length bytes = 38" by (simp add: u(4) wire_header_length wire_update_length layout_defs)
qed

end

end
