(* ===== verification/Codec_Properties.thy ===== *)
theory Codec_Properties
  imports Codec
begin

text \<open>
  The properties of the market-data codec. Where they depend on the byte order of ObzLib they assume
  its contract \<open>endian\<close> only, which network byte order satisfies.
\<close>

definition sample_packet :: packet where
  "sample_packet = \<lparr>pk_sequence = 7, pk_payload = Book_update_message
     \<lparr>bu_instrument = Md_symbol_id 3, bu_direction = Md_sell, bu_best_price = Some 101,
      bu_aggregate_size = 12\<rparr>\<rparr>"

definition sample_bytes :: "u8 list" where
  "sample_bytes = [0x4f, 0x42, 0x5a, 0x4d, 0, 2, 0, 1, 0, 0, 0, 0, 0, 0, 0, 7,
     1, 1, 0, 0, 0, 0, 0, 0, 0, 101, 0, 0, 0, 0, 0, 0, 0, 12, 0, 0, 0, 3]"

lemma sample_encoded: "encode network_order sample_packet = Inr sample_bytes"
  by code_simp

text \<open>C6: encoding and decoding are inverse to each other. A datagram decodes to a packet exactly when the
  packet encodes to that datagram, so every encoded packet is read back unchanged and the decoder
  accepts no other bytes for it.\<close>

theorem decode_iff_encode:
  assumes "endian ops"
  shows "decode ops bytes = Inr p \<longleftrightarrow> encode ops p = Inr bytes"
proof
  assume "decode ops bytes = Inr p"
  then show "encode ops p = Inr bytes"
    by (rule endian.decode_sound [OF assms]) (simp add: endian.encode_wire [OF assms])
next
  assume "encode ops p = Inr bytes"
  then show "decode ops bytes = Inr p"
    by (rule endian.encode_Inr [OF assms]) (simp add: endian.decode_wire [OF assms])
qed

lemma decode_iff_encode_witness: "decode network_order sample_bytes = Inr sample_packet"
  using decode_iff_encode [OF network.endian_axioms, of sample_bytes sample_packet] sample_encoded by simp

text \<open>C23: the wire layout of version 2 in network byte order, field by field, for every packet that may
  be sent; every other packet is refused with \<open>invalid_argument\<close>.\<close>

theorem wire_layout:
  "encode network_order \<lparr>pk_sequence = sequence, pk_payload = Book_update_message u\<rparr> =
     (if sequence = 0 then Inl (Invalid_argument ''market-data sequence must be positive'')
      else if md_symbol_value (bu_instrument u) = 0
        then Inl (Invalid_argument ''book update symbol id must be non-zero'')
      else if bu_best_price u = Some 0 then Inl (Invalid_argument ''book update price must be positive'')
      else if (bu_best_price u = None) = (bu_aggregate_size u > 0)
        then Inl (Invalid_argument ''book update must pair a price with positive aggregate size'')
      else Inr ([0x4f, 0x42, 0x5a, 0x4d, 0, 2, 0, 1] @ be_write 8 sequence @
        [case bu_direction u of Md_buy \<Rightarrow> 0 | Md_sell \<Rightarrow> 1] @
        (case bu_best_price u of None \<Rightarrow> 0 # replicate 8 0 | Some p \<Rightarrow> 1 # be_write 8 p) @
        be_write 8 (bu_aggregate_size u) @ be_write 4 (md_symbol_value (bu_instrument u))))"
proof (cases "sequence \<noteq> 0 \<and> update_valid u")
  case False
  then show ?thesis
    by (auto simp: encode_def encode_book_update_def update_valid_def)
next
  case True
  have fixed: "be_write 4 header_signature = [0x4f, 0x42, 0x5a, 0x4d]"
    "be_write 2 protocol_version = [0, 2]" "be_write 2 book_updated_type = [0, 1]"
    "be_write 1 has_price_flag = [1]" "be_write 1 (0 :: u8) = [0]" "be_write 1 (1 :: u8) = [1]"
    "be_write 8 (0 :: u64) = replicate 8 0"
    by code_simp+
  have ops: "write_be8 network_order = be_write 1" "write_be16 network_order = be_write 2"
    "write_be32 network_order = be_write 4" "write_be64 network_order = be_write 8"
    by (simp_all add: network_order_def)
  have "encode network_order \<lparr>pk_sequence = sequence, pk_payload = Book_update_message u\<rparr> =
      Inr (wire_header network_order sequence @ wire_update network_order u)"
    using True by (simp add: network.encode_wire)
  then show ?thesis
    using True
    by (cases "bu_direction u"; cases "bu_best_price u")
       (simp_all add: wire_header_def wire_update_def ops fixed update_valid_def encoded_side_def
         del: One_nat_def)
qed

text \<open>C24: cut and padded datagrams are reported. Any proper prefix of an encoded packet is truncated, in
  the header or in the body, and any longer datagram has the wrong body length.\<close>

theorem cut_or_padded_is_rejected:
  assumes "endian ops" "encode ops p = Inr bytes"
  shows "length bytes = 38 \<and>
    decode ops (take n bytes) =
      (if n < 16 then Inl Header_truncated else if n < 38 then Inl Body_truncated else Inr p) \<and>
    decode ops (bytes @ b # extra) = Inl Body_length_mismatch"
proof -
  from endian.encode_Inr [OF assms] obtain u where u: "pk_payload p = Book_update_message u"
    "pk_sequence p \<noteq> 0" "update_valid u"
    "bytes = wire_header ops (pk_sequence p) @ wire_update ops u" .
  let ?h = "wire_header ops (pk_sequence p)" and ?b = "wire_update ops u"
  have len: "length ?h = 16" "length ?b = 22"
    using endian.wire_header_length [OF assms(1)] endian.wire_update_length [OF assms(1)]
    by (simp_all add: layout_defs)
  have body: "decode ops (?h @ body) = decode_book_update ops body (pk_sequence p)" for body
    by (simp add: decode_def endian.decode_header_wire [OF assms(1) u(2)] layout_defs len)
  have full: "decode ops bytes = Inr p"
    using endian.decode_wire [OF assms(1) u(2,3)] u(1) by (simp add: u(4))
  have short: "decode ops xs = Inl Header_truncated" if "length xs < 16" for xs
    using that by (simp add: decode_def decode_header_def header_size_def)
  have "decode ops (take n bytes) =
      (if n < 16 then Inl Header_truncated else if n < 38 then Inl Body_truncated else Inr p)"
  proof (cases "n < 38")
    case True
    then show ?thesis
      by (auto simp: u(4) len short body decode_book_update_def book_update_size_def)
  next
    case False
    then show ?thesis using full by (simp add: u(4) len)
  qed
  moreover have "decode ops (bytes @ b # extra) = Inl Body_length_mismatch"
    by (simp add: u(4) body len decode_book_update_def book_update_size_def)
  ultimately show ?thesis by (simp add: u(4) len)
qed

lemma cut_or_padded_is_rejected_witness:
  "decode network_order (take 20 sample_bytes) = Inl Body_truncated"
  using cut_or_padded_is_rejected [OF network.endian_axioms sample_encoded, of 20] by simp

end
