(* ===== verification/Sequenced_Buffer.thy ===== *)
theory Sequenced_Buffer
  imports Ordered_Map
begin

text \<open>
  The reordering buffer of the feed
  (\<^verbatim>\<open>components/market_data/feed/include/.../sequenced_buffer.hpp\<close>), with its invariant. It holds a
  bounded number of values that arrived ahead of the next expected sequence. The pending map is a
  \<^verbatim>\<open>std::map\<close> with the default comparator, \<open>seq_before\<close>.
\<close>

record sequenced_buffer_limits =
  bl_maximum_pending_values :: nat
  bl_maximum_sequence_gap :: u64

datatype sequence_result =
    Ready
  | Buffered
  | Old
  | Duplicate
  | Gap_limit_exceeded
  | Capacity_exhausted

record 'a sequenced_buffer =
  sq_limits :: sequenced_buffer_limits
  sq_next_sequence :: "u64 option"
  sq_pending :: "(u64, 'a) omap"
  sq_sequence_exhausted :: bool

abbreviation seq_before :: "u64 \<Rightarrow> u64 \<Rightarrow> bool" where
  "seq_before a b \<equiv> a < b"

interpretation pending_order: comparator "\<lambda>a b :: u64. seq_before a b"
  by unfold_locales auto

definition make_sequenced_buffer ::
  "sequenced_buffer_limits \<Rightarrow> u64 option \<Rightarrow> 'a sequenced_buffer" where
  "make_sequenced_buffer limits first_sequence =
     \<lparr>sq_limits = limits, sq_next_sequence = first_sequence, sq_pending = [],
      sq_sequence_exhausted = False\<rparr>"

definition advance_after :: "u64 \<Rightarrow> 'a sequenced_buffer \<Rightarrow> 'a sequenced_buffer" where
  "advance_after sequence b =
     (if sequence = - 1 then b\<lparr>sq_sequence_exhausted := True, sq_next_sequence := None\<rparr>
      else b\<lparr>sq_next_sequence := Some (sequence + 1)\<rparr>)"

definition push :: "u64 \<Rightarrow> 'a \<Rightarrow> 'a sequenced_buffer \<Rightarrow> 'a sequenced_buffer \<times> sequence_result" where
  "push sequence value b =
     (if sq_sequence_exhausted b then (b, Old)
      else
        (case sq_next_sequence b of
           None \<Rightarrow> (advance_after sequence b, Ready)
         | Some next \<Rightarrow>
             if sequence < next then (b, Old)
             else if sequence = next then (advance_after sequence b, Ready)
             else if omap_find (\<lambda>x y. seq_before x y) sequence (sq_pending b) \<noteq> None then (b, Duplicate)
             else if sequence - next > bl_maximum_sequence_gap (sq_limits b) then (b, Gap_limit_exceeded)
             else if length (sq_pending b) \<ge> bl_maximum_pending_values (sq_limits b)
               then (b, Capacity_exhausted)
             else (b\<lparr>sq_pending := omap_emplace (\<lambda>x y. seq_before x y) sequence value (sq_pending b)\<rparr>,
                   Buffered)))"

definition pop_ready :: "'a sequenced_buffer \<Rightarrow> 'a sequenced_buffer \<times> 'a option" where
  "pop_ready b =
     (if sq_next_sequence b = None \<or> sq_sequence_exhausted b then (b, None)
      else
        (case sq_pending b of
           [] \<Rightarrow> (b, None)
         | (sequence, value) # rest \<Rightarrow>
             if sq_next_sequence b \<noteq> Some sequence then (b, None)
             else (advance_after sequence (b\<lparr>sq_pending := rest\<rparr>), Some value)))"

definition pending_size :: "'a sequenced_buffer \<Rightarrow> nat" where
  "pending_size b = length (sq_pending b)"

lemma advance_after_simps [simp]:
  "sq_limits (advance_after s b) = sq_limits b"
  "sq_pending (advance_after s b) = sq_pending b"
  "sq_next_sequence (advance_after s b) = (if s = - 1 then None else Some (s + 1))"
  "sq_sequence_exhausted (advance_after s b) = (sq_sequence_exhausted b \<or> s = - 1)"
  by (simp_all add: advance_after_def)

lemma pop_ready_pending:
  "pop_ready b = (b', Some v) \<Longrightarrow> length (sq_pending b') < length (sq_pending b)"
  by (auto simp: pop_ready_def split: if_splits list.splits)

subsection \<open>The invariant\<close>

text \<open>
  The next number to deliver, as a natural: \<open>2 ^ 64\<close> once the last sequence was delivered. Before the
  first value of a stream without a configured start there is none.
\<close>

definition next_due :: "'a sequenced_buffer \<Rightarrow> nat option" where
  "next_due b =
     (if sq_sequence_exhausted b then Some (2 ^ 64) else map_option unat (sq_next_sequence b))"

definition buffer_ok :: "'a sequenced_buffer \<Rightarrow> bool" where
  "buffer_ok b \<longleftrightarrow>
     omap_wf (\<lambda>x y. seq_before x y) (sq_pending b) \<and>
     length (sq_pending b) \<le> bl_maximum_pending_values (sq_limits b) \<and>
     (case next_due b of
        None \<Rightarrow> sq_pending b = []
      | Some n \<Rightarrow> \<forall>s \<in> fst ` set (sq_pending b).
          n \<le> unat s \<and> unat s \<le> n + unat (bl_maximum_sequence_gap (sq_limits b))) \<and>
     (sq_sequence_exhausted b \<longrightarrow> sq_next_sequence b = None)"

lemma make_sequenced_buffer_ok: "buffer_ok (make_sequenced_buffer limits first)"
  by (auto simp: buffer_ok_def make_sequenced_buffer_def next_due_def split: option.splits)

lemma next_due_advance:
  "\<not> sq_sequence_exhausted b \<Longrightarrow> next_due (advance_after s b) = Some (Suc (unat s))"
  by (auto simp: next_due_def minus_one_unat unat_inc)

text \<open>A settled buffer has nothing ready: its smallest pending sequence is beyond the next one.\<close>

definition settled :: "'a sequenced_buffer \<Rightarrow> bool" where
  "settled b \<longleftrightarrow> buffer_ok b \<and>
     (case next_due b of None \<Rightarrow> True | Some n \<Rightarrow> \<forall>s \<in> fst ` set (sq_pending b). n < unat s)"

lemma push_ready:
  assumes "push s v b = (b', Ready)" "buffer_ok b"
  shows "b' = advance_after s b" "\<not> sq_sequence_exhausted b"
    "next_due b = None \<or> next_due b = Some (unat s)" "next_due b' = Some (Suc (unat s))"
proof -
  show b': "b' = advance_after s b" and ex: "\<not> sq_sequence_exhausted b"
    and "next_due b = None \<or> next_due b = Some (unat s)"
    using assms by (auto simp: push_def next_due_def split: if_splits option.splits)
  show "next_due b' = Some (Suc (unat s))" unfolding b' using ex by (rule next_due_advance)
qed

lemma push_buffered:
  assumes "push s v b = (b', Buffered)" "buffer_ok b"
  obtains m where "b' = b\<lparr>sq_pending := omap_emplace (\<lambda>x y. seq_before x y) s v (sq_pending b)\<rparr>"
    "sq_next_sequence b = Some m" "m < s" "s \<notin> fst ` set (sq_pending b)"
    "s - m \<le> bl_maximum_sequence_gap (sq_limits b)"
    "length (sq_pending b) < bl_maximum_pending_values (sq_limits b)" "\<not> sq_sequence_exhausted b"
  using assms
  by (auto simp: push_def pending_order.find_eq_map_of map_of_eq_None_iff not_less split: if_splits option.splits)

lemma push_other: "push s v b = (b', r) \<Longrightarrow> r \<notin> {Ready, Buffered} \<Longrightarrow> b' = b"
  by (auto simp: push_def split: if_splits option.splits)

lemma push_settled:
  assumes "push s v b = (b', r)" "settled b"
  shows "r = Ready \<or> settled b'"
proof (cases r)
  case Buffered
  have ok: "buffer_ok b" using assms(2) by (simp add: settled_def)
  from push_buffered [OF assms(1) [unfolded Buffered] ok] obtain m where
    n: "b' = b\<lparr>sq_pending := omap_emplace (\<lambda>x y. seq_before x y) s v (sq_pending b)\<rparr>"
    "sq_next_sequence b = Some m" "m < s" "s \<notin> fst ` set (sq_pending b)"
    "s - m \<le> bl_maximum_sequence_gap (sq_limits b)"
    "length (sq_pending b) < bl_maximum_pending_values (sq_limits b)" "\<not> sq_sequence_exhausted b" .
  have due: "next_due b' = Some (unat m)" "next_due b = Some (unat m)"
    using n by (simp_all add: next_due_def)
  have find: "omap_find (\<lambda>x y. seq_before x y) s (sq_pending b) = None"
    using n(4) by (simp add: pending_order.find_eq_map_of map_of_eq_None_iff)
  have "unat s - unat m \<le> unat (bl_maximum_sequence_gap (sq_limits b))"
    using n(5) unat_sub [of m s] order_less_imp_le [OF n(3)] by (simp add: word_le_nat_alt)
  then have gap: "unat m < unat s \<and> unat s \<le> unat m + unat (bl_maximum_sequence_gap (sq_limits b))"
    using n(3) by (simp add: word_less_nat_alt)
  show ?thesis
    using assms(2) n(2,6,7) gap due
    by (auto simp: settled_def buffer_ok_def n(1) pending_order.emplace_wf pending_order.emplace_keys
        pending_order.emplace_length [OF find])
qed (use push_other [OF assms(1)] assms(2) in auto)

text \<open>What popping the next value does, and when nothing is ready.\<close>

lemma pop_ready_Some:
  assumes "pop_ready b = (b', Some v)" "buffer_ok b"
  obtains s rest where "sq_pending b = (s, v) # rest" "next_due b = Some (unat s)"
    "b' = advance_after s (b\<lparr>sq_pending := rest\<rparr>)" "next_due b' = Some (Suc (unat s))" "buffer_ok b'"
proof -
  from assms(1) obtain s rest where s: "sq_pending b = (s, v) # rest" "sq_next_sequence b = Some s"
    "\<not> sq_sequence_exhausted b" "b' = advance_after s (b\<lparr>sq_pending := rest\<rparr>)"
    by (auto simp: pop_ready_def split: if_splits list.splits)
  have due: "next_due b = Some (unat s)" using s(2,3) by (simp add: next_due_def)
  have due': "next_due b' = Some (Suc (unat s))" using s(3) by (simp add: s(4) next_due_advance)
  have "buffer_ok b'"
    using assms(2) s(1,3) due due' unfolding buffer_ok_def
    by (force simp: s(4) word_less_nat_alt)
  with s due due' show ?thesis by (intro that)
qed

lemma pop_ready_None:
  assumes "pop_ready b = (b', None)" "buffer_ok b"
  shows "b' = b" "settled b"
proof -
  show "b' = b" using assms(1) by (auto simp: pop_ready_def split: if_splits list.splits)
  show "settled b"
  proof (cases "sq_next_sequence b = None \<or> sq_sequence_exhausted b")
    case True
    have "sq_pending b = []" if "next_due b = Some n" for n
    proof (rule ccontr)
      assume "sq_pending b \<noteq> []"
      then obtain s where "s \<in> fst ` set (sq_pending b)" by (cases "sq_pending b") auto
      with that assms(2) have "n \<le> unat s" by (auto simp: buffer_ok_def)
      moreover have "n = 2 ^ 64" using that True assms(2) by (auto simp: next_due_def buffer_ok_def split: if_splits)
      ultimately show False using unat_less_exp [of s] by simp
    qed
    with assms(2) show ?thesis by (auto simp: settled_def split: option.splits)
  next
    case False
    then obtain m where m: "sq_next_sequence b = Some m" "next_due b = Some (unat m)"
      by (auto simp: next_due_def)
    have "\<forall>s \<in> fst ` set (sq_pending b). unat m < unat s"
    proof (cases "sq_pending b")
      case (Cons x rest)
      obtain s v where x: "x = (s, v)" by fastforce
      have "s \<noteq> m" using assms(1) False m by (auto simp: pop_ready_def Cons x)
      moreover have "unat m \<le> unat s" using assms(2) m by (auto simp: buffer_ok_def Cons x)
      ultimately have "unat m < unat s" by (simp add: word_unat_eq_iff)
      moreover have "\<forall>k \<in> fst ` set rest. s < k" using assms(2) by (simp add: buffer_ok_def Cons x)
      ultimately show ?thesis by (force simp: Cons x word_less_nat_alt)
    qed simp
    with assms(2) m show ?thesis by (simp add: settled_def)
  qed
qed

end
