(* ===== verification/Processor.thy ===== *)
theory Processor
  imports Sequenced_Buffer Codec
begin

text \<open>
  The feed processor (\<^verbatim>\<open>components/market_data/feed/include/.../processor.hpp\<close>): it pushes a packet into
  the sequenced buffer and hands every packet that became ready to the consumer. The consumer is a
  parameter that threads its own state \<open>'c\<close> and may throw; the packets consumed before the throw stay
  delivered.
\<close>

record processor_config =
  pc_sequence_limits :: sequenced_buffer_limits
  pc_first_sequence :: "u64 option"

record processing_result =
  pr_ordering :: sequence_result
  pr_packets_delivered :: nat

type_synonym processor = "packet sequenced_buffer"
type_synonym 'c consumer = "packet \<Rightarrow> 'c \<Rightarrow> 'c \<times> unit outcome"

definition make_processor :: "processor_config \<Rightarrow> processor" where
  "make_processor config = make_sequenced_buffer (pc_sequence_limits config) (pc_first_sequence config)"

function drain_ready :: "'c consumer \<Rightarrow> nat \<Rightarrow> processor \<times> 'c \<Rightarrow> (processor \<times> 'c) \<times> nat outcome" where
  "drain_ready consume delivered (b, c) =
     (case pop_ready b of
        (b', None) \<Rightarrow> ((b', c), Inr delivered)
      | (b', Some queued) \<Rightarrow>
          (case consume queued c of
             (c', Inl f) \<Rightarrow> ((b', c'), Inl f)
           | (c', Inr _) \<Rightarrow> drain_ready consume (delivered + 1) (b', c')))"
  by pat_completeness auto
termination
  by (relation "measure (\<lambda>(f, n, b, c). length (sq_pending b))") (auto dest: pop_ready_pending [OF sym])

declare drain_ready.simps [simp del]

definition process ::
  "'c consumer \<Rightarrow> packet \<Rightarrow> processor \<times> 'c \<Rightarrow> (processor \<times> 'c) \<times> processing_result outcome" where
  "process consume value =
     (\<lambda>(b, c).
        case push (pk_sequence value) value b of
          (b', order) \<Rightarrow>
            if order \<noteq> Ready
            then ((b', c), Inr \<lparr>pr_ordering = order, pr_packets_delivered = 0\<rparr>)
            else
              (case consume value c of
                 (c', Inl f) \<Rightarrow> ((b', c'), Inl f)
               | (c', Inr _) \<Rightarrow>
                   (case drain_ready consume 1 (b', c') of
                      (s, Inl f) \<Rightarrow> (s, Inl f)
                    | (s, Inr delivered) \<Rightarrow>
                        (s, Inr \<lparr>pr_ordering = order, pr_packets_delivered = delivered\<rparr>))))"

text \<open>A sequence of calls.\<close>

fun process_all ::
  "'c consumer \<Rightarrow> packet list \<Rightarrow> processor \<times> 'c \<Rightarrow> (processor \<times> 'c) \<times> processing_result outcome list" where
  "process_all consume [] s = (s, [])"
| "process_all consume (p # ps) s =
     (case process consume p s of
        (s1, r) \<Rightarrow> (case process_all consume ps s1 of (s2, rs) \<Rightarrow> (s2, r # rs)))"

subsection \<open>Consumers\<close>

text \<open>A consumer that does not throw, and the one that records what it is given.\<close>

definition pure_consumer :: "(packet \<Rightarrow> 'c \<Rightarrow> 'c) \<Rightarrow> 'c consumer" where
  "pure_consumer f = (\<lambda>p c. (f p c, Inr ()))"

abbreviation collect :: "packet list consumer" where
  "collect \<equiv> pure_consumer (\<lambda>p c. c @ [p])"

lemma drain_ready_pure:
  "drain_ready (pure_consumer f) k (b, c) =
     (case pop_ready b of (b', None) \<Rightarrow> ((b', c), Inr k)
      | (b', Some q) \<Rightarrow> drain_ready (pure_consumer f) (k + 1) (b', f q c))"
  by (subst drain_ready.simps) (simp add: pure_consumer_def split: prod.splits option.splits)

lemma drain_ready_step:
  "pop_ready b = (b', None) \<Longrightarrow> drain_ready (pure_consumer f) k (b, c) = ((b', c), Inr k)"
  "pop_ready b = (b', Some q) \<Longrightarrow>
     drain_ready (pure_consumer f) k (b, c) = drain_ready (pure_consumer f) (k + 1) (b', f q c)"
  by (subst drain_ready_pure, simp)+

lemma process_pure_eq:
  "process (pure_consumer f) p (b, c) =
     (case push (pk_sequence p) p b of
        (b', r) \<Rightarrow>
          if r \<noteq> Ready then ((b', c), Inr \<lparr>pr_ordering = r, pr_packets_delivered = 0\<rparr>)
          else (case drain_ready (pure_consumer f) 1 (b', f p c) of
                  (s, Inl e) \<Rightarrow> (s, Inl e)
                | (s, Inr n) \<Rightarrow> (s, Inr \<lparr>pr_ordering = r, pr_packets_delivered = n\<rparr>)))"
  by (simp add: process_def pure_consumer_def split: prod.splits sum.splits)

text \<open>What a pure consumer ends with is the fold over the recorded packets.\<close>

definition folded :: "(packet \<Rightarrow> 'c \<Rightarrow> 'c) \<Rightarrow> 'c \<Rightarrow> (processor \<times> packet list) \<times> 'r \<Rightarrow> (processor \<times> 'c) \<times> 'r" where
  "folded f c = map_prod (map_prod id (\<lambda>ds. fold f ds c)) id"

lemma folded_simps [simp]: "folded f c ((b, ds), r) = ((b, fold f ds c), r)"
  by (simp add: folded_def)

lemma drain_pure:
  "drain_ready (pure_consumer f) k (b, fold f ds c) = folded f c (drain_ready collect k (b, ds))"
proof (induction "length (sq_pending b)" arbitrary: b ds k rule: less_induct)
  case less
  obtain b' v where p: "pop_ready b = (b', v)" by fastforce
  show ?case
  proof (cases v)
    case None
    then show ?thesis by (subst (1 2) drain_ready_pure) (simp add: p)
  next
    case (Some q)
    have "drain_ready (pure_consumer f) (k + 1) (b', fold f (ds @ [q]) c) =
        folded f c (drain_ready collect (k + 1) (b', ds @ [q]))"
      using p Some by (intro less) (simp add: pop_ready_pending)
    then show ?thesis by (subst (1 2) drain_ready_pure) (simp add: p Some)
  qed
qed

lemma process_pure:
  "process (pure_consumer f) p (b, fold f ds c) = folded f c (process collect p (b, ds))"
proof -
  obtain b' r where p: "push (pk_sequence p) p b = (b', r)" by fastforce
  have d: "drain_ready (pure_consumer f) 1 (b', f p (fold f ds c)) = folded f c (drain_ready collect 1 (b', ds @ [p]))"
    using drain_pure [of f 1 b' "ds @ [p]" c] by simp
  obtain s r' where "drain_ready collect 1 (b', ds @ [p]) = (s, r')" by fastforce
  with d show ?thesis
    by (cases s; cases r') (simp_all add: process_pure_eq p)
qed

lemma process_all_pure:
  "process_all (pure_consumer f) ps (b, fold f ds c) = folded f c (process_all collect ps (b, ds))"
proof (induction ps arbitrary: b ds)
  case Nil
  then show ?case by simp
next
  case (Cons p ps)
  obtain b' ds' r where p: "process collect p (b, ds) = ((b', ds'), r)" by (metis prod.collapse)
  obtain s rs where ps: "process_all collect ps (b', ds') = (s, rs)" by fastforce
  show ?case using Cons [of b' ds'] by (cases s) (simp add: process_pure p ps)
qed

end
