(* ===== verification/Delivery.thy ===== *)
theory Delivery
  imports Processor Codec_Properties
begin

text \<open>
  What the feed processor delivers: an invariant that ties the recorded packets, the pending ones and
  the packets received so far, and the properties of sequencing that follow.
\<close>

definition seq_of :: "packet \<Rightarrow> nat" where
  "seq_of p = unat (pk_sequence p)"

definition keyed :: "processor \<Rightarrow> bool" where
  "keyed b \<longleftrightarrow> (\<forall>(s, p) \<in> set (sq_pending b). pk_sequence p = s)"

definition pending_packets :: "processor \<Rightarrow> packet list" where
  "pending_packets b = map snd (sq_pending b)"

lemma keyed_pending: "keyed b \<Longrightarrow> p \<in> set (pending_packets b) \<Longrightarrow> pk_sequence p \<in> fst ` set (sq_pending b)"
  by (force simp: keyed_def pending_packets_def)

text \<open>Draining delivers consecutive sequences from the next due one, and settles the buffer.\<close>

lemma drain_collect:
  assumes "buffer_ok b" "keyed b" "next_due b = Some n"
    and "drain_ready collect k (b, ds) = ((b', ds'), r)"
  shows "\<exists>new. ds' = ds @ new \<and> r = Inr (k + length new) \<and> settled b' \<and> keyed b' \<and>
    next_due b' = Some (n + length new) \<and> map seq_of new = [n..<n + length new] \<and>
    set (pending_packets b) = set new \<union> set (pending_packets b') \<and> sq_limits b' = sq_limits b"
  using assms
proof (induction "length (sq_pending b)" arbitrary: b ds k n rule: less_induct)
  case less
  obtain b1 v where p: "pop_ready b = (b1, v)" by fastforce
  show ?case
  proof (cases v)
    case None
    then have "b1 = b" "settled b" using pop_ready_None [of b b1] p less.prems(1) by simp_all
    moreover have "b' = b1" "ds' = ds" "r = Inr k"
      using less.prems(4) p None by (subst (asm) drain_ready_pure, simp)+
    ultimately show ?thesis using less.prems(2,3) by (intro exI [of _ "[]"]) simp
  next
    case (Some q)
    from pop_ready_Some [OF p [unfolded Some] less.prems(1)] obtain s rest where
      s: "sq_pending b = (s, q) # rest" "next_due b = Some (unat s)"
        "b1 = advance_after s (b\<lparr>sq_pending := rest\<rparr>)" "next_due b1 = Some (Suc (unat s))" "buffer_ok b1" .
    have n: "n = unat s" using s(2) less.prems(3) by simp
    have q: "seq_of q = n" using less.prems(2) by (simp add: keyed_def s(1) n seq_of_def)
    have k1: "keyed b1" using less.prems(2) by (simp add: keyed_def s(1,3))
    have "drain_ready collect (k + 1) (b1, ds @ [q]) = ((b', ds'), r)"
      using less.prems(4) by (subst (asm) drain_ready_pure) (simp add: p Some)
    from less.hyps [OF _ s(5) k1 _ this, of "Suc n"] obtain new where
      "ds' = (ds @ [q]) @ new" "r = Inr (k + 1 + length new)" "settled b'" "keyed b'"
      "next_due b' = Some (Suc n + length new)" "map seq_of new = [Suc n..<Suc n + length new]"
      "set (pending_packets b1) = set new \<union> set (pending_packets b')" "sq_limits b' = sq_limits b1"
      using s(4) by (auto simp: s(1,3) n)
    moreover have "[n..<n + length (q # new)] = n # [Suc n..<Suc n + length new]"
      by (simp add: upt_conv_Cons del: upt_Suc)
    ultimately show ?thesis
      by (intro exI [of _ "q # new"]) (auto simp: q s(1,3) pending_packets_def simp del: upt_Suc)
  qed
qed

text \<open>
  The invariant after the packets \<open>ps\<close> were received and \<open>ds\<close> were delivered. \<open>first\<close> is the configured
  first sequence; without one the first packet received sets it.
\<close>

definition origin :: "u64 option \<Rightarrow> packet list \<Rightarrow> nat option" where
  "origin first ps = (case first of Some s \<Rightarrow> Some (unat s)
     | None \<Rightarrow> (case ps of [] \<Rightarrow> None | p # _ \<Rightarrow> Some (seq_of p)))"

definition delivery_ok :: "u64 option \<Rightarrow> packet list \<Rightarrow> processor \<Rightarrow> packet list \<Rightarrow> bool" where
  "delivery_ok first ps b ds \<longleftrightarrow>
     settled b \<and> keyed b \<and> set ds \<union> set (pending_packets b) \<subseteq> set ps \<and>
     (case origin first ps of
        None \<Rightarrow> ds = [] \<and> next_due b = None
      | Some f \<Rightarrow> next_due b = Some (f + length ds) \<and> map seq_of ds = [f..<f + length ds])"

lemma origin_snoc: "origin first ps = Some f \<Longrightarrow> origin first (ps @ [p]) = Some f"
  by (auto simp: origin_def split: option.splits list.splits)

lemma origin_first: "origin first ps = None \<Longrightarrow> origin first (ps @ [p]) = Some (seq_of p)"
  by (auto simp: origin_def split: option.splits list.splits)

lemma make_processor_delivery:
  "delivery_ok (pc_first_sequence config) [] (make_processor config) []"
  using make_sequenced_buffer_ok [of "pc_sequence_limits config" "pc_first_sequence config"]
  by (auto simp: delivery_ok_def make_processor_def settled_def keyed_def pending_packets_def origin_def
      make_sequenced_buffer_def next_due_def split: option.splits)

text \<open>A ready packet and what it releases.\<close>

lemma process_ready:
  assumes st: "settled b" and kd: "keyed b" and pu: "push (pk_sequence p) p b = (b1, Ready)"
    and pr: "process collect p (b, ds) = ((b', ds'), r)"
  obtains new where "ds' = (ds @ [p]) @ new"
    "r = Inr \<lparr>pr_ordering = Ready, pr_packets_delivered = length (p # new)\<rparr>" "settled b'" "keyed b'"
    "next_due b' = Some (Suc (seq_of p) + length new)"
    "map seq_of new = [Suc (seq_of p)..<Suc (seq_of p) + length new]"
    "set (pending_packets b) = set new \<union> set (pending_packets b')" "sq_limits b' = sq_limits b"
proof -
  have bok: "buffer_ok b" using st by (simp add: settled_def)
  note ready = push_ready [OF pu bok]
  have due: "next_due b1 = Some (Suc (seq_of p))" using ready(4) by (simp add: seq_of_def)
  have lower: "\<forall>s \<in> fst ` set (sq_pending b). seq_of p < unat s"
    using ready(3) st bok by (cases "next_due b") (simp_all add: settled_def buffer_ok_def seq_of_def)
  have b1ok: "buffer_ok b1"
  proof -
    have gap: "\<forall>s \<in> fst ` set (sq_pending b). unat s \<le> Suc (seq_of p) + unat (bl_maximum_sequence_gap (sq_limits b))"
      using bok ready(3) by (cases "next_due b") (force simp: buffer_ok_def seq_of_def)+
    have "sq_sequence_exhausted b1 \<longrightarrow> sq_next_sequence b1 = None"
      using ready(2) by (auto simp: ready(1))
    then show ?thesis
      using bok lower gap due by (auto simp: buffer_ok_def ready(1) Suc_le_eq)
  qed
  have kd1: "keyed b1" using kd by (simp add: keyed_def ready(1))
  obtain b2 ds2 r1 where dr: "drain_ready collect 1 (b1, ds @ [p]) = ((b2, ds2), r1)" by (metis prod.collapse)
  from drain_collect [OF b1ok kd1 due dr] obtain new where
    new: "ds2 = (ds @ [p]) @ new" "r1 = Inr (1 + length new)" "settled b2" "keyed b2"
    "next_due b2 = Some (Suc (seq_of p) + length new)"
    "map seq_of new = [Suc (seq_of p)..<Suc (seq_of p) + length new]"
    "set (pending_packets b1) = set new \<union> set (pending_packets b2)" "sq_limits b2 = sq_limits b1"
    by blast
  have "b' = b2" "ds' = ds2" "r = Inr \<lparr>pr_ordering = Ready, pr_packets_delivered = length (p # new)\<rparr>"
    using pr dr new(2) by (simp_all add: process_pure_eq pu)
  with new that show ?thesis by (simp add: ready(1) pending_packets_def)
qed

text \<open>Any other result delivers nothing and keeps the due sequence.\<close>

lemma process_not_ready:
  assumes ok: "buffer_ok b" "keyed b" and pu: "push (pk_sequence p) p b = (b1, order)" "order \<noteq> Ready"
    and pr: "process collect p (b, ds) = ((b', ds'), r)"
  shows "b' = b1" "ds' = ds" "r = Inr \<lparr>pr_ordering = order, pr_packets_delivered = 0\<rparr>" "keyed b1"
    "next_due b1 = next_due b" "sq_limits b1 = sq_limits b" "next_due b \<noteq> None"
    "set (pending_packets b1) \<subseteq> insert p (set (pending_packets b))"
proof -
  show "b' = b1" "ds' = ds" "r = Inr \<lparr>pr_ordering = order, pr_packets_delivered = 0\<rparr>"
    using pr pu by (auto simp: process_pure_eq)
  have "keyed b1 \<and> next_due b1 = next_due b \<and> sq_limits b1 = sq_limits b \<and> next_due b \<noteq> None \<and>
      set (pending_packets b1) \<subseteq> insert p (set (pending_packets b))"
  proof (cases "order = Buffered")
    case True
    from push_buffered [OF pu(1) [unfolded True] ok(1)] obtain m where
      m: "b1 = b\<lparr>sq_pending := omap_emplace (\<lambda>x y. seq_before x y) (pk_sequence p) p (sq_pending b)\<rparr>"
      "sq_next_sequence b = Some m" .
    from omap_emplace_subset [of "\<lambda>x y. seq_before x y" "pk_sequence p" p "sq_pending b"] ok(2) m(2) show ?thesis
      by (auto simp: m(1) keyed_def next_due_def pending_packets_def)
  next
    case False
    have "b1 = b" using push_other [OF pu(1)] pu(2) False by blast
    moreover have "next_due b \<noteq> None"
      using pu by (auto simp: push_def next_due_def split: if_splits option.splits)
    ultimately show ?thesis using ok(2) by auto
  qed
  then show "keyed b1" "next_due b1 = next_due b" "sq_limits b1 = sq_limits b" "next_due b \<noteq> None"
    "set (pending_packets b1) \<subseteq> insert p (set (pending_packets b))" by blast+
qed

lemma process_delivery:
  assumes ok: "delivery_ok first ps b ds" and pr: "process collect p (b, ds) = ((b', ds'), r)"
  shows "delivery_ok first (ps @ [p]) b' ds' \<and> sq_limits b' = sq_limits b"
proof -
  have st: "settled b" and bok: "buffer_ok b" and kd: "keyed b"
    using ok by (simp_all add: delivery_ok_def settled_def)
  obtain b1 order where pu: "push (pk_sequence p) p b = (b1, order)" by fastforce
  show ?thesis
  proof (cases "order = Ready")
    case True
    note ready = push_ready [OF pu [unfolded True] bok]
    from process_ready [OF st kd pu [unfolded True] pr] obtain new where
      new: "ds' = (ds @ [p]) @ new" "settled b'" "keyed b'" "next_due b' = Some (Suc (seq_of p) + length new)"
      "map seq_of new = [Suc (seq_of p)..<Suc (seq_of p) + length new]"
      "set (pending_packets b) = set new \<union> set (pending_packets b')" "sq_limits b' = sq_limits b" .
    obtain f where f: "origin first (ps @ [p]) = Some f" "f + length ds = seq_of p"
      "map seq_of ds = [f..<f + length ds]"
    proof (cases "origin first ps")
      case None
      with ok show ?thesis by (intro that [of "seq_of p"]) (simp_all add: origin_first delivery_ok_def)
    next
      case (Some f)
      with ok ready(3) show ?thesis
        by (intro that [of f]) (auto simp: origin_snoc delivery_ok_def seq_of_def)
    qed
    have "[f..<f + length ds'] = [f..<seq_of p] @ [seq_of p..<seq_of p + Suc (length new)]"
      using upt_add_eq_append [of f "seq_of p" "Suc (length new)"] f(2)
      by (simp add: new(1) add.assoc [symmetric] del: upt_Suc)
    moreover have "[seq_of p..<seq_of p + Suc (length new)] = seq_of p # map seq_of new"
      by (simp add: new(5) upt_conv_Cons del: upt_Suc)
    ultimately have "map seq_of ds' = [f..<f + length ds']" using f(2,3) by (simp add: new(1) del: upt_Suc)
    moreover have "next_due b' = Some (f + length ds')" using f(2) by (simp add: new(1,4))
    moreover have "set ds' \<union> set (pending_packets b') \<subseteq> set (ps @ [p])"
      using ok new(6) by (auto simp: new(1) delivery_ok_def)
    ultimately show ?thesis using new(2,3,7) f(1) by (simp add: delivery_ok_def)
  next
    case False
    note same = process_not_ready [OF bok kd pu False pr]
    have st1: "settled b1" using push_settled [OF pu st] False by blast
    obtain f where "origin first ps = Some f"
      using ok same(7) by (cases "origin first ps") (simp_all add: delivery_ok_def)
    then show ?thesis
      using ok st1 same by (auto simp: delivery_ok_def origin_snoc)
  qed
qed

lemma process_all_delivery:
  assumes "delivery_ok first ps b ds" "process_all collect qs (b, ds) = ((b', ds'), rs)"
  shows "delivery_ok first (ps @ qs) b' ds' \<and> sq_limits b' = sq_limits b"
  using assms
proof (induction qs arbitrary: ps b ds rs)
  case Nil
  then show ?case by simp
next
  case (Cons q qs)
  obtain b1 ds1 r where q: "process collect q (b, ds) = ((b1, ds1), r)" by (metis prod.collapse)
  obtain rs' where qs: "process_all collect qs (b1, ds1) = ((b', ds'), rs')"
    using Cons.prems(2) by (auto simp: q split: prod.splits)
  note 1 = process_delivery [OF Cons.prems(1) q]
  from Cons.IH [OF _ qs, of "ps @ [q]"] 1 show ?case by simp
qed

text \<open>With nothing dropped, every packet received so far was below the next due sequence or is pending.\<close>

definition dropped :: "processing_result outcome \<Rightarrow> bool" where
  "dropped r \<longleftrightarrow> (case r of Inl _ \<Rightarrow> True
     | Inr x \<Rightarrow> pr_ordering x = Gap_limit_exceeded \<or> pr_ordering x = Capacity_exhausted)"

definition accounted :: "packet list \<Rightarrow> processor \<Rightarrow> bool" where
  "accounted ps b \<longleftrightarrow> (\<forall>p \<in> set ps. (case next_due b of None \<Rightarrow> False | Some n \<Rightarrow> seq_of p < n) \<or>
     pk_sequence p \<in> fst ` set (sq_pending b))"

text \<open>A sequence below the next due one was handled already.\<close>

definition past :: "processor \<Rightarrow> packet \<Rightarrow> bool" where
  "past b p \<longleftrightarrow> (case next_due b of None \<Rightarrow> False | Some n \<Rightarrow> seq_of p < n)"

lemma accounted_past:
  "accounted ps b \<longleftrightarrow> (\<forall>p \<in> set ps. past b p \<or> pk_sequence p \<in> fst ` set (sq_pending b))"
  by (simp add: accounted_def past_def)

lemma process_ready_accounted:
  assumes st: "settled b" and kd: "keyed b" and acc: "accounted ps b"
    and pu: "push (pk_sequence p) p b = (b1, Ready)" and pr: "process collect p (b, ds) = ((b', ds'), r)"
  shows "accounted (ps @ [p]) b'"
proof -
  have bok: "buffer_ok b" using st by (simp add: settled_def)
  from process_ready [OF st kd pu pr] obtain new' where
    n: "next_due b' = Some (Suc (seq_of p) + length new')"
    "map seq_of new' = [Suc (seq_of p)..<Suc (seq_of p) + length new']"
    "set (pending_packets b) = set new' \<union> set (pending_packets b')" "keyed b'" .
  have low: "past b' q" if "q \<in> set new'" for q
  proof -
    have "seq_of q \<in> set (map seq_of new')" using that by simp
    then show ?thesis unfolding n(2) by (simp add: past_def n(1) del: upt_Suc)
  qed
  have "past b' q \<or> pk_sequence q \<in> fst ` set (sq_pending b')"
    if "past b q \<or> pk_sequence q \<in> fst ` set (sq_pending b)" for q
    using that
  proof
    assume "past b q"
    with push_ready(3) [OF pu bok] show ?thesis by (auto simp: past_def n(1) seq_of_def)
  next
    assume "pk_sequence q \<in> fst ` set (sq_pending b)"
    then obtain x where x: "(pk_sequence q, x) \<in> set (sq_pending b)" by force
    then have "x \<in> set (pending_packets b)" by (force simp: pending_packets_def)
    moreover have same: "pk_sequence x = pk_sequence q" using kd x by (auto simp: keyed_def)
    moreover have "past b' x = past b' q" using same by (simp only: past_def seq_of_def)
    ultimately show ?thesis
      using n(3) low [of x] keyed_pending [OF n(4), of x] by auto
  qed
  moreover have "past b' p" by (simp add: past_def n(1))
  ultimately show ?thesis using acc by (auto simp: accounted_past)
qed

lemma push_old_or_duplicate:
  assumes "push (pk_sequence p) p b = (b', order)" "order = Old \<or> order = Duplicate"
  shows "past b p \<or> pk_sequence p \<in> fst ` set (sq_pending b)"
  using assms(2)
proof
  assume "order = Old"
  then show ?thesis using assms(1) unat_less_exp [of "pk_sequence p"]
    by (auto simp: push_def past_def next_due_def seq_of_def word_less_nat_alt split: if_splits option.splits)
next
  assume "order = Duplicate"
  then have "omap_find (\<lambda>x y. seq_before x y) (pk_sequence p) (sq_pending b) \<noteq> None"
    using assms(1) by (auto simp: push_def split: if_splits option.splits)
  then show ?thesis by (simp add: pending_order.find_eq_map_of map_of_eq_None_iff)
qed

lemma process_accounted:
  assumes ok: "delivery_ok first ps b ds" and acc: "accounted ps b"
    and pr: "process collect p (b, ds) = ((b', ds'), r)" and nd: "\<not> dropped r"
  shows "accounted (ps @ [p]) b'"
proof -
  have st: "settled b" and bok: "buffer_ok b" and kd: "keyed b"
    using ok by (simp_all add: delivery_ok_def settled_def)
  obtain b1 order where pu: "push (pk_sequence p) p b = (b1, order)" by fastforce
  show ?thesis
  proof (cases "order = Ready")
    case True
    with process_ready_accounted [OF st kd acc _ pr] pu show ?thesis by simp
  next
    case False
    note same = process_not_ready [OF bok kd pu False pr]
    have pu': "push (pk_sequence p) p b = (b', order)" using pu same(1) by simp
    have "order \<noteq> Gap_limit_exceeded" "order \<noteq> Capacity_exhausted"
      using nd by (simp_all add: same(3) dropped_def)
    with False consider "order = Buffered" | "order = Old \<or> order = Duplicate" by (cases order) simp_all
    then show ?thesis
    proof cases
      case 1
      from push_buffered [OF pu' [unfolded 1] bok] obtain m where
        m: "b' = b\<lparr>sq_pending := omap_emplace (\<lambda>x y. seq_before x y) (pk_sequence p) p (sq_pending b)\<rparr>" .
      then have "past b' = past b" by (simp add: fun_eq_iff past_def next_due_def)
      then show ?thesis using acc by (auto simp: accounted_past m pending_order.emplace_keys)
    next
      case 2
      then have "b' = b" using push_other [OF pu'] by auto
      then show ?thesis using acc push_old_or_duplicate [OF pu' 2] by (auto simp: accounted_past)
    qed
  qed
qed

lemma process_all_accounted:
  assumes "delivery_ok first ps b ds" "accounted ps b" "process_all collect qs (b, ds) = ((b', ds'), rs)"
    and "\<not> list_ex dropped rs"
  shows "accounted (ps @ qs) b'"
  using assms
proof (induction qs arbitrary: ps b ds rs)
  case Nil
  then show ?case by simp
next
  case (Cons q qs)
  obtain b1 ds1 r where q: "process collect q (b, ds) = ((b1, ds1), r)" by (metis prod.collapse)
  obtain rs' where qs: "process_all collect qs (b1, ds1) = ((b', ds'), rs')" "rs = r # rs'"
    using Cons.prems(3) by (auto simp: q split: prod.splits)
  have "delivery_ok first (ps @ [q]) b1 ds1" using process_delivery [OF Cons.prems(1) q] by blast
  moreover have "accounted (ps @ [q]) b1"
    using process_accounted [OF Cons.prems(1,2) q] Cons.prems(4) qs(2) by simp
  ultimately show ?case using Cons.IH [OF _ _ qs(1), of "ps @ [q]"] Cons.prems(4) qs(2) by simp
qed

text \<open>A processor that received \<open>ps\<close> since its construction, with the packets it delivered.\<close>

definition run_processor :: "processor_config \<Rightarrow> packet list \<Rightarrow> (processor \<times> packet list) \<times> processing_result outcome list" where
  "run_processor config ps = process_all collect ps (make_processor config, [])"

definition delivered :: "processor_config \<Rightarrow> packet list \<Rightarrow> packet list" where
  "delivered config ps = snd (fst (run_processor config ps))"

lemma run_processor_ok:
  "delivery_ok (pc_first_sequence config) ps (fst (fst (run_processor config ps))) (delivered config ps) \<and>
   sq_limits (fst (fst (run_processor config ps))) = pc_sequence_limits config"
proof -
  obtain b ds rs where run: "run_processor config ps = ((b, ds), rs)" by (metis prod.collapse)
  from process_all_delivery [OF make_processor_delivery run [unfolded run_processor_def]] show ?thesis
    by (simp add: run delivered_def make_processor_def make_sequenced_buffer_def)
qed

subsection \<open>Properties\<close>

text \<open>C7: whatever arrives, in whatever order, duplicated or lost, the consumer sees consecutive feed
  sequences, each once, starting at the configured first sequence or at the first packet received,
  and only packets that were received.\<close>

theorem delivery_is_gapless:
  "(\<exists>start. map seq_of (delivered config ps) = [start..<start + length (delivered config ps)] \<and>
      (ps = [] \<or> start = (case pc_first_sequence config of Some s \<Rightarrow> unat s | None \<Rightarrow> seq_of (hd ps)))) \<and>
   set (delivered config ps) \<subseteq> set ps"
  using run_processor_ok [of config ps]
  by (auto simp: delivery_ok_def origin_def split: option.splits list.splits)

text \<open>C25: the bounds of the buffer hold at all times. At most the configured number of packets is pending,
  in strictly increasing order of sequence, each beyond the next due sequence by at most the
  configured gap, and nothing that is ready stays behind.\<close>

theorem pending_bounded:
  "(let b = fst (fst (run_processor config ps))
    in pending_size b \<le> bl_maximum_pending_values (pc_sequence_limits config) \<and>
       sorted_wrt (\<lambda>x y. seq_before x y) (map fst (sq_pending b)) \<and>
       list_all (\<lambda>(s, p). pk_sequence p = s \<and>
         (case sq_next_sequence b of None \<Rightarrow> False
          | Some n \<Rightarrow> n < s \<and> unat s \<le> unat n + unat (bl_maximum_sequence_gap (pc_sequence_limits config))))
         (sq_pending b))"
proof -
  define b where "b = fst (fst (run_processor config ps))"
  have ok: "settled b" "keyed b" and lim: "sq_limits b = pc_sequence_limits config"
    using run_processor_ok [of config ps] by (simp_all add: b_def delivery_ok_def)
  have "pending_size b \<le> bl_maximum_pending_values (pc_sequence_limits config)"
    "sorted_wrt (\<lambda>x y. seq_before x y) (map fst (sq_pending b))"
    using ok(1) lim by (simp_all add: settled_def buffer_ok_def pending_size_def omap_wf_def)
  moreover have "list_all (\<lambda>(s, p). pk_sequence p = s \<and>
         (case sq_next_sequence b of None \<Rightarrow> False
          | Some n \<Rightarrow> n < s \<and> unat s \<le> unat n + unat (bl_maximum_sequence_gap (pc_sequence_limits config))))
         (sq_pending b)"
    unfolding list_all_iff
  proof (intro ballI, clarify)
    fix s p assume sp: "(s, p) \<in> set (sq_pending b)"
    have s: "s \<in> fst ` set (sq_pending b)" using imageI [OF sp, of fst] by simp
    with ok(1) obtain n where n: "next_due b = Some n" "n < unat s"
      "unat s \<le> n + unat (bl_maximum_sequence_gap (pc_sequence_limits config))"
      by (cases "next_due b") (auto simp: settled_def buffer_ok_def lim)
    have "case sq_next_sequence b of None \<Rightarrow> False
        | Some n \<Rightarrow> n < s \<and> unat s \<le> unat n + unat (bl_maximum_sequence_gap (pc_sequence_limits config))"
      using n unat_less_exp [of s] by (auto simp: next_due_def word_less_nat_alt split: if_splits)
    moreover have "pk_sequence p = s" using ok(2) sp by (auto simp: keyed_def)
    ultimately show "pk_sequence p = s \<and> (case sq_next_sequence b of None \<Rightarrow> False
        | Some n \<Rightarrow> n < s \<and> unat s \<le> unat n + unat (bl_maximum_sequence_gap (pc_sequence_limits config)))" by iprover
  qed
  ultimately show ?thesis unfolding b_def [symmetric] Let_def by (intro conjI)
qed

text \<open>C26: nothing is lost silently. Let \<open>start\<close> be the configured first sequence, or the first one received.
  If no packet was refused for its gap or for capacity, then every packet that arrived is delivered, still
  pending or older than the start, and it is delivered as soon as everything from the start up to it
  has arrived, whatever the order.\<close>

theorem delivery_is_complete:
  assumes "\<not> list_ex dropped (snd (run_processor config ps))"
    and "start = (case pc_first_sequence config of Some s \<Rightarrow> unat s | None \<Rightarrow> seq_of (hd ps))"
  shows "(\<forall>p \<in> set ps. seq_of p < start \<or> seq_of p \<in> seq_of ` set (delivered config ps) \<or>
      pk_sequence p \<in> fst ` set (sq_pending (fst (fst (run_processor config ps))))) \<and>
    ({start..final} \<subseteq> seq_of ` set ps \<longrightarrow> {start..final} \<subseteq> seq_of ` set (delivered config ps))"
proof (cases "ps = []")
  case True
  then show ?thesis by (auto simp: run_processor_def)
next
  case False
  obtain b ds rs where run: "run_processor config ps = ((b, ds), rs)" by (metis prod.collapse)
  have ok: "delivery_ok (pc_first_sequence config) ps b ds" using run_processor_ok [of config ps]
    by (simp add: run delivered_def)
  have acc: "accounted ps b"
    using process_all_accounted [OF make_processor_delivery _ run [unfolded run_processor_def]] assms(1)
    by (simp add: run accounted_def)
  have "origin (pc_first_sequence config) ps = Some start"
    using False by (auto simp: origin_def assms(2) neq_Nil_conv split: option.splits)
  then have due: "next_due b = Some (start + length ds)" "map seq_of ds = [start..<start + length ds]"
    using ok by (simp_all add: delivery_ok_def)
  have seen: "seq_of ` set ds = {start..<start + length ds}" using arg_cong [OF due(2), of set] by simp
  have "\<forall>s \<in> fst ` set (sq_pending b). start + length ds < unat s"
    using ok due by (simp add: delivery_ok_def settled_def)
  then have "start + length ds \<notin> seq_of ` set ps" using acc due(1) by (fastforce simp: accounted_def seq_of_def)
  then have "final < start + length ds" if "{start..final} \<subseteq> seq_of ` set ps"
    using that by (meson atLeastAtMost_iff le_add1 not_less subsetD)
  moreover have "seq_of p < start \<or> seq_of p \<in> seq_of ` set ds \<or> pk_sequence p \<in> fst ` set (sq_pending b)"
    if "p \<in> set ps" for p
    using bspec [OF acc [unfolded accounted_def] that] by (auto simp: due(1) seen)
  ultimately show ?thesis by (auto simp: run delivered_def seen)
qed

definition numbered :: "u64 \<Rightarrow> packet" where
  "numbered s = sample_packet\<lparr>pk_sequence := s\<rparr>"

definition small_config :: processor_config where
  "small_config = \<lparr>pc_sequence_limits = \<lparr>bl_maximum_pending_values = 2, bl_maximum_sequence_gap = 5\<rparr>,
     pc_first_sequence = Some 1\<rparr>"

lemma delivery_is_complete_witness:
  "{1..3} \<subseteq> seq_of ` set (delivered small_config [numbered 3, numbered 2, numbered 1])"
proof -
  let ?ps = "[numbered 3, numbered 2, numbered 1]"
  have start: "1 = (case pc_first_sequence small_config of Some s \<Rightarrow> unat s | None \<Rightarrow> seq_of (hd ?ps))"
    by (simp add: small_config_def)
  have kept: "\<not> list_ex dropped (snd (run_processor small_config ?ps))"
    by (simp add: run_processor_def small_config_def make_processor_def make_sequenced_buffer_def process_pure_eq
        numbered_def push_def drain_ready_step pop_ready_def advance_after_def dropped_def)
  have "{1..3} = {1, 2, 3 :: nat}" by auto
  then have "{1..3} \<subseteq> seq_of ` set ?ps" by (simp add: seq_of_def numbered_def)
  with delivery_is_complete [OF kept start, of 3] show ?thesis by blast
qed

end
