(* ===== verification/Feed.thy ===== *)
theory Feed
  imports Matching_Types Codec
begin

text \<open>
  The publishing side and the receiving edge of the feed
  (\<^verbatim>\<open>components/market_data/feed/src\<close>: \<^verbatim>\<open>feed_encoder.cpp\<close>, \<^verbatim>\<open>multicast_publisher.cpp\<close>,
  \<^verbatim>\<open>multicast_receiver.cpp\<close>). The UDP socket belongs to the external ObzLib: its operations are the
  parameter \<open>udp\<close>, over an abstract state \<open>'net\<close> of the socket and the network.
\<close>

subsection \<open>The feed encoder\<close>

record encoded_datagram =
  ed_sequence :: u64
  ed_bytes :: "u8 list"

record feed_encoder =
  fe_next_sequence :: u64
  fe_sequence_exhausted :: bool

definition make_feed_encoder :: "u64 \<Rightarrow> feed_encoder outcome" where
  "make_feed_encoder first_sequence =
     (if first_sequence = 0
      then Inl (Invalid_argument ''first market-data sequence must be positive'')
      else Inr \<lparr>fe_next_sequence = first_sequence, fe_sequence_exhausted = False\<rparr>)"

text \<open>The translation of a matching event; the side is always one of the two enumerators here.\<close>

definition to_book_update :: "symbol_id \<Rightarrow> side \<Rightarrow> price option \<Rightarrow> u64 \<Rightarrow> book_update" where
  "to_book_update instrument direction best_price total_size =
     \<lparr>bu_instrument = Md_symbol_id (symbol_value instrument),
      bu_direction = (case direction of Buy \<Rightarrow> Md_buy | Sell \<Rightarrow> Md_sell),
      bu_best_price = map_option price_value best_price,
      bu_aggregate_size = total_size\<rparr>"

definition encode_update ::
  "endian_ops \<Rightarrow> book_update \<Rightarrow> feed_encoder \<Rightarrow> feed_encoder \<times> encoded_datagram option outcome" where
  "encode_update ops update e =
     (if fe_sequence_exhausted e
      then (e, Inl (Overflow_error ''market-data sequence is exhausted''))
      else
        (let sequence = fe_next_sequence e
         in case encode ops \<lparr>pk_sequence = sequence, pk_payload = Book_update_message update\<rparr> of
              Inl f \<Rightarrow> (e, Inl f)
            | Inr bytes \<Rightarrow>
                (if fe_next_sequence e = - 1 then e\<lparr>fe_sequence_exhausted := True\<rparr>
                 else e\<lparr>fe_next_sequence := fe_next_sequence e + 1\<rparr>,
                 Inr (Some \<lparr>ed_sequence = sequence, ed_bytes = bytes\<rparr>))))"

definition feed_encode ::
  "endian_ops \<Rightarrow> event \<Rightarrow> feed_encoder \<Rightarrow> feed_encoder \<times> encoded_datagram option outcome" where
  "feed_encode ops emitted e =
     (case emitted of
        Book_updated instrument direction best_price total_size \<Rightarrow>
          encode_update ops (to_book_update instrument direction best_price total_size) e
      | _ \<Rightarrow> (e, Inr None))"

subsection \<open>The UDP socket of ObzLib\<close>

record endpoint =
  ep_host :: string
  ep_port :: u16

text \<open>What \<^verbatim>\<open>receive_from\<close> reports: the buffer afterwards, the bytes received into it, truncation, the sender.\<close>

record received_datagram =
  rd_buffer :: "u8 list"
  rd_bytes_received :: nat
  rd_truncated :: bool
  rd_sender :: endpoint

record 'net udp_ops =
  udp_open :: "'net \<Rightarrow> 'net \<times> unit outcome"
  udp_bind :: "endpoint \<Rightarrow> 'net \<Rightarrow> 'net \<times> unit outcome"
  udp_join_multicast_group :: "string \<Rightarrow> string \<Rightarrow> 'net \<Rightarrow> 'net \<times> unit outcome"
  udp_send_to :: "endpoint \<Rightarrow> u8 list \<Rightarrow> 'net \<Rightarrow> 'net \<times> nat outcome"
  udp_receive_from :: "u8 list \<Rightarrow> 'net \<Rightarrow> 'net \<times> received_datagram outcome"

subsection \<open>The multicast publisher\<close>

record multicast_destination =
  md_group :: string
  md_port :: u16

record publish_result =
  pub_messages_published :: u64
  pub_bytes_sent :: u64
  pub_first_sequence :: u64
  pub_last_sequence :: u64

definition empty_publish_result :: publish_result where
  "empty_publish_result = \<lparr>pub_messages_published = 0, pub_bytes_sent = 0,
     pub_first_sequence = 0, pub_last_sequence = 0\<rparr>"

record multicast_publisher =
  mp_encoder :: feed_encoder
  mp_destination :: endpoint

text \<open>The encoder member is default-constructed, from sequence 1; opening the socket may throw.\<close>

definition make_multicast_publisher ::
  "'net udp_ops \<Rightarrow> multicast_destination \<Rightarrow> 'net \<Rightarrow> 'net \<times> multicast_publisher outcome" where
  "make_multicast_publisher udp destination net =
     (case make_feed_encoder 1 of
        Inl f \<Rightarrow> (net, Inl f)
      | Inr encoder \<Rightarrow>
          (case udp_open udp net of
             (net', Inl f) \<Rightarrow> (net', Inl f)
           | (net', Inr _) \<Rightarrow>
               (net', Inr \<lparr>mp_encoder = encoder,
                 mp_destination = \<lparr>ep_host = md_group destination, ep_port = md_port destination\<rparr>\<rparr>)))"

text \<open>The loop body for one encoded datagram: send it, check the count, keep the books.\<close>

definition publish_datagram ::
  "'net udp_ops \<Rightarrow> endpoint \<Rightarrow> encoded_datagram \<Rightarrow> publish_result \<Rightarrow> 'net \<Rightarrow> 'net \<times> publish_result outcome" where
  "publish_datagram udp destination datagram result net =
     (case udp_send_to udp destination (ed_bytes datagram) net of
        (net', Inl f) \<Rightarrow> (net', Inl f)
      | (net', Inr bytes_sent) \<Rightarrow>
          if bytes_sent \<noteq> length (ed_bytes datagram)
          then (net', Inl (Runtime_error ''UDP send did not consume the complete datagram''))
          else (net', Inr \<lparr>
            pub_messages_published = pub_messages_published result + 1,
            pub_bytes_sent = pub_bytes_sent result + of_nat bytes_sent,
            pub_first_sequence = (if pub_messages_published result = 0 then ed_sequence datagram
                                  else pub_first_sequence result),
            pub_last_sequence = ed_sequence datagram\<rparr>))"

fun publish_loop ::
  "endian_ops \<Rightarrow> 'net udp_ops \<Rightarrow> event list \<Rightarrow> publish_result \<Rightarrow> multicast_publisher \<times> 'net \<Rightarrow>
   (multicast_publisher \<times> 'net) \<times> publish_result outcome" where
  "publish_loop ops udp [] result s = (s, Inr result)"
| "publish_loop ops udp (emitted # events) result (p, net) =
     (case feed_encode ops emitted (mp_encoder p) of
        (e, Inl f) \<Rightarrow> ((p\<lparr>mp_encoder := e\<rparr>, net), Inl f)
      | (e, Inr None) \<Rightarrow> publish_loop ops udp events result (p\<lparr>mp_encoder := e\<rparr>, net)
      | (e, Inr (Some datagram)) \<Rightarrow>
          (case publish_datagram udp (mp_destination p) datagram result net of
             (net', Inl f) \<Rightarrow> ((p\<lparr>mp_encoder := e\<rparr>, net'), Inl f)
           | (net', Inr result') \<Rightarrow> publish_loop ops udp events result' (p\<lparr>mp_encoder := e\<rparr>, net')))"

definition publish ::
  "endian_ops \<Rightarrow> 'net udp_ops \<Rightarrow> event list \<Rightarrow> multicast_publisher \<times> 'net \<Rightarrow>
   (multicast_publisher \<times> 'net) \<times> publish_result outcome" where
  "publish ops udp events s = publish_loop ops udp events empty_publish_result s"

subsection \<open>The multicast receiver\<close>

record multicast_subscription =
  ms_group :: string
  ms_port :: u16
  ms_interface_address :: string

datatype multicast_receive_result =
    Received_packet packet endpoint
  | Truncated_packet nat endpoint
  | Malformed_packet decode_error endpoint

definition maximum_udp_payload_size :: nat where
  "maximum_udp_payload_size = 65507"

text \<open>The receiver's own state is its buffer.\<close>

type_synonym multicast_receiver = "u8 list"

definition make_multicast_receiver ::
  "'net udp_ops \<Rightarrow> multicast_subscription \<Rightarrow> 'net \<Rightarrow> 'net \<times> multicast_receiver outcome" where
  "make_multicast_receiver udp subscription net =
     (case udp_bind udp \<lparr>ep_host = ''0.0.0.0'', ep_port = ms_port subscription\<rparr> net of
        (net1, Inl f) \<Rightarrow> (net1, Inl f)
      | (net1, Inr _) \<Rightarrow>
          (case udp_join_multicast_group udp (ms_group subscription) (ms_interface_address subscription) net1 of
             (net2, Inl f) \<Rightarrow> (net2, Inl f)
           | (net2, Inr _) \<Rightarrow> (net2, Inr (replicate maximum_udp_payload_size 0))))"

text \<open>\<^verbatim>\<open>span::first\<close> of more than the buffer holds is undefined.\<close>

definition receive ::
  "endian_ops \<Rightarrow> 'net udp_ops \<Rightarrow> multicast_receiver \<times> 'net \<Rightarrow>
   (multicast_receiver \<times> 'net) \<times> multicast_receive_result outcome" where
  "receive ops udp =
     (\<lambda>(buffer, net).
        case udp_receive_from udp buffer net of
          (net', Inl f) \<Rightarrow> ((buffer, net'), Inl f)
        | (net', Inr received) \<Rightarrow>
            (let buffer' = rd_buffer received; sender = rd_sender received
             in ((buffer', net'),
                 if rd_truncated received then Inr (Truncated_packet (rd_bytes_received received) sender)
                 else if rd_bytes_received received > length buffer'
                   then Inl (Undefined_behaviour ''first beyond the end of the span'')
                 else (case decode ops (take (rd_bytes_received received) buffer') of
                         Inl e \<Rightarrow> Inr (Malformed_packet e sender)
                       | Inr p \<Rightarrow> Inr (Received_packet p sender)))))"

end
