(* ===== verification/Feed_Properties.thy ===== *)
theory Feed_Properties
  imports Feed Codec_Properties
begin

text \<open>
  What the publisher puts on the network: the book updates of the events, in order, under consecutive
  feed sequences. About the socket it assumes only that a send which reports \<open>n\<close> bytes handed over the
  first \<open>n\<close> bytes of the datagram (\<open>sends\<close>).
\<close>

definition encoder_position :: "feed_encoder \<Rightarrow> nat" where
  "encoder_position e = (if fe_sequence_exhausted e then 2 ^ 64 else unat (fe_next_sequence e))"

lemma encoder_position_bound: "encoder_position e \<le> 2 ^ 64"
  using unat_less_exp [of "fe_next_sequence e"] by (simp add: encoder_position_def)

fun event_update :: "event \<Rightarrow> book_update option" where
  "event_update (Book_updated i d p t) = Some (to_book_update i d p t)"
| "event_update _ = None"

definition updates_of :: "event list \<Rightarrow> book_update list" where
  "updates_of events = List.map_filter event_update events"

lemma updates_of_simps [simp]:
  "updates_of [] = []"
  "updates_of (ev # events) = (case event_update ev of None \<Rightarrow> updates_of events | Some u \<Rightarrow> u # updates_of events)"
  "updates_of (xs @ ys) = updates_of xs @ updates_of ys"
  by (simp_all add: updates_of_def map_filter_def split: option.splits)

definition update_packet :: "nat \<Rightarrow> book_update \<Rightarrow> packet" where
  "update_packet n u = \<lparr>pk_sequence = word_of_nat n, pk_payload = Book_update_message u\<rparr>"

text \<open>The updates \<open>us\<close> numbered from \<open>n\<close>.\<close>

fun stream :: "nat \<Rightarrow> book_update list \<Rightarrow> packet list" where
  "stream n [] = []"
| "stream n (u # us) = update_packet n u # stream (Suc n) us"

lemma length_stream [simp]: "length (stream n us) = length us"
  by (induction n us rule: stream.induct) simp_all

lemma stream_append: "stream n (us @ vs) = stream n us @ stream (n + length us) vs"
  by (induction n us rule: stream.induct) simp_all

lemma event_encode:
  "feed_encode ops ev e = (case event_update ev of None \<Rightarrow> (e, Inr None) | Some u \<Rightarrow> encode_update ops u e)"
  by (cases ev) (simp_all add: feed_encode_def)

lemma encode_update_Some:
  assumes "encode_update ops u e = (e', Inr r)"
  obtains bytes where "r = Some \<lparr>ed_sequence = fe_next_sequence e, ed_bytes = bytes\<rparr>"
    "encode ops (update_packet (encoder_position e) u) = Inr bytes"
    "encoder_position e' = Suc (encoder_position e)" "encoder_position e < 2 ^ 64"
    "unat (fe_next_sequence e) = encoder_position e"
proof -
  from assms obtain bytes where ex: "\<not> fe_sequence_exhausted e"
    and r: "r = Some \<lparr>ed_sequence = fe_next_sequence e, ed_bytes = bytes\<rparr>"
    and enc: "encode ops \<lparr>pk_sequence = fe_next_sequence e, pk_payload = Book_update_message u\<rparr> = Inr bytes"
    and e': "e' = (if fe_next_sequence e = - 1 then e\<lparr>fe_sequence_exhausted := True\<rparr>
                 else e\<lparr>fe_next_sequence := fe_next_sequence e + 1\<rparr>)"
    by (auto simp: encode_update_def Let_def split: if_splits sum.splits)
  have pos: "encoder_position e = unat (fe_next_sequence e)" using ex by (simp add: encoder_position_def)
  then have pk: "update_packet (encoder_position e) u = \<lparr>pk_sequence = fe_next_sequence e, pk_payload = Book_update_message u\<rparr>"
    by (simp add: update_packet_def)
  have "encoder_position e' = Suc (encoder_position e)"
    using ex by (simp add: e' encoder_position_def unat_inc unsigned_minus_1_eq_mask mask_eq_exp_minus_1)
  moreover have "encoder_position e < 2 ^ 64" unfolding pos using unsigned_less [of "fe_next_sequence e"] by simp
  ultimately show ?thesis using r enc [folded pk] pos [symmetric] by (intro that)
qed

lemma encode_refusal: "encode ops p = Inl f \<Longrightarrow> \<exists>reason. f = Invalid_argument reason"
  by (auto simp: encode_def encode_book_update_def Let_def split_beta split: if_splits message.splits)

text \<open>C27: a feed sequence is used up exactly when a datagram is produced. Only \<open>book_updated\<close> events produce
  one, under the next sequence; any other event, an update the protocol cannot carry and an
  exhausted sequence leave the encoder unchanged, the last two with an exception.\<close>

theorem sequence_used_only_by_datagrams:
  "case feed_encode ops emitted e of
     (e', Inl f) \<Rightarrow> e' = e \<and> event_update emitted \<noteq> None \<and>
       (if fe_sequence_exhausted e then f = Overflow_error ''market-data sequence is exhausted''
        else \<exists>reason. f = Invalid_argument reason)
   | (e', Inr None) \<Rightarrow> e' = e \<and> event_update emitted = None
   | (e', Inr (Some datagram)) \<Rightarrow> event_update emitted \<noteq> None \<and> encoder_position e < 2 ^ 64 \<and>
       unat (ed_sequence datagram) = encoder_position e \<and> encoder_position e' = Suc (encoder_position e)"
proof (cases "event_update emitted")
  case None
  then show ?thesis by (simp add: event_encode)
next
  case (Some u)
  obtain e' r where u: "encode_update ops u e = (e', r)" by fastforce
  show ?thesis
  proof (cases r)
    case (Inl f)
    with u Some show ?thesis
      by (auto simp: event_encode encode_update_def Let_def dest: encode_refusal split: if_splits sum.splits)
  next
    case (Inr d)
    from encode_update_Some [OF u [unfolded Inr]] show ?thesis
      by (rule encode_update_Some [OF u [unfolded Inr]]) (simp add: event_encode Some u Inr)
  qed
qed

definition sends :: "('net \<Rightarrow> u8 list list) \<Rightarrow> 'net udp_ops \<Rightarrow> bool" where
  "sends log udp \<longleftrightarrow> (\<forall>destination bytes net net' n.
     udp_send_to udp destination bytes net = (net', Inr n) \<longrightarrow> log net' = log net @ [take n bytes])"

text \<open>The result after publishing \<open>k\<close> more datagrams from position \<open>n\<close>.\<close>

definition count_published :: "nat \<Rightarrow> nat \<Rightarrow> publish_result \<Rightarrow> publish_result" where
  "count_published n k r =
     (if k = 0 then r
      else \<lparr>pub_messages_published = pub_messages_published r + word_of_nat k,
            pub_bytes_sent = pub_bytes_sent r + word_of_nat (38 * k),
            pub_first_sequence = (if pub_messages_published r = 0 then word_of_nat n else pub_first_sequence r),
            pub_last_sequence = word_of_nat (n + k - 1)\<rparr>)"

lemma publish_datagram_sent:
  assumes "sends log udp" "publish_datagram udp destination d result net = (net1, Inr result1)"
    and "length (ed_bytes d) = 38" "ed_sequence d = word_of_nat n"
    and "k = 0 \<or> pub_messages_published result + 1 \<noteq> 0"
  shows "log net1 = log net @ [ed_bytes d]"
    "count_published (Suc n) k result1 = count_published n (Suc k) result"
    "pub_messages_published result1 = pub_messages_published result + 1"
  using assms
  by (auto simp: publish_datagram_def sends_def count_published_def algebra_simps split: prod.splits sum.splits if_splits)

text \<open>The message count cannot wrap before the sequence is exhausted.\<close>

lemma message_count_step:
  fixes c :: u64
  assumes "unat c \<le> n"
  shows "unat (c + 1) \<le> Suc n" and "n < 2 ^ 64 \<Longrightarrow> c + 1 \<noteq> 0 \<or> n = 2 ^ 64 - 1"
proof -
  show "unat (c + 1) \<le> Suc n" using assms unat_inc [of c] by (cases "c = - 1") simp_all
  assume n: "n < 2 ^ 64"
  have "unat c = 2 ^ 64 - 1" if "c + 1 = 0" using that by (metis add.inverse_unique add.commute minus_one_unat)
  then show "c + 1 \<noteq> 0 \<or> n = 2 ^ 64 - 1" using assms n by fastforce
qed

lemma publish_loop_stream:
  assumes "endian ops" "sends log udp"
    and "publish_loop ops udp events result (p, net) = ((p', net'), Inr result')"
    and "unat (pub_messages_published result) \<le> encoder_position (mp_encoder p)"
  shows "\<exists>sent. log net' = log net @ sent \<and>
    map (decode ops) sent = map Inr (stream (encoder_position (mp_encoder p)) (updates_of events)) \<and>
    encoder_position (mp_encoder p') = encoder_position (mp_encoder p) + length (updates_of events) \<and>
    result' = count_published (encoder_position (mp_encoder p)) (length (updates_of events)) result"
  using assms(3,4)
proof (induction events arbitrary: result p net)
  case Nil
  then show ?case by (auto simp: count_published_def)
next
  case (Cons ev events)
  obtain e r where en: "feed_encode ops ev (mp_encoder p) = (e, r)" by fastforce
  show ?case
  proof (cases "event_update ev")
    case None
    then have "e = mp_encoder p" "r = Inr None" using en by (simp_all add: event_encode)
    with Cons None en show ?thesis by simp
  next
    case (Some u)
    with en Cons.prems obtain d where d: "encode_update ops u (mp_encoder p) = (e, Inr (Some d))" and r: "r = Inr (Some d)"
      by (auto simp: event_encode encode_update_def Let_def split: sum.splits option.splits if_splits)
    from encode_update_Some [OF d] obtain bytes where
      b: "d = \<lparr>ed_sequence = fe_next_sequence (mp_encoder p), ed_bytes = bytes\<rparr>"
        "encode ops (update_packet (encoder_position (mp_encoder p)) u) = Inr bytes"
        "encoder_position e = Suc (encoder_position (mp_encoder p))"
        "unat (fe_next_sequence (mp_encoder p)) = encoder_position (mp_encoder p)" by auto
    let ?n = "encoder_position (mp_encoder p)"
    have dec: "decode ops bytes = Inr (update_packet ?n u)" and len: "length bytes = 38"
      using endian.decode_encoded [OF assms(1) b(2)] by simp_all
    have seq: "fe_next_sequence (mp_encoder p) = word_of_nat ?n" unfolding b(4) [symmetric] by simp
    obtain net1 result1 where pd: "publish_datagram udp (mp_destination p) d result net = (net1, Inr result1)"
      and rest: "publish_loop ops udp events result1 (p\<lparr>mp_encoder := e\<rparr>, net1) = ((p', net'), Inr result')"
      using Cons.prems by (auto simp: en r split: prod.splits sum.splits)
    note sent1 = publish_datagram_sent [OF assms(2) pd, of ?n, unfolded b(1) encoded_datagram.simps, OF len seq]
    have count1: "pub_messages_published result1 = pub_messages_published result + 1" by (rule sent1(3) [of 0]) simp
    have fits: "unat (pub_messages_published result1) \<le> Suc ?n"
      "pub_messages_published result + 1 \<noteq> 0 \<or> ?n = 2 ^ 64 - 1"
      using message_count_step [OF Cons.prems(2)] unat_less_exp [of "fe_next_sequence (mp_encoder p)"] by (simp_all add: b(4) count1)
    from Cons.IH [OF rest] fits(1) obtain sent where
      "log net' = log net1 @ sent"
      "map (decode ops) sent = map Inr (stream (Suc ?n) (updates_of events))"
      "encoder_position (mp_encoder p') = Suc ?n + length (updates_of events)"
      "result' = count_published (Suc ?n) (length (updates_of events)) result1"
      by (auto simp: b(3))
    moreover have "length (updates_of events) = 0 \<or> pub_messages_published result + 1 \<noteq> 0"
      using fits(2) calculation(3) encoder_position_bound [of "mp_encoder p'"] by auto
    ultimately show ?thesis
      by (intro exI [of _ "bytes # sent"]) (simp add: Some sent1 dec)
  qed
qed

lemma publish_stream:
  assumes "endian ops" "sends log udp" "publish ops udp events (p, net) = ((p', net'), Inr result)"
  shows "\<exists>sent. log net' = log net @ sent \<and>
    map (decode ops) sent = map Inr (stream (encoder_position (mp_encoder p)) (updates_of events)) \<and>
    encoder_position (mp_encoder p') = encoder_position (mp_encoder p) + length (updates_of events) \<and>
    result = count_published (encoder_position (mp_encoder p)) (length (updates_of events)) empty_publish_result"
  by (rule publish_loop_stream [OF assms(1,2) assms(3) [unfolded publish_def]]) (simp add: empty_publish_result_def)

text \<open>C28: what a successful publish sends. The network receives one datagram for each book update among
  the events, in order, and decoding them gives these updates under consecutive sequences from the
  publisher's position, which advances by their number. The result counts the messages and their
  bytes and names the first and last sequence.\<close>

theorem published_datagrams_decode_to_the_updates:
  assumes "endian ops" "sends log udp"
    and "publish ops udp events (p, net) = ((p', net'), Inr result)"
  shows "map (decode ops) (drop (length (log net)) (log net')) =
      map Inr (stream (encoder_position (mp_encoder p)) (updates_of events)) \<and>
    take (length (log net)) (log net') = log net \<and>
    encoder_position (mp_encoder p') = encoder_position (mp_encoder p) + length (updates_of events) \<and>
    result = count_published (encoder_position (mp_encoder p)) (length (updates_of events)) empty_publish_result"
  using publish_stream [OF assms] by auto

definition wire_net :: "u8 list list udp_ops" where
  "wire_net = \<lparr>udp_open = \<lambda>net. (net, Inr ()), udp_bind = \<lambda>_ net. (net, Inr ()),
     udp_join_multicast_group = \<lambda>_ _ net. (net, Inr ()),
     udp_send_to = \<lambda>_ bytes net. (net @ [bytes], Inr (length bytes)),
     udp_receive_from = \<lambda>buffer net. (net, Inl (Runtime_error ''nothing to receive''))\<rparr>"

lemma wire_net_sends: "sends id wire_net"
  by (simp add: sends_def wire_net_def)

definition new_publisher :: multicast_publisher where
  "new_publisher = \<lparr>mp_encoder = \<lparr>fe_next_sequence = 1, fe_sequence_exhausted = False\<rparr>,
     mp_destination = \<lparr>ep_host = ''239.1.1.1'', ep_port = 5000\<rparr>\<rparr>"

lemma published_datagrams_decode_to_the_updates_witness:
  "map (decode network_order)
     (snd (fst (publish network_order wire_net
       [Book_updated (Symbol_id 1) Buy (Some (Price 100)) 5, Book_updated (Symbol_id 1) Buy None 0] (new_publisher, [])))) =
   map Inr (stream 1 [to_book_update (Symbol_id 1) Buy (Some (Price 100)) 5, to_book_update (Symbol_id 1) Buy None 0])"
proof -
  let ?x = "publish network_order wire_net
       [Book_updated (Symbol_id 1) Buy (Some (Price 100)) 5, Book_updated (Symbol_id 1) Buy None 0] (new_publisher, [])"
  have "snd ?x = Inr \<lparr>pub_messages_published = 2, pub_bytes_sent = 76, pub_first_sequence = 1, pub_last_sequence = 2\<rparr>"
    by code_simp
  then have "?x = ((fst (fst ?x), snd (fst ?x)),
      Inr \<lparr>pub_messages_published = 2, pub_bytes_sent = 76, pub_first_sequence = 1, pub_last_sequence = 2\<rparr>)"
    by (metis prod.collapse)
  from published_datagrams_decode_to_the_updates [OF network.endian_axioms wire_net_sends this] show ?thesis
    by (simp add: new_publisher_def encoder_position_def)
qed

end
