(* ===== verification/Top_Of_Book_View.thy ===== *)
theory Top_Of_Book_View
  imports Codec
begin

text \<open>
  The top-of-book view of a feed consumer
  (\<^verbatim>\<open>components/market_data/feed\<close>: \<^verbatim>\<open>top_of_book.hpp\<close>, \<^verbatim>\<open>top_of_book_view.hpp\<close>, \<^verbatim>\<open>top_of_book_view.cpp\<close>).
  An instrument is current only after a snapshot established it; incremental updates at or below the
  sequence it has seen, and all updates of other instruments, are ignored; \<open>invalidate\<close> makes
  everything stale until re-established. The unordered map is a partial function.
\<close>

record top_of_book_level =
  tl_price :: u64
  tl_aggregate_size :: u64

record top_of_book_snapshot =
  ts_instrument :: md_symbol_id
  ts_reference_sequence :: u64
  ts_best_bid :: "top_of_book_level option"
  ts_best_ask :: "top_of_book_level option"

datatype view_state = Awaiting_snapshot | Current | Stale

record view_book =
  vb_state :: view_state
  vb_last_sequence :: u64
  vb_best_bid :: "top_of_book_level option"
  vb_best_ask :: "top_of_book_level option"

record top_of_book_view =
  tv_books :: "md_symbol_id \<rightharpoonup> view_book"
  tv_stream_stale :: bool

definition empty_view :: top_of_book_view where
  "empty_view = \<lparr>tv_books = Map.empty, tv_stream_stale = False\<rparr>"

definition establish :: "top_of_book_snapshot \<Rightarrow> top_of_book_view \<Rightarrow> top_of_book_view" where
  "establish snapshot v = v\<lparr>tv_books := (tv_books v)(ts_instrument snapshot \<mapsto>
     \<lparr>vb_state = Current, vb_last_sequence = ts_reference_sequence snapshot,
      vb_best_bid = ts_best_bid snapshot, vb_best_ask = ts_best_ask snapshot\<rparr>)\<rparr>"

definition invalidate :: "top_of_book_view \<Rightarrow> top_of_book_view" where
  "invalidate v = \<lparr>tv_books = map_option (\<lambda>b. b\<lparr>vb_state := Stale\<rparr>) \<circ> tv_books v,
     tv_stream_stale = True\<rparr>"

definition view_state_of :: "md_symbol_id \<Rightarrow> top_of_book_view \<Rightarrow> view_state" where
  "view_state_of instrument v =
     (case tv_books v instrument of
        Some b \<Rightarrow> vb_state b
      | None \<Rightarrow> if tv_stream_stale v then Stale else Awaiting_snapshot)"

definition view_get :: "md_symbol_id \<Rightarrow> top_of_book_view \<Rightarrow> top_of_book_snapshot option" where
  "view_get instrument v =
     (case tv_books v instrument of
        None \<Rightarrow> None
      | Some b \<Rightarrow>
          if vb_state b \<noteq> Current then None
          else Some \<lparr>ts_instrument = instrument, ts_reference_sequence = vb_last_sequence b,
                     ts_best_bid = vb_best_bid b, ts_best_ask = vb_best_ask b\<rparr>)"

definition update_level :: "book_update \<Rightarrow> top_of_book_level option" where
  "update_level u = map_option (\<lambda>p. \<lparr>tl_price = p, tl_aggregate_size = bu_aggregate_size u\<rparr>) (bu_best_price u)"

definition view_apply :: "u64 \<Rightarrow> book_update \<Rightarrow> top_of_book_view \<Rightarrow> top_of_book_view" where
  "view_apply sequence update v =
     (case tv_books v (bu_instrument update) of
        None \<Rightarrow> v
      | Some b \<Rightarrow>
          if vb_state b \<noteq> Current \<or> sequence \<le> vb_last_sequence b then v
          else
            (let level = update_level update;
                 b1 = (if bu_direction update = Md_buy then b\<lparr>vb_best_bid := level\<rparr>
                       else b\<lparr>vb_best_ask := level\<rparr>)
             in v\<lparr>tv_books := (tv_books v)(bu_instrument update \<mapsto> b1\<lparr>vb_last_sequence := sequence\<rparr>)\<rparr>))"

subsection \<open>What a run of updates shows\<close>

type_synonym numbered_update = "u64 \<times> book_update"

definition apply_all :: "numbered_update list \<Rightarrow> top_of_book_view \<Rightarrow> top_of_book_view" where
  "apply_all us v = fold (\<lambda>(s, u). view_apply s u) us v"

lemma apply_all_simps [simp]:
  "apply_all [] v = v"
  "apply_all (us @ [(s, u)]) v = view_apply s u (apply_all us v)"
  by (simp_all add: apply_all_def)

text \<open>The updates that concern a snapshot, and the last one on a side.\<close>

definition relevant :: "top_of_book_snapshot \<Rightarrow> numbered_update list \<Rightarrow> numbered_update list" where
  "relevant snapshot us = filter (\<lambda>(s, u). bu_instrument u = ts_instrument snapshot \<and>
     ts_reference_sequence snapshot < s) us"

definition last_level ::
  "md_side \<Rightarrow> top_of_book_level option \<Rightarrow> numbered_update list \<Rightarrow> top_of_book_level option" where
  "last_level d base us =
     (let xs = filter (\<lambda>(s, u). bu_direction u = d) us
      in if xs = [] then base else update_level (snd (last xs)))"

definition last_number :: "u64 \<Rightarrow> numbered_update list \<Rightarrow> u64" where
  "last_number base us = (if us = [] then base else fst (last us))"

lemma last_level_snoc:
  "last_level d base (us @ [(s, u)]) = (if bu_direction u = d then update_level u else last_level d base us)"
  by (simp add: last_level_def Let_def)

lemma relevant_snoc:
  "relevant snapshot (us @ [(s, u)]) = relevant snapshot us @
     (if bu_instrument u = ts_instrument snapshot \<and> ts_reference_sequence snapshot < s then [(s, u)] else [])"
  by (simp add: relevant_def)

text \<open>With strictly increasing sequences nothing relevant is skipped.\<close>

lemma apply_all_book:
  assumes "sorted_wrt (<) (map fst us)"
  shows "tv_books (apply_all us (establish snapshot v)) (ts_instrument snapshot) =
    Some \<lparr>vb_state = Current, vb_last_sequence = last_number (ts_reference_sequence snapshot) (relevant snapshot us),
      vb_best_bid = last_level Md_buy (ts_best_bid snapshot) (relevant snapshot us),
      vb_best_ask = last_level Md_sell (ts_best_ask snapshot) (relevant snapshot us)\<rparr>"
  using assms
proof (induction us rule: rev_induct)
  case Nil
  then show ?case by (simp add: establish_def relevant_def last_number_def last_level_def)
next
  case (snoc x us)
  obtain s u where x: "x = (s, u)" by fastforce
  have less: "\<forall>y \<in> set us. fst y < s" using snoc.prems by (simp add: x sorted_wrt_append)
  have IH: "tv_books (apply_all us (establish snapshot v)) (ts_instrument snapshot) =
    Some \<lparr>vb_state = Current, vb_last_sequence = last_number (ts_reference_sequence snapshot) (relevant snapshot us),
      vb_best_bid = last_level Md_buy (ts_best_bid snapshot) (relevant snapshot us),
      vb_best_ask = last_level Md_sell (ts_best_ask snapshot) (relevant snapshot us)\<rparr>"
    using snoc by (simp add: sorted_wrt_append)
  show ?case
  proof (cases "bu_instrument u = ts_instrument snapshot")
    case False
    then show ?thesis
      using IH by (simp add: x relevant_snoc view_apply_def Let_def split: option.splits)
  next
    case True
    have number: "last_number (ts_reference_sequence snapshot) (relevant snapshot us) < s \<longleftrightarrow>
        ts_reference_sequence snapshot < s"
    proof (cases "relevant snapshot us = []")
      case False
      then have "last (relevant snapshot us) \<in> set (relevant snapshot us)" by simp
      then have "last (relevant snapshot us) \<in> set us" "ts_reference_sequence snapshot < fst (last (relevant snapshot us))"
        by (auto simp: relevant_def)
      with False less show ?thesis by (auto simp: last_number_def intro: order_less_trans)
    qed (simp add: last_number_def)
    have old: "last_number (ts_reference_sequence snapshot) (relevant snapshot us) \<ge> s \<longleftrightarrow>
        \<not> ts_reference_sequence snapshot < s"
      using number by (simp add: not_less [symmetric])
    have side: "bu_direction u \<noteq> Md_buy \<longleftrightarrow> bu_direction u = Md_sell" by (cases "bu_direction u") simp_all
    show ?thesis
      using IH True
      by (simp add: x relevant_snoc view_apply_def old Let_def last_level_snoc side)
        (simp add: last_number_def)
  qed
qed

subsection \<open>Properties\<close>

text \<open>C29: what a current view shows. After a snapshot and any run of updates with increasing sequences, for
  any instruments, the view of the snapshot's instrument is current and holds, on each side, the
  level of the last update for that instrument and side that is newer than the snapshot, or the
  snapshot's level when there is none, and the sequence of the last such update of either side.\<close>

theorem view_tracks_the_latest_updates:
  assumes "sorted_wrt (<) (map fst us)"
  shows "view_get (ts_instrument snapshot) (apply_all us (establish snapshot v)) =
    Some \<lparr>ts_instrument = ts_instrument snapshot,
      ts_reference_sequence = last_number (ts_reference_sequence snapshot) (relevant snapshot us),
      ts_best_bid = last_level Md_buy (ts_best_bid snapshot) (relevant snapshot us),
      ts_best_ask = last_level Md_sell (ts_best_ask snapshot) (relevant snapshot us)\<rparr>"
  using apply_all_book [OF assms] by (simp add: view_get_def)

definition sample_snapshot :: top_of_book_snapshot where
  "sample_snapshot = \<lparr>ts_instrument = Md_symbol_id 3, ts_reference_sequence = 5,
     ts_best_bid = None, ts_best_ask = None\<rparr>"

definition sample_updates :: "numbered_update list" where
  "sample_updates =
     [(5, \<lparr>bu_instrument = Md_symbol_id 3, bu_direction = Md_buy, bu_best_price = Some 99, bu_aggregate_size = 1\<rparr>),
      (6, \<lparr>bu_instrument = Md_symbol_id 3, bu_direction = Md_sell, bu_best_price = Some 101, bu_aggregate_size = 4\<rparr>)]"

lemma view_tracks_the_latest_updates_witness:
  "view_get (Md_symbol_id 3) (apply_all sample_updates (establish sample_snapshot empty_view)) =
    Some \<lparr>ts_instrument = Md_symbol_id 3, ts_reference_sequence = 6, ts_best_bid = None,
      ts_best_ask = Some \<lparr>tl_price = 101, tl_aggregate_size = 4\<rparr>\<rparr>"
proof -
  have "sorted_wrt (<) (map fst sample_updates)" by (simp add: sample_updates_def)
  from view_tracks_the_latest_updates [OF this, of sample_snapshot empty_view] show ?thesis
    by (simp add: sample_snapshot_def sample_updates_def relevant_def last_number_def last_level_def update_level_def)
qed

text \<open>C30: staleness. After \<open>invalidate\<close> every instrument, known or not, is stale and shows nothing, and no
  run of updates changes that; a new snapshot makes exactly its own instrument current again.\<close>

theorem invalidated_until_reestablished:
  "view_state_of i (apply_all us (invalidate v)) = Stale \<and>
   view_get i (apply_all us (invalidate v)) = None \<and>
   view_state_of i (establish snapshot (apply_all us (invalidate v))) =
     (if i = ts_instrument snapshot then Current else Stale)"
proof -
  have inv: "tv_stream_stale (apply_all us (invalidate v)) \<and>
      (\<forall>j b. tv_books (apply_all us (invalidate v)) j = Some b \<longrightarrow> vb_state b = Stale)"
  proof (induction us rule: rev_induct)
    case Nil
    then show ?case by (auto simp: invalidate_def)
  next
    case (snoc x us)
    then show ?case
      by (cases x) (auto simp: view_apply_def Let_def split: option.splits)
  qed
  then show ?thesis
    by (auto simp: view_state_of_def view_get_def establish_def split: option.splits)
qed

end
