(* ===== verification/Runner.thy ===== *)
theory Runner
  imports Engine_Facts
begin

text \<open>
  The threaded runner around the engine
  (\<^verbatim>\<open>components/matching/runtime\<close>: \<^verbatim>\<open>commands.hpp\<close>, \<^verbatim>\<open>runner.hpp\<close>, \<^verbatim>\<open>runner.cpp\<close>). Client threads call
  \<^verbatim>\<open>start\<close>, \<^verbatim>\<open>stop\<close> and the requests; one worker thread pops commands and runs the engine. A call is
  a program counter that moves by one atomic access at a time, so calls interleave freely with each
  other and with the worker. The queue is \<^verbatim>\<open>bounded_blocking_queue\<close> of the external ObzLib: its
  operations are a parameter, its contract is the locale \<open>blocking_queue\<close>.
\<close>

subsection \<open>The queue of ObzLib\<close>

text \<open>
  \<open>None\<close> is a call that blocks. A push reports whether the value was taken; a pop yields a value, or
  nothing when the queue is closed and drained.
\<close>

record ('a, 'q) queue_ops =
  bq_push :: "'a \<Rightarrow> 'q \<Rightarrow> ('q \<times> bool) option"
  bq_wait_and_pop :: "'q \<Rightarrow> ('q \<times> 'a option) option"
  bq_close :: "'q \<Rightarrow> 'q"

locale blocking_queue =
  fixes ops :: "('a, 'q) queue_ops" and contents :: "'q \<Rightarrow> 'a list" and closed :: "'q \<Rightarrow> bool"
  assumes push_taken: "bq_push ops x q = Some (q', True) \<Longrightarrow>
      contents q' = contents q @ [x] \<and> \<not> closed q \<and> \<not> closed q'"
    and push_refused: "bq_push ops x q = Some (q', False) \<Longrightarrow> contents q' = contents q \<and> closed q \<and> closed q'"
    and pop_value: "bq_wait_and_pop ops q = Some (q', Some x) \<Longrightarrow>
      contents q = x # contents q' \<and> closed q' = closed q"
    and pop_end: "bq_wait_and_pop ops q = Some (q', None) \<Longrightarrow>
      contents q = [] \<and> contents q' = [] \<and> closed q \<and> closed q'"
    and close_keeps: "contents (bq_close ops q) = contents q \<and> closed (bq_close ops q)"
    and closed_pop: "closed q \<Longrightarrow> bq_wait_and_pop ops q \<noteq> None"

text \<open>A queue of this kind: a list with a capacity.\<close>

record 'a bounded_queue =
  bnd_items :: "'a list"
  bnd_capacity :: nat
  bnd_closed :: bool

definition bounded_ops :: "('a, 'a bounded_queue) queue_ops" where
  "bounded_ops =
     \<lparr>bq_push = \<lambda>x q.
        if bnd_closed q then Some (q, False)
        else if bnd_capacity q \<le> length (bnd_items q) then None
        else Some (q\<lparr>bnd_items := bnd_items q @ [x]\<rparr>, True),
      bq_wait_and_pop = \<lambda>q.
        case bnd_items q of
          [] \<Rightarrow> if bnd_closed q then Some (q, None) else None
        | x # xs \<Rightarrow> Some (q\<lparr>bnd_items := xs\<rparr>, Some x),
      bq_close = \<lambda>q. q\<lparr>bnd_closed := True\<rparr>\<rparr>"

interpretation bounded: blocking_queue bounded_ops bnd_items bnd_closed
  by unfold_locales (auto simp: bounded_ops_def split: if_splits list.splits)

subsection \<open>The runner's state and calls\<close>

text \<open>A request's promise and future are its ticket.\<close>

type_synonym ticket = nat
type_synonym thread_id = nat
type_synonym queued_command = "ticket \<times> command"

datatype worker_thread = No_worker | Running | Finished | Joined

datatype call =
    Start_check
  | Start_exchange
  | Start_spawn
  | Stop_exchange
  | Stop_set_closed
  | Stop_close_queue
  | Stop_join
  | Enqueue_check queued_command
  | Enqueue_push queued_command

record 'q runner =
  rn_engine :: engine
  rn_commands :: 'q
  rn_worker :: worker_thread
  rn_command :: "queued_command option"
  rn_accepting :: bool
  rn_closed :: bool
  rn_next_ticket :: ticket
  rn_calls :: "thread_id \<rightharpoonup> call"

definition make_runner :: "'q \<Rightarrow> 'q runner" where
  "make_runner commands = \<lparr>rn_engine = initial_engine, rn_commands = commands, rn_worker = No_worker,
     rn_command = None, rn_accepting = False, rn_closed = False, rn_next_ticket = 0, rn_calls = Map.empty\<rparr>"

definition running :: "'q runner \<Rightarrow> bool" where
  "running r = rn_accepting r"

text \<open>What an atomic step of a call does next, and what an observer sees of it.\<close>

datatype progress = Continue call | Return | Throw fault

datatype observation =
    Silent
  | Pushed queued_command bool
  | Answered ticket "reply outcome"
  | Returned thread_id
  | Threw thread_id fault

definition joinable :: "worker_thread \<Rightarrow> bool" where
  "joinable w \<longleftrightarrow> w = Running \<or> w = Finished"

text \<open>Assigning to a joinable \<^verbatim>\<open>std::thread\<close> calls \<^verbatim>\<open>std::terminate\<close>.\<close>

fun start_step :: "call \<Rightarrow> 'q runner \<Rightarrow> 'q runner \<times> progress" where
  "start_step Start_check r =
     (r, if rn_closed r then Throw (Runtime_error ''runner cannot be restarted after stop'')
         else Continue Start_exchange)"
| "start_step Start_exchange r =
     (if rn_accepting r then (r, Throw (Runtime_error ''runner is already running''))
      else (r\<lparr>rn_accepting := True\<rparr>, Continue Start_spawn))"
| "start_step Start_spawn r =
     (if joinable (rn_worker r)
      then (r, Throw (Undefined_behaviour ''std::terminate: assignment to a joinable thread''))
      else (r\<lparr>rn_worker := Running\<rparr>, Return))"
| "start_step _ r = (r, Return)"

fun stop_step :: "('a, 'q) queue_ops \<Rightarrow> call \<Rightarrow> 'q runner \<Rightarrow> ('q runner \<times> progress) option" where
  "stop_step ops Stop_exchange r =
     Some (if rn_accepting r then (r\<lparr>rn_accepting := False\<rparr>, Continue Stop_set_closed) else (r, Return))"
| "stop_step ops Stop_set_closed r = Some (r\<lparr>rn_closed := True\<rparr>, Continue Stop_close_queue)"
| "stop_step ops Stop_close_queue r =
     Some (r\<lparr>rn_commands := bq_close ops (rn_commands r)\<rparr>, Continue Stop_join)"
| "stop_step ops Stop_join r =
     (if \<not> joinable (rn_worker r) then Some (r, Return)
      else if rn_worker r = Running then None
      else Some (r\<lparr>rn_worker := Joined\<rparr>, Return))"
| "stop_step ops _ r = Some (r, Return)"

text \<open>The result of the push is ignored by the code; the observation records it.\<close>

fun enqueue_step :: "(queued_command, 'q) queue_ops \<Rightarrow> call \<Rightarrow> 'q runner \<Rightarrow>
  ('q runner \<times> progress \<times> observation) option" where
  "enqueue_step ops (Enqueue_check c) r =
     Some (r, if rn_accepting r then Continue (Enqueue_push c)
              else Throw (Runtime_error ''runner is not running''), Silent)"
| "enqueue_step ops (Enqueue_push c) r =
     (case bq_push ops c (rn_commands r) of
        None \<Rightarrow> None
      | Some (q, taken) \<Rightarrow> Some (r\<lparr>rn_commands := q\<rparr>, Return, Pushed c taken))"
| "enqueue_step ops _ r = Some (r, Return, Silent)"

definition call_step :: "(queued_command, 'q) queue_ops \<Rightarrow> call \<Rightarrow> 'q runner \<Rightarrow>
  ('q runner \<times> progress \<times> observation) option" where
  "call_step ops c r =
     (if c \<in> {Start_check, Start_exchange, Start_spawn}
        then (case start_step c r of (r', p) \<Rightarrow> Some (r', p, Silent))
      else if c \<in> {Stop_exchange, Stop_set_closed, Stop_close_queue, Stop_join}
        then map_option (\<lambda>(r', p). (r', p, Silent)) (stop_step ops c r)
      else enqueue_step ops c r)"

text \<open>The worker: \<^verbatim>\<open>run\<close> pops a command, \<^verbatim>\<open>process\<close> executes it and resolves its promise.\<close>

definition pop_step :: "(queued_command, 'q) queue_ops \<Rightarrow> 'q runner \<Rightarrow> 'q runner option" where
  "pop_step ops r =
     (case bq_wait_and_pop ops (rn_commands r) of
        None \<Rightarrow> None
      | Some (q, None) \<Rightarrow> Some (r\<lparr>rn_commands := q, rn_worker := Finished\<rparr>)
      | Some (q, Some c) \<Rightarrow> Some (r\<lparr>rn_commands := q, rn_command := Some c\<rparr>))"

definition process_command :: "queued_command \<Rightarrow> 'q runner \<Rightarrow> 'q runner \<times> observation" where
  "process_command queued r =
     (case engine_execute (snd queued) (rn_engine r) of
        (e, result) \<Rightarrow> (r\<lparr>rn_engine := e, rn_command := None\<rparr>, Answered (fst queued) result))"

definition worker_step :: "(queued_command, 'q) queue_ops \<Rightarrow> 'q runner \<Rightarrow> ('q runner \<times> observation) option" where
  "worker_step ops r =
     (if rn_worker r \<noteq> Running then None
      else (case rn_command r of
              None \<Rightarrow> map_option (\<lambda>r'. (r', Silent)) (pop_step ops r)
            | Some c \<Rightarrow> Some (process_command c r)))"

subsection \<open>Interleavings\<close>

text \<open>The scheduler's choices: a thread begins a call, a call moves on, the worker moves on.\<close>

datatype action =
    Begin_start thread_id
  | Begin_stop thread_id
  | Begin_request thread_id command
  | Advance thread_id
  | Work

definition begin_call :: "thread_id \<Rightarrow> call \<Rightarrow> 'q runner \<Rightarrow> 'q runner option" where
  "begin_call t c r = (if rn_calls r t = None then Some (r\<lparr>rn_calls := (rn_calls r)(t \<mapsto> c)\<rparr>) else None)"

definition settle :: "thread_id \<Rightarrow> progress \<Rightarrow> observation \<Rightarrow> 'q runner \<Rightarrow> 'q runner \<times> observation list" where
  "settle t p ob r =
     (case p of
        Continue c \<Rightarrow> (r\<lparr>rn_calls := (rn_calls r)(t \<mapsto> c)\<rparr>, [ob])
      | Return \<Rightarrow> (r\<lparr>rn_calls := (rn_calls r)(t := None)\<rparr>, [ob, Returned t])
      | Throw f \<Rightarrow> (r\<lparr>rn_calls := (rn_calls r)(t := None)\<rparr>, [ob, Threw t f]))"

fun perform :: "(queued_command, 'q) queue_ops \<Rightarrow> action \<Rightarrow> 'q runner \<Rightarrow> ('q runner \<times> observation list) option" where
  "perform ops (Begin_start t) r = map_option (\<lambda>r'. (r', [])) (begin_call t Start_check r)"
| "perform ops (Begin_stop t) r = map_option (\<lambda>r'. (r', [])) (begin_call t Stop_exchange r)"
| "perform ops (Begin_request t c) r =
     map_option (\<lambda>r'. (r'\<lparr>rn_next_ticket := Suc (rn_next_ticket r)\<rparr>, []))
       (begin_call t (Enqueue_check (rn_next_ticket r, c)) r)"
| "perform ops (Advance t) r =
     (case rn_calls r t of
        None \<Rightarrow> None
      | Some c \<Rightarrow> (case call_step ops c r of None \<Rightarrow> None | Some (r', p, ob) \<Rightarrow> Some (settle t p ob r')))"
| "perform ops Work r = map_option (\<lambda>(r', ob). (r', [ob])) (worker_step ops r)"

fun perform_all :: "(queued_command, 'q) queue_ops \<Rightarrow> action list \<Rightarrow> 'q runner \<Rightarrow> ('q runner \<times> observation list) option" where
  "perform_all ops [] r = Some (r, [])"
| "perform_all ops (a # as) r =
     (case perform ops a r of
        None \<Rightarrow> None
      | Some (r1, obs1) \<Rightarrow>
          (case perform_all ops as r1 of None \<Rightarrow> None | Some (r2, obs2) \<Rightarrow> Some (r2, obs1 @ obs2)))"

end
