(* ===== verification/Runner_Properties.thy ===== *)
theory Runner_Properties
  imports Runner Engine_Properties
begin

text \<open>
  What the runner promises under every interleaving: the requests it takes are executed one after
  the other in the order they were taken, each is answered once, a stop drains the queue and
  returns, and a runner started and stopped by one thread never loses its worker. The last section
  shows by concrete interleavings what it does not promise.
\<close>

subsection \<open>What an observer sees\<close>

fun taken_of :: "observation list \<Rightarrow> queued_command list" where
  "taken_of [] = []"
| "taken_of (Pushed c True # obs) = c # taken_of obs"
| "taken_of (_ # obs) = taken_of obs"

fun answers_of :: "observation list \<Rightarrow> (ticket \<times> reply outcome) list" where
  "answers_of [] = []"
| "answers_of (Answered k a # obs) = (k, a) # answers_of obs"
| "answers_of (_ # obs) = answers_of obs"

lemma taken_of_append [simp]: "taken_of (xs @ ys) = taken_of xs @ taken_of ys"
  by (induction xs rule: taken_of.induct) auto

lemma answers_of_append [simp]: "answers_of (xs @ ys) = answers_of xs @ answers_of ys"
  by (induction xs rule: answers_of.induct) auto

definition in_hand :: "'q runner \<Rightarrow> queued_command list" where
  "in_hand r = (case rn_command r of None \<Rightarrow> [] | Some c \<Rightarrow> [c])"

lemma in_hand_simps [simp]:
  "in_hand (r\<lparr>rn_command := None\<rparr>) = []"
  "in_hand (r\<lparr>rn_command := Some c\<rparr>) = [c]"
  "in_hand (r\<lparr>rn_engine := e\<rparr>) = in_hand r"
  "in_hand (r\<lparr>rn_commands := q\<rparr>) = in_hand r"
  "in_hand (r\<lparr>rn_worker := w\<rparr>) = in_hand r"
  "in_hand (r\<lparr>rn_accepting := b\<rparr>) = in_hand r"
  "in_hand (r\<lparr>rn_closed := b\<rparr>) = in_hand r"
  "in_hand (r\<lparr>rn_next_ticket := n\<rparr>) = in_hand r"
  "in_hand (r\<lparr>rn_calls := cs\<rparr>) = in_hand r"
  by (simp_all add: in_hand_def)

subsection \<open>Executing a batch of queued commands\<close>

definition batch :: "queued_command list \<Rightarrow> engine \<Rightarrow> engine \<times> (ticket \<times> reply outcome) list" where
  "batch cs e = (case engine_run (map snd cs) e of (e', rs) \<Rightarrow> (e', zip (map fst cs) rs))"

lemma length_engine_run [simp]: "length (snd (engine_run cs e)) = length cs"
  by (induction cs arbitrary: e) (auto split: prod.splits, metis snd_conv)

lemma batch_Nil [simp]: "batch [] e = (e, [])"
  by (simp add: batch_def)

lemma batch_Cons:
  "batch (c # cs) e =
     (case engine_execute (snd c) e of (e1, a) \<Rightarrow> map_prod id ((#) (fst c, a)) (batch cs e1))"
  by (simp add: batch_def split: prod.splits)

lemma batch_append:
  "batch (cs @ ds) e = (case batch cs e of (e1, xs) \<Rightarrow> map_prod id ((@) xs) (batch ds e1))"
  by (induction cs arbitrary: e) (auto simp: batch_Cons map_prod_def split: prod.splits)

lemma length_batch [simp]: "length (snd (batch cs e)) = length cs"
  by (auto simp: batch_def split: prod.splits) (metis length_engine_run length_map snd_conv min.idem)

lemma batch_tickets: "batch cs e = (e', xs) \<Longrightarrow> map fst xs = map fst cs"
  by (auto simp: batch_def split: prod.splits) (metis length_engine_run length_map map_fst_zip snd_conv)

subsection \<open>The requests are serialised\<close>

text \<open>
  What a step does to the line of requests: those already taken and not yet answered, in order, are
  the one in the worker's hand and the contents of the queue.
\<close>

definition line_step :: "('q \<Rightarrow> queued_command list) \<Rightarrow> 'q runner \<Rightarrow> observation list \<Rightarrow> 'q runner \<Rightarrow> bool" where
  "line_step contents r obs r' \<longleftrightarrow>
     (\<exists>finished. in_hand r @ contents (rn_commands r) @ taken_of obs
                 = finished @ in_hand r' @ contents (rn_commands r')
               \<and> batch finished (rn_engine r) = (rn_engine r', answers_of obs))"

lemma line_step_refl: "line_step contents r [] r"
  by (simp add: line_step_def)

lemma line_stepI_none:
  "\<lbrakk>in_hand r @ contents (rn_commands r) @ taken_of obs = in_hand r' @ contents (rn_commands r');
    rn_engine r' = rn_engine r; answers_of obs = []\<rbrakk> \<Longrightarrow> line_step contents r obs r'"
  unfolding line_step_def by (intro exI [of _ "[]"]) simp

lemma line_step_trans:
  assumes "line_step contents r obs1 r1" and "line_step contents r1 obs2 r2"
  shows "line_step contents r (obs1 @ obs2) r2"
proof -
  from assms(1) obtain f1 where f1:
    "in_hand r @ contents (rn_commands r) @ taken_of obs1 = f1 @ in_hand r1 @ contents (rn_commands r1)"
    "batch f1 (rn_engine r) = (rn_engine r1, answers_of obs1)" by (auto simp: line_step_def)
  from assms(2) obtain f2 where f2:
    "in_hand r1 @ contents (rn_commands r1) @ taken_of obs2 = f2 @ in_hand r2 @ contents (rn_commands r2)"
    "batch f2 (rn_engine r1) = (rn_engine r2, answers_of obs2)" by (auto simp: line_step_def)
  have "in_hand r @ contents (rn_commands r) @ taken_of (obs1 @ obs2)
        = (f1 @ f2) @ in_hand r2 @ contents (rn_commands r2)"
    using f1(1) f2(1) by (metis append.assoc taken_of_append)
  moreover have "batch (f1 @ f2) (rn_engine r) = (rn_engine r2, answers_of (obs1 @ obs2))"
    using f1(2) f2(2) by (simp add: batch_append)
  ultimately show ?thesis by (auto simp: line_step_def)
qed

lemma start_step_frame:
  "start_step c r = (r', p) \<Longrightarrow>
   rn_engine r' = rn_engine r \<and> rn_commands r' = rn_commands r \<and> rn_command r' = rn_command r \<and>
   rn_calls r' = rn_calls r \<and> rn_next_ticket r' = rn_next_ticket r"
  by (cases c) (auto split: if_splits)

lemma stop_step_frame:
  "stop_step ops c r = Some (r', p) \<Longrightarrow>
   rn_engine r' = rn_engine r \<and> rn_command r' = rn_command r \<and>
   (rn_commands r' = rn_commands r \<or> rn_commands r' = bq_close ops (rn_commands r)) \<and>
   rn_calls r' = rn_calls r \<and> rn_next_ticket r' = rn_next_ticket r"
  by (cases c) (auto split: if_splits)

lemma enqueue_step_cases:
  assumes "enqueue_step ops c r = Some (r', p, ob)"
  obtains "r' = r" and "ob = Silent"
    | cmd q taken where "c = Enqueue_push cmd" and "bq_push ops cmd (rn_commands r) = Some (q, taken)"
        and "r' = r\<lparr>rn_commands := q\<rparr>" and "p = Return" and "ob = Pushed cmd taken"
proof (cases c)
  case (Enqueue_push cmd)
  from assms Enqueue_push obtain q taken where
    "bq_push ops cmd (rn_commands r) = Some (q, taken)" "r' = r\<lparr>rn_commands := q\<rparr>" "p = Return" "ob = Pushed cmd taken"
    by (auto split: option.splits)
  with Enqueue_push show thesis by (rule that(2))
qed (use assms that(1) in auto)

lemma settle_frame:
  assumes "settle t p ob r = (r', obs)"
  shows "rn_engine r' = rn_engine r" "rn_commands r' = rn_commands r" "in_hand r' = in_hand r"
    "rn_worker r' = rn_worker r" "rn_accepting r' = rn_accepting r" "rn_closed r' = rn_closed r"
    "rn_next_ticket r' = rn_next_ticket r" "taken_of obs = taken_of [ob]" "answers_of obs = answers_of [ob]"
proof -
  have "taken_of obs = taken_of [ob] \<and> answers_of obs = answers_of [ob]"
    using assms taken_of_append [of "[ob]" "tl obs"] answers_of_append [of "[ob]" "tl obs"]
    by (cases p) (auto simp: settle_def)
  then show "taken_of obs = taken_of [ob]" "answers_of obs = answers_of [ob]" by simp_all
qed (use assms in \<open>cases p; auto simp: settle_def in_hand_def\<close>)+

locale command_queue = blocking_queue ops contents closed
  for ops :: "(queued_command, 'q) queue_ops" and contents :: "'q \<Rightarrow> queued_command list" and closed
begin

lemma call_step_frame:
  assumes "call_step ops c r = Some (r', p, ob)"
  shows "rn_engine r' = rn_engine r" "rn_command r' = rn_command r" "answers_of [ob] = []"
    "contents (rn_commands r') = contents (rn_commands r) @ taken_of [ob]"
    "rn_calls r' = rn_calls r" "rn_next_ticket r' = rn_next_ticket r"
    "taken_of [ob] \<noteq> [] \<Longrightarrow> \<exists>cmd. c = Enqueue_push cmd \<and> ob = Pushed cmd True \<and> p = Return"
proof -
  consider "c \<in> {Start_check, Start_exchange, Start_spawn}" "start_step c r = (r', p)" "ob = Silent"
    | "stop_step ops c r = Some (r', p)" "ob = Silent"
    | "enqueue_step ops c r = Some (r', p, ob)"
    using assms by (auto simp: call_step_def split: if_splits prod.splits)
  then have "rn_engine r' = rn_engine r \<and> rn_command r' = rn_command r \<and> answers_of [ob] = [] \<and>
    contents (rn_commands r') = contents (rn_commands r) @ taken_of [ob] \<and>
    rn_calls r' = rn_calls r \<and> rn_next_ticket r' = rn_next_ticket r \<and>
    (taken_of [ob] \<noteq> [] \<longrightarrow> (\<exists>cmd. c = Enqueue_push cmd \<and> ob = Pushed cmd True \<and> p = Return))"
  proof cases
    case 1
    then show ?thesis by (auto dest: start_step_frame)
  next
    case 2
    then show ?thesis using close_keeps by (auto dest: stop_step_frame)
  next
    case 3
    then show ?thesis
    proof (cases rule: enqueue_step_cases)
      case 1
      then show ?thesis by simp
    next
      case (2 cmd q taken)
      then show ?thesis using push_taken push_refused by (cases taken) auto
    qed
  qed
  then show "rn_engine r' = rn_engine r" "rn_command r' = rn_command r" "answers_of [ob] = []"
    "contents (rn_commands r') = contents (rn_commands r) @ taken_of [ob]"
    "rn_calls r' = rn_calls r" "rn_next_ticket r' = rn_next_ticket r"
    "taken_of [ob] \<noteq> [] \<Longrightarrow> \<exists>cmd. c = Enqueue_push cmd \<and> ob = Pushed cmd True \<and> p = Return" by blast+
qed

lemma worker_step_line:
  assumes "worker_step ops r = Some (r', ob)"
  shows "line_step contents r [ob] r'"
proof (cases "rn_command r")
  case None
  then obtain q popped where pop: "bq_wait_and_pop ops (rn_commands r) = Some (q, popped)"
    and ob: "ob = Silent" and r': "r' = (case popped of None \<Rightarrow> r\<lparr>rn_commands := q, rn_worker := Finished\<rparr>
        | Some c \<Rightarrow> r\<lparr>rn_commands := q, rn_command := Some c\<rparr>)"
    using assms by (auto simp: worker_step_def pop_step_def split: if_splits option.splits)
  show ?thesis
  proof (cases popped)
    case None
    then show ?thesis using pop_end pop r' ob by (intro line_stepI_none) auto
  next
    case (Some c)
    then show ?thesis using pop_value pop r' ob \<open>rn_command r = None\<close>
      by (intro line_stepI_none) (auto simp: in_hand_def)
  qed
next
  case (Some c)
  then have "process_command c r = (r', ob)"
    using assms by (auto simp: worker_step_def split: if_splits)
  then show ?thesis using Some unfolding line_step_def process_command_def
    by (intro exI [of _ "[c]"]) (auto simp: in_hand_def batch_Cons split: prod.splits)
qed

lemma perform_line:
  assumes "perform ops a r = Some (r', obs)"
  shows "line_step contents r obs r'"
proof (cases a)
  case (Advance t)
  then obtain c r1 p ob where "call_step ops c r = Some (r1, p, ob)" and settle: "settle t p ob r1 = (r', obs)"
    using assms by (auto split: option.splits)
  note call = call_step_frame [OF this(1)] and set = settle_frame [OF settle]
  have "in_hand r1 = in_hand r" using call(2) by (simp add: in_hand_def)
  then show ?thesis using call set by (intro line_stepI_none) auto
next
  case Work
  then obtain ob where "worker_step ops r = Some (r', ob)" "obs = [ob]"
    using assms by auto
  then show ?thesis using worker_step_line by simp
qed (use assms in \<open>auto simp: begin_call_def split: if_splits intro!: line_stepI_none\<close>)

lemma perform_all_line:
  "perform_all ops as r = Some (r', obs) \<Longrightarrow> line_step contents r obs r'"
proof (induction as arbitrary: r obs)
  case Nil
  then show ?case by (simp add: line_step_refl)
next
  case (Cons a as)
  then obtain r1 obs1 obs2 where "perform ops a r = Some (r1, obs1)"
    "perform_all ops as r1 = Some (r', obs2)" "obs = obs1 @ obs2" by (auto split: option.splits)
  then show ?case using perform_line line_step_trans Cons.IH by blast
qed

lemma requests_in_line:
  assumes "perform_all ops as (make_runner q) = Some (r, obs)" and "contents q = []"
  shows "taken_of obs = take (length (answers_of obs)) (taken_of obs) @ in_hand r @ contents (rn_commands r)"
    and "batch (take (length (answers_of obs)) (taken_of obs)) initial_engine = (rn_engine r, answers_of obs)"
proof -
  from perform_all_line [OF assms(1)] assms(2) obtain f where
    f: "taken_of obs = f @ in_hand r @ contents (rn_commands r)"
       "batch f initial_engine = (rn_engine r, answers_of obs)"
    by (auto simp: line_step_def make_runner_def in_hand_def)
  then have "length (answers_of obs) = length f" using length_batch [of f initial_engine] by simp
  with f show "taken_of obs = take (length (answers_of obs)) (taken_of obs) @ in_hand r @ contents (rn_commands r)"
    and "batch (take (length (answers_of obs)) (taken_of obs)) initial_engine = (rn_engine r, answers_of obs)"
    by (simp_all del: append_assoc)
qed

end

subsection \<open>Every request has a ticket of its own\<close>

fun ticket_of :: "call \<Rightarrow> ticket option" where
  "ticket_of (Enqueue_check c) = Some (fst c)"
| "ticket_of (Enqueue_push c) = Some (fst c)"
| "ticket_of _ = None"

definition pending_ticket :: "'q runner \<Rightarrow> thread_id \<Rightarrow> ticket option" where
  "pending_ticket r t = Option.bind (rn_calls r t) ticket_of"

definition tickets_ok :: "ticket set \<Rightarrow> 'q runner \<Rightarrow> bool" where
  "tickets_ok ks r \<longleftrightarrow>
     (\<forall>k \<in> ks. k < rn_next_ticket r) \<and>
     (\<forall>t k. pending_ticket r t = Some k \<longrightarrow> k < rn_next_ticket r \<and> k \<notin> ks) \<and>
     (\<forall>t u k. pending_ticket r t = Some k \<longrightarrow> pending_ticket r u = Some k \<longrightarrow> t = u)"

lemma tickets_ok_calls:
  assumes "tickets_ok ks r" and "rn_next_ticket r' = rn_next_ticket r"
    and "rn_calls r' = (rn_calls r)(t := c')" and "Option.bind c' ticket_of \<in> {None, pending_ticket r t}"
  shows "tickets_ok ks r'"
proof -
  have "pending_ticket r' u = (if u = t then Option.bind c' ticket_of else pending_ticket r u)" for u
    using assms(3) by (simp add: pending_ticket_def)
  then have sub: "pending_ticket r u = Some k" if "pending_ticket r' u = Some k" for u k
    using assms(4) that by (auto split: if_splits)
  then show ?thesis using assms(1,2) unfolding tickets_ok_def by metis
qed

lemma tickets_ok_take:
  assumes "tickets_ok ks r" and "rn_next_ticket r' = rn_next_ticket r"
    and "rn_calls r' = (rn_calls r)(t := None)" and "pending_ticket r t = Some k"
  shows "tickets_ok (insert k ks) r'"
proof -
  have p: "pending_ticket r' u = (if u = t then None else pending_ticket r u)" for u
    using assms(3) by (simp add: pending_ticket_def)
  show ?thesis using assms(1,2,4) unfolding tickets_ok_def p by (auto split: if_splits)
qed

lemma start_step_ticket: "start_step c r = (r', Continue c') \<Longrightarrow> ticket_of c' = None"
  by (cases c) (auto split: if_splits)

lemma stop_step_ticket: "stop_step ops c r = Some (r', Continue c') \<Longrightarrow> ticket_of c' = None"
  by (cases c) (auto split: if_splits)

lemma call_step_ticket:
  assumes "call_step ops c r = Some (r', Continue c', ob)"
  shows "ticket_of c' \<in> {None, ticket_of c}"
proof -
  consider "start_step c r = (r', Continue c')" | "stop_step ops c r = Some (r', Continue c')"
    | "enqueue_step ops c r = Some (r', Continue c', ob)"
    using assms by (auto simp: call_step_def split: if_splits prod.splits)
  then show ?thesis
    by cases (auto dest: start_step_ticket stop_step_ticket elim: enqueue_step.elims split: if_splits option.splits)
qed

context command_queue
begin

lemma advance_tickets:
  assumes c: "rn_calls r t = Some c" "call_step ops c r = Some (r1, p, ob)"
    and settle: "settle t p ob r1 = (r', obs)"
    and ok: "tickets_ok (fst ` set cs) r" "distinct (map fst cs)"
  shows "tickets_ok (fst ` set (cs @ taken_of obs)) r' \<and> distinct (map fst (cs @ taken_of obs))"
proof -
  note frame = call_step_frame [OF c(2)] and set = settle_frame [OF settle]
  have ticket: "pending_ticket r t = ticket_of c" using c by (simp add: pending_ticket_def)
  show ?thesis
  proof (cases "taken_of [ob] = []")
    case True
    define c' where "c' = rn_calls r' t"
    have "rn_calls r' = (rn_calls r)(t := c') \<and> Option.bind c' ticket_of \<in> {None, ticket_of c}"
      using settle frame(5) call_step_ticket [of ops c r r1 _ ob] c(2)
      by (cases p) (auto simp: settle_def c'_def)
    then show ?thesis using True tickets_ok_calls [OF ok(1), of r' t c'] ticket set frame ok(2) by auto
  next
    case False
    then obtain cmd where "c = Enqueue_push cmd" "ob = Pushed cmd True" "p = Return" using frame(7) by blast
    moreover from this have "rn_calls r' = (rn_calls r)(t := None)" "taken_of obs = [cmd]"
      using settle frame(5) by (auto simp: settle_def)
    ultimately show ?thesis
      using tickets_ok_take [OF ok(1), of r' t "fst cmd"] ticket set(7) frame(6) ok by (auto simp: tickets_ok_def)
  qed
qed

lemma perform_tickets:
  assumes "perform ops a r = Some (r', obs)" and ok: "tickets_ok (fst ` set cs) r" "distinct (map fst cs)"
  shows "tickets_ok (fst ` set (cs @ taken_of obs)) r' \<and> distinct (map fst (cs @ taken_of obs))"
proof (cases a)
  case (Begin_start t)
  then show ?thesis using assms
    by (auto simp: begin_call_def split: if_splits intro!: tickets_ok_calls [OF ok(1), where t = t and c' = "Some Start_check"])
next
  case (Begin_stop t)
  then show ?thesis using assms
    by (auto simp: begin_call_def split: if_splits intro!: tickets_ok_calls [OF ok(1), where t = t and c' = "Some Stop_exchange"])
next
  case (Begin_request t c)
  then have "r' = r\<lparr>rn_calls := (rn_calls r)(t \<mapsto> Enqueue_check (rn_next_ticket r, c)), rn_next_ticket := Suc (rn_next_ticket r)\<rparr>"
    "obs = []" using assms by (auto simp: begin_call_def split: if_splits)
  moreover from this have "pending_ticket r' u = (if u = t then Some (rn_next_ticket r) else pending_ticket r u)" for u
    by (simp add: pending_ticket_def)
  ultimately show ?thesis using ok unfolding tickets_ok_def by (auto split: if_splits intro: less_SucI)
next
  case (Advance t)
  then obtain c r1 p ob where "rn_calls r t = Some c" "call_step ops c r = Some (r1, p, ob)" "settle t p ob r1 = (r', obs)"
    using assms(1) by (auto split: option.splits)
  then show ?thesis using ok by (rule advance_tickets)
next
  case Work
  then obtain ob where w: "worker_step ops r = Some (r', ob)" "obs = [ob]" using assms by auto
  then have "rn_calls r' = rn_calls r" "rn_next_ticket r' = rn_next_ticket r" "taken_of obs = []"
    by (auto simp: worker_step_def pop_step_def process_command_def split: if_splits option.splits prod.splits)
  then show ?thesis using ok by (simp add: tickets_ok_def pending_ticket_def)
qed

lemma perform_all_tickets:
  "\<lbrakk>perform_all ops as r = Some (r', obs); tickets_ok (fst ` set cs) r; distinct (map fst cs)\<rbrakk> \<Longrightarrow>
   tickets_ok (fst ` set (cs @ taken_of obs)) r' \<and> distinct (map fst (cs @ taken_of obs))"
proof (induction as arbitrary: r obs cs)
  case Nil
  then show ?case by simp
next
  case (Cons a as)
  then obtain r1 obs1 obs2 where "perform ops a r = Some (r1, obs1)"
    "perform_all ops as r1 = Some (r', obs2)" "obs = obs1 @ obs2" by (auto split: option.splits)
  then show ?case using perform_tickets [of a r r1 obs1 cs] Cons.IH [of r1 obs2 "cs @ taken_of obs1"] Cons.prems
    by simp
qed

lemma distinct_tickets:
  "perform_all ops as (make_runner q) = Some (r, obs) \<Longrightarrow> distinct (map fst (taken_of obs))"
  using perform_all_tickets [of as "make_runner q" r obs "[]"]
  by (simp add: tickets_ok_def make_runner_def pending_ticket_def)

end

subsection \<open>A stop drains the queue\<close>

lemma perform_all_append:
  "perform_all ops (as @ bs) r =
     (case perform_all ops as r of
        None \<Rightarrow> None
      | Some (r1, obs1) \<Rightarrow> (case perform_all ops bs r1 of None \<Rightarrow> None | Some (r2, obs2) \<Rightarrow> Some (r2, obs1 @ obs2)))"
  by (induction as arbitrary: r) (auto split: option.splits)

lemma perform_all_appendI:
  "\<lbrakk>perform_all ops as r = Some (r1, obs1); perform_all ops bs r1 = Some (r2, obs2)\<rbrakk> \<Longrightarrow>
   perform_all ops (as @ bs) r = Some (r2, obs1 @ obs2)"
  by (simp add: perform_all_append)

definition work_left :: "('q \<Rightarrow> queued_command list) \<Rightarrow> 'q runner \<Rightarrow> nat" where
  "work_left contents r = 2 * length (contents (rn_commands r)) + length (in_hand r)"

definition same_control :: "'q runner \<Rightarrow> 'q runner \<Rightarrow> bool" where
  "same_control r r' \<longleftrightarrow> rn_calls r' = rn_calls r \<and> rn_accepting r' = rn_accepting r \<and> rn_closed r' = rn_closed r"

context command_queue
begin

lemma worker_step_closed:
  assumes "closed (rn_commands r)" and "rn_worker r = Running"
  obtains r' ob where "worker_step ops r = Some (r', ob)" and "same_control r r'"
    and "closed (rn_commands r')" and "taken_of [ob] = []"
    and "work_left contents r = 0 \<and> rn_worker r' = Finished \<and> work_left contents r' = 0
         \<or> rn_worker r' = Running \<and> work_left contents r = Suc (work_left contents r')"
proof (cases "rn_command r")
  case None
  from closed_pop [OF assms(1)] obtain q popped where pop: "bq_wait_and_pop ops (rn_commands r) = Some (q, popped)"
    by auto
  define r' where "r' = (case popped of None \<Rightarrow> r\<lparr>rn_commands := q, rn_worker := Finished\<rparr>
        | Some c \<Rightarrow> r\<lparr>rn_commands := q, rn_command := Some c\<rparr>)"
  have "worker_step ops r = Some (r', Silent)"
    using None assms pop by (auto simp: worker_step_def pop_step_def r'_def split: option.splits)
  moreover have "same_control r r'" by (auto simp: same_control_def r'_def split: option.splits)
  moreover have "closed (rn_commands r') \<and> (work_left contents r = 0 \<and> rn_worker r' = Finished \<and> work_left contents r' = 0
         \<or> rn_worker r' = Running \<and> work_left contents r = Suc (work_left contents r'))"
  proof (cases popped)
    case 1: None
    then show ?thesis using pop_end pop None by (auto simp: r'_def work_left_def in_hand_def)
  next
    case (Some c)
    then show ?thesis using pop_value pop None assms by (auto simp: r'_def work_left_def in_hand_def)
  qed
  ultimately show thesis using that [of r' Silent] by simp
next
  case (Some c)
  obtain r' ob where step: "process_command c r = (r', ob)" by force
  then have "worker_step ops r = Some (r', ob)" using Some assms by (simp add: worker_step_def)
  moreover have "same_control r r'" "closed (rn_commands r')" "taken_of [ob] = []" "rn_worker r' = Running"
    "work_left contents r = Suc (work_left contents r')"
    using step Some assms
    by (auto simp: process_command_def same_control_def work_left_def in_hand_def split: prod.splits)
  ultimately show thesis using that by blast
qed

lemma worker_drains:
  "\<lbrakk>closed (rn_commands r); rn_worker r = Running\<rbrakk> \<Longrightarrow>
   \<exists>r' obs. perform_all ops (replicate (Suc (work_left contents r)) Work) r = Some (r', obs) \<and>
     same_control r r' \<and> rn_worker r' = Finished \<and> work_left contents r' = 0 \<and> taken_of obs = []"
proof (induction "work_left contents r" arbitrary: r)
  case 0
  from worker_step_closed [OF 0(2,3)] obtain r' ob where "worker_step ops r = Some (r', ob)" "same_control r r'"
    "rn_worker r' = Finished" "work_left contents r' = 0" "taken_of [ob] = []" using 0(1) by (metis nat.distinct(1))
  then show ?case using 0(1) [symmetric] by auto
next
  case (Suc n)
  from worker_step_closed [OF Suc(3,4)] obtain r1 ob where 1: "worker_step ops r = Some (r1, ob)" "same_control r r1"
    "closed (rn_commands r1)" "rn_worker r1 = Running" "n = work_left contents r1" "taken_of [ob] = []"
    using Suc(2) by (metis nat.distinct(1) nat.inject)
  from Suc(1) [OF 1(5) 1(3,4)] obtain r' obs where 2:
    "perform_all ops (replicate (Suc n) Work) r1 = Some (r', obs)" "same_control r1 r'" "rn_worker r' = Finished"
    "work_left contents r' = 0" "taken_of obs = []" unfolding 1(5) [symmetric] by blast
  have "perform_all ops (replicate (Suc (work_left contents r)) Work) r = Some (r', [ob] @ obs)"
    unfolding Suc(2) [symmetric] using 1(1) 2(1) by (simp add: replicate_Suc [of "Suc n"] del: replicate_Suc)
  moreover have "same_control r r'" using 1(2) 2(2) by (simp add: same_control_def)
  moreover have "taken_of ([ob] @ obs) = []" using 1(6) 2(5) by (simp only: taken_of_append append_Nil)
  ultimately show ?case using 2 by blast
qed

lemma stop_returns:
  assumes idle: "rn_calls r t = None" and "rn_accepting r" and "rn_worker r = Running"
  shows "\<exists>r' obs. perform_all ops ([Begin_stop t, Advance t, Advance t, Advance t]
                  @ replicate (Suc (work_left contents r)) Work @ [Advance t]) r = Some (r', obs) \<and>
    rn_worker r' = Joined \<and> \<not> rn_accepting r' \<and> rn_closed r' \<and> last obs = Returned t \<and>
    in_hand r' @ contents (rn_commands r') = [] \<and>
    batch (in_hand r @ contents (rn_commands r)) (rn_engine r) = (rn_engine r', answers_of obs)"
proof -
  define r1 where "r1 = r\<lparr>rn_accepting := False, rn_closed := True, rn_commands := bq_close ops (rn_commands r),
    rn_calls := (rn_calls r)(t \<mapsto> Stop_join)\<rparr>"
  have 1: "perform_all ops [Begin_stop t, Advance t, Advance t, Advance t] r = Some (r1, [Silent, Silent, Silent])"
    using assms by (simp add: begin_call_def call_step_def settle_def r1_def)
  have "closed (rn_commands r1)" "rn_worker r1 = Running" "work_left contents r1 = work_left contents r"
    using close_keeps assms by (simp_all add: r1_def work_left_def in_hand_def)
  with worker_drains [of r1] obtain r2 obs where 2:
    "perform_all ops (replicate (Suc (work_left contents r)) Work) r1 = Some (r2, obs)" "same_control r1 r2"
    "rn_worker r2 = Finished" "work_left contents r2 = 0" "taken_of obs = []" by metis
  define r3 where "r3 = r2\<lparr>rn_worker := Joined, rn_calls := (rn_calls r2)(t := None)\<rparr>"
  have "rn_calls r2 t = Some Stop_join" "\<not> rn_accepting r2" "rn_closed r2"
    using 2(2) by (simp_all add: same_control_def r1_def)
  then have 3: "perform_all ops [Advance t] r2 = Some (r3, [Silent, Returned t])"
    using 2(3) by (simp add: call_step_def settle_def joinable_def r3_def)
  note run = perform_all_appendI [OF 1 perform_all_appendI [OF 2(1) 3]]
  from perform_all_line [OF run] 2(4,5)
  have "batch (in_hand r @ contents (rn_commands r)) (rn_engine r)
        = (rn_engine r3, answers_of ([Silent, Silent, Silent] @ obs @ [Silent, Returned t]))"
    by (auto simp: line_step_def r3_def work_left_def)
  then show ?thesis using run 2(4) \<open>\<not> rn_accepting r2\<close> \<open>rn_closed r2\<close>
    by (intro exI [of _ r3] exI [of _ "[Silent, Silent, Silent] @ obs @ [Silent, Returned t]"] conjI)
       (simp_all add: r3_def work_left_def)
qed

end

subsection \<open>One thread owns the runner's life\<close>

text \<open>The states between the atomic steps of \<open>start\<close> and \<open>stop\<close> when only the owner calls them.\<close>

datatype phase = Fresh | Started | Stopped

definition in_phase :: "('q \<Rightarrow> bool) \<Rightarrow> phase \<Rightarrow> 'q runner \<Rightarrow> bool" where
  "in_phase closed p r \<longleftrightarrow>
     (case p of
        Fresh \<Rightarrow> \<not> rn_accepting r \<and> \<not> rn_closed r \<and> rn_worker r = No_worker \<and> \<not> closed (rn_commands r)
      | Started \<Rightarrow> rn_accepting r \<and> \<not> rn_closed r \<and> rn_worker r = Running \<and> \<not> closed (rn_commands r)
      | Stopped \<Rightarrow> \<not> rn_accepting r \<and> rn_closed r \<and> rn_worker r = Joined \<and> closed (rn_commands r))"

lemmas in_phase_simps = in_phase_def [of _ Fresh, simplified] in_phase_def [of _ Started, simplified]
  in_phase_def [of _ Stopped, simplified]

lemma ex_phase [simp]: "(\<exists>p. in_phase closed p r) \<longleftrightarrow>
    in_phase closed Fresh r \<or> in_phase closed Started r \<or> in_phase closed Stopped r"
  by (metis phase.exhaust)

fun is_request :: "call \<Rightarrow> bool" where
  "is_request (Enqueue_check _) = True"
| "is_request (Enqueue_push _) = True"
| "is_request _ = False"

fun owner_ok :: "('q \<Rightarrow> bool) \<Rightarrow> call option \<Rightarrow> 'q runner \<Rightarrow> bool" where
  "owner_ok closed (Some Start_exchange) r \<longleftrightarrow> in_phase closed Fresh r \<or> in_phase closed Started r"
| "owner_ok closed (Some Start_spawn) r \<longleftrightarrow>
     rn_accepting r \<and> \<not> rn_closed r \<and> rn_worker r = No_worker \<and> \<not> closed (rn_commands r)"
| "owner_ok closed (Some Stop_set_closed) r \<longleftrightarrow>
     \<not> rn_accepting r \<and> \<not> rn_closed r \<and> rn_worker r = Running \<and> \<not> closed (rn_commands r)"
| "owner_ok closed (Some Stop_close_queue) r \<longleftrightarrow>
     \<not> rn_accepting r \<and> rn_closed r \<and> rn_worker r = Running \<and> \<not> closed (rn_commands r)"
| "owner_ok closed (Some Stop_join) r \<longleftrightarrow>
     \<not> rn_accepting r \<and> rn_closed r \<and> joinable (rn_worker r) \<and> closed (rn_commands r)"
| "owner_ok closed c r \<longleftrightarrow> (\<exists>p. in_phase closed p r)"

definition owned :: "('q \<Rightarrow> bool) \<Rightarrow> thread_id \<Rightarrow> 'q runner \<Rightarrow> bool" where
  "owned closed owner r \<longleftrightarrow>
     owner_ok closed (rn_calls r owner) r \<and>
     (\<forall>t c. t \<noteq> owner \<longrightarrow> rn_calls r t = Some c \<longrightarrow> is_request c)"

fun owner_action :: "thread_id \<Rightarrow> action \<Rightarrow> bool" where
  "owner_action owner (Begin_start t) = (t = owner)"
| "owner_action owner (Begin_stop t) = (t = owner)"
| "owner_action owner _ = True"

lemma owner_ok_cong:
  "\<lbrakk>owner_ok closed c r; rn_accepting r' = rn_accepting r; rn_closed r' = rn_closed r;
    rn_worker r' = rn_worker r; closed (rn_commands r') = closed (rn_commands r)\<rbrakk> \<Longrightarrow> owner_ok closed c r'"
  by (cases "(closed, c, r)" rule: owner_ok.cases) (simp_all add: in_phase_def)

lemma owner_ok_idle: "\<not> (\<exists>c'. c = Some c' \<and> \<not> is_request c') \<Longrightarrow>
    owner_ok closed c r = (\<exists>p. in_phase closed p r)"
  by (cases "(closed, c, r)" rule: owner_ok.cases) auto

lemma start_step_owner:
  assumes "owner_ok closed (Some c) r" and "start_step c r = (r', p)" and "c \<in> {Start_check, Start_exchange, Start_spawn}"
  shows "owner_ok closed (case p of Continue c' \<Rightarrow> Some c' | _ \<Rightarrow> None) r' \<and> (\<forall>f. p = Throw f \<longrightarrow> (\<exists>m. f = Runtime_error m))"
proof -
  from assms(3) consider "c = Start_check" | "c = Start_exchange" | "c = Start_spawn" by blast
  then show ?thesis
  proof cases
    case 1
    then consider "in_phase closed Fresh r" | "in_phase closed Started r" | "in_phase closed Stopped r"
      using assms(1) by auto
    then show ?thesis using 1 assms(2) by cases (auto simp: in_phase_simps)
  next
    case 2
    then consider "in_phase closed Fresh r" | "in_phase closed Started r" using assms(1) by auto
    then show ?thesis using 2 assms(2) by cases (auto simp: in_phase_simps)
  next
    case 3
    then have "in_phase closed Started r'" "p = Return"
      using assms(1,2) by (auto simp: joinable_def in_phase_simps)
    then show ?thesis by auto
  qed
qed

context command_queue
begin

lemma stop_step_owner:
  assumes "owner_ok closed (Some c) r" and "stop_step ops c r = Some (r', p)"
    and "c \<in> {Stop_exchange, Stop_set_closed, Stop_close_queue, Stop_join}"
  shows "owner_ok closed (case p of Continue c' \<Rightarrow> Some c' | _ \<Rightarrow> None) r' \<and> (\<forall>f. p \<noteq> Throw f)"
proof -
  from assms(3) consider "c = Stop_exchange" | "c = Stop_set_closed" | "c = Stop_close_queue" | "c = Stop_join" by blast
  then show ?thesis
  proof cases
    case 1
    then consider "in_phase closed Fresh r" | "in_phase closed Started r" | "in_phase closed Stopped r"
      using assms(1) by auto
    then show ?thesis using 1 assms(2) by cases (auto simp: in_phase_simps)
  next
    case 4
    then have "in_phase closed Stopped r'" "p = Return"
      using assms(1,2) by (auto simp: joinable_def in_phase_simps split: if_splits)
    then show ?thesis by auto
  qed (use assms close_keeps in \<open>auto simp: joinable_def\<close>)
qed

lemma enqueue_step_owner:
  assumes "enqueue_step ops c r = Some (r', p, ob)"
  shows "rn_accepting r' = rn_accepting r" "rn_closed r' = rn_closed r" "rn_worker r' = rn_worker r"
    "closed (rn_commands r') = closed (rn_commands r)" "p = Throw f \<Longrightarrow> \<exists>m. f = Runtime_error m"
    "p = Continue c' \<Longrightarrow> is_request c'"
proof -
  have "rn_accepting r' = rn_accepting r \<and> rn_closed r' = rn_closed r \<and> rn_worker r' = rn_worker r \<and>
    closed (rn_commands r') = closed (rn_commands r)"
    using assms
  proof (cases rule: enqueue_step_cases)
    case (2 cmd q taken)
    then show ?thesis using push_taken push_refused by (cases taken) auto
  qed simp
  then show "rn_accepting r' = rn_accepting r" "rn_closed r' = rn_closed r" "rn_worker r' = rn_worker r"
    "closed (rn_commands r') = closed (rn_commands r)" by simp_all
  show "p = Throw f \<Longrightarrow> \<exists>m. f = Runtime_error m" and "p = Continue c' \<Longrightarrow> is_request c'"
    using assms by (cases c; auto split: if_splits option.splits)+
qed

lemma worker_step_control:
  assumes "worker_step ops r = Some (r', ob)"
  shows "rn_calls r' = rn_calls r" "rn_accepting r' = rn_accepting r" "rn_closed r' = rn_closed r"
    "closed (rn_commands r') = closed (rn_commands r)" "rn_worker r = Running"
    "rn_worker r' = Running \<or> rn_worker r' = Finished \<and> closed (rn_commands r)"
proof -
  have "rn_calls r' = rn_calls r \<and> rn_accepting r' = rn_accepting r \<and> rn_closed r' = rn_closed r \<and>
    closed (rn_commands r') = closed (rn_commands r) \<and>
    (rn_worker r' = Running \<or> rn_worker r' = Finished \<and> closed (rn_commands r))"
    using assms pop_end pop_value
    by (auto simp: worker_step_def pop_step_def process_command_def split: if_splits option.splits prod.splits)
  then show "rn_calls r' = rn_calls r" "rn_accepting r' = rn_accepting r" "rn_closed r' = rn_closed r"
    "closed (rn_commands r') = closed (rn_commands r)"
    "rn_worker r' = Running \<or> rn_worker r' = Finished \<and> closed (rn_commands r)" by simp_all
  show "rn_worker r = Running" using assms by (auto simp: worker_step_def split: if_splits)
qed

lemma worker_step_owner:
  assumes "owner_ok closed c r" and "worker_step ops r = Some (r', ob)"
  shows "owner_ok closed c r'"
proof (cases "rn_worker r' = Running")
  case True
  then show ?thesis using worker_step_control [OF assms(2)] by (intro owner_ok_cong [OF assms(1)]) simp_all
next
  case False
  then have "rn_worker r' = Finished" "closed (rn_commands r)" "rn_worker r = Running"
    using worker_step_control [OF assms(2)] by auto
  with assms(1) have "c = Some Stop_join"
    by (cases "(closed, c, r)" rule: owner_ok.cases) (auto simp: in_phase_simps)
  then show ?thesis using assms(1) worker_step_control [OF assms(2)] \<open>rn_worker r' = Finished\<close>
    by (simp add: joinable_def)
qed

lemma request_step_owner:
  assumes "owned closed owner r" and "rn_calls r t = Some c" and "call_step ops c r = Some (r', p, ob)"
    and "settle t p ob r' = (r'', obs)" and "is_request c"
  shows "owned closed owner r'' \<and> (\<forall>u f. Threw u f \<in> set obs \<longrightarrow> (\<exists>m. f = Runtime_error m))"
proof -
  have e: "enqueue_step ops c r = Some (r', p, ob)"
    using assms(3,5) by (cases c) (auto simp: call_step_def)
  note frame = enqueue_step_owner [OF e]
  have calls: "rn_calls r' = rn_calls r" using call_step_frame(5) [OF assms(3)] .
  define c' where "c' = rn_calls r'' t"
  have new: "rn_calls r'' = (rn_calls r)(t := c')" and "\<forall>d. c' = Some d \<longrightarrow> is_request d"
    using assms(4) frame(6) calls by (cases p; auto simp: settle_def c'_def)+
  moreover have "owner_ok closed (rn_calls r'' owner) r''"
  proof (cases "t = owner")
    case True
    then have "\<exists>ph. in_phase closed ph r" using assms(1,2) assms(5) owner_ok_idle [of "rn_calls r owner" closed r]
      by (auto simp: owned_def)
    then have "owner_ok closed c' r" using \<open>\<forall>d. c' = Some d \<longrightarrow> is_request d\<close> owner_ok_idle by blast
    then have "owner_ok closed c' r''"
      by (rule owner_ok_cong) (simp_all add: frame(1-4) settle_frame(2,4-6) [OF assms(4)])
    then show ?thesis using True by (simp add: new)
  next
    case False
    have "owner_ok closed (rn_calls r owner) r" using assms(1) by (simp add: owned_def)
    then have "owner_ok closed (rn_calls r owner) r''"
      by (rule owner_ok_cong) (simp_all add: frame(1-4) settle_frame(2,4-6) [OF assms(4)])
    then show ?thesis using False by (simp add: new)
  qed
  moreover have "\<exists>m. f = Runtime_error m" if "Threw u f \<in> set obs" for u f
  proof -
    have "ob \<noteq> Threw u f" using e by (rule enqueue_step_cases) auto
    then have "p = Throw f" using that assms(4) by (cases p) (auto simp: settle_def)
    then show ?thesis by (rule frame(5))
  qed
  ultimately show ?thesis using assms(1) by (auto simp: owned_def)
qed

lemma owner_step_owner:
  assumes "owned closed owner r" and "rn_calls r t = Some c" and "call_step ops c r = Some (r', p, ob)"
    and "settle t p ob r' = (r'', obs)" and "\<not> is_request c"
  shows "owned closed owner r'' \<and> (\<forall>u f. Threw u f \<in> set obs \<longrightarrow> (\<exists>m. f = Runtime_error m))"
proof -
  have t: "t = owner" using assms(1,2,5) by (auto simp: owned_def)
  then have ok: "owner_ok closed (Some c) r" using assms(1,2) by (simp add: owned_def)
  define d where "d = (case p of Continue c' \<Rightarrow> Some c' | _ \<Rightarrow> None)"
  have step: "owner_ok closed d r' \<and> (\<forall>f. p = Throw f \<longrightarrow> (\<exists>m. f = Runtime_error m)) \<and> ob = Silent"
  proof (cases "c \<in> {Start_check, Start_exchange, Start_spawn}")
    case True
    then have "start_step c r = (r', p)" "ob = Silent" using assms(3) by (auto simp: call_step_def split: prod.splits)
    then show ?thesis using start_step_owner [OF ok _ True] by (simp add: d_def)
  next
    case 2: False
    then have 3: "c \<in> {Stop_exchange, Stop_set_closed, Stop_close_queue, Stop_join}" using assms(5) by (cases c) auto
    then have "call_step ops c r = map_option (\<lambda>(r', p). (r', p, Silent)) (stop_step ops c r)"
      by (auto simp: call_step_def)
    with assms(3) have "map_option (\<lambda>(r', p). (r', p, Silent)) (stop_step ops c r) = Some (r', p, ob)" by simp
    then have "stop_step ops c r = Some (r', p)" "ob = Silent" by auto
    then show ?thesis using stop_step_owner [OF ok _ 3] by (simp add: d_def)
  qed
  then have "owner_ok closed d r'" by blast
  then have "owner_ok closed d r''"
    by (rule owner_ok_cong) (simp_all add: settle_frame(2,4-6) [OF assms(4)])
  moreover have "rn_calls r'' = (rn_calls r)(owner := d)"
    using assms(4) t call_step_frame(5) [OF assms(3)] by (cases p) (auto simp: settle_def d_def)
  moreover have "\<exists>m. f = Runtime_error m" if "Threw u f \<in> set obs" for u f
    using that assms(4) step by (cases p) (auto simp: settle_def)
  ultimately show ?thesis using assms(1) by (auto simp: owned_def)
qed

lemma call_step_owner:
  assumes "owned closed owner r" and "rn_calls r t = Some c" and "call_step ops c r = Some (r', p, ob)"
    and "settle t p ob r' = (r'', obs)"
  shows "owned closed owner r'' \<and> (\<forall>u f. Threw u f \<in> set obs \<longrightarrow> (\<exists>m. f = Runtime_error m))"
  using request_step_owner [OF assms] owner_step_owner [OF assms] by blast

lemma perform_owned:
  assumes "owned closed owner r" and "owner_action owner a" and "perform ops a r = Some (r', obs)"
  shows "owned closed owner r' \<and> (\<forall>u f. Threw u f \<in> set obs \<longrightarrow> (\<exists>m. f = Runtime_error m))"
proof (cases a)
  case (Begin_request t c)
  then have r': "rn_calls r t = None" "obs = []" "rn_calls r' = (rn_calls r)(t \<mapsto> Enqueue_check (rn_next_ticket r, c))"
    "rn_accepting r' = rn_accepting r" "rn_closed r' = rn_closed r" "rn_worker r' = rn_worker r"
    "rn_commands r' = rn_commands r" using assms(3) by (auto simp: begin_call_def split: if_splits)
  have "owner_ok closed (rn_calls r' owner) r"
    using assms(1) r'(1,3) owner_ok_idle [of "rn_calls r' owner" closed r]
    by (cases "t = owner") (auto simp: owned_def simp del: ex_phase)
  then have "owner_ok closed (rn_calls r' owner) r'" by (rule owner_ok_cong) (simp_all add: r')
  then show ?thesis using assms(1) r'(2,3) by (auto simp: owned_def)
next
  case (Advance t)
  then obtain c r1 p ob where "rn_calls r t = Some c" "call_step ops c r = Some (r1, p, ob)"
    "settle t p ob r1 = (r', obs)" using assms by (auto split: option.splits)
  then show ?thesis using call_step_owner assms(1) by blast
next
  case Work
  then obtain ob where w: "worker_step ops r = Some (r', ob)" "obs = [ob]" using assms by auto
  have "\<nexists>u f. ob = Threw u f"
    using w(1) by (auto simp: worker_step_def process_command_def split: if_splits option.splits prod.splits)
  then show ?thesis using assms(1) w worker_step_owner worker_step_control(1) [OF w(1)] by (auto simp: owned_def)
next
  case (Begin_start t)
  then have r': "rn_calls r owner = None" "obs = []" "r' = r\<lparr>rn_calls := (rn_calls r)(owner \<mapsto> Start_check)\<rparr>"
    using assms(2,3) by (auto simp: begin_call_def split: if_splits)
  then show ?thesis using assms(1) by (auto simp: owned_def in_phase_simps)
next
  case (Begin_stop t)
  then have r': "rn_calls r owner = None" "obs = []" "r' = r\<lparr>rn_calls := (rn_calls r)(owner \<mapsto> Stop_exchange)\<rparr>"
    using assms(2,3) by (auto simp: begin_call_def split: if_splits)
  then show ?thesis using assms(1) by (auto simp: owned_def in_phase_simps)
qed

lemma perform_all_owned:
  "\<lbrakk>perform_all ops as r = Some (r', obs); \<forall>a \<in> set as. owner_action owner a; owned closed owner r\<rbrakk> \<Longrightarrow>
   owned closed owner r' \<and> (\<forall>u f. Threw u f \<in> set obs \<longrightarrow> (\<exists>m. f = Runtime_error m))"
proof (induction as arbitrary: r obs)
  case Nil
  then show ?case by simp
next
  case (Cons a as)
  then obtain r1 obs1 obs2 where "perform ops a r = Some (r1, obs1)"
    "perform_all ops as r1 = Some (r', obs2)" "obs = obs1 @ obs2" by (auto split: option.splits)
  then show ?case using perform_owned [of owner r a r1 obs1] Cons.IH [of r1 obs2] Cons.prems by auto
qed

lemma owned_initially: "\<not> closed q \<Longrightarrow> owned closed owner (make_runner q)"
  by (simp add: owned_def make_runner_def in_phase_simps)

lemma idle_owner_phase:
  "owned closed owner r \<Longrightarrow> rn_calls r owner = None \<Longrightarrow>
   in_phase closed Fresh r \<or> in_phase closed Started r \<or> in_phase closed Stopped r"
  by (simp add: owned_def)

lemma running_owner_phase:
  assumes "owned closed owner r" and "running r"
  shows "rn_worker r = Running \<and> \<not> closed (rn_commands r) \<or> rn_calls r owner = Some Start_spawn"
proof -
  have "owner_ok closed (rn_calls r owner) r" using assms(1) by (simp add: owned_def)
  then show ?thesis using assms(2) unfolding running_def
    by (cases "(closed, rn_calls r owner, r)" rule: owner_ok.cases) (auto simp: in_phase_simps)
qed

text \<open>A worker that has ended left nothing behind.\<close>

definition ended_clean :: "'q runner \<Rightarrow> bool" where
  "ended_clean r \<longleftrightarrow> (rn_worker r \<in> {Finished, Joined} \<longrightarrow>
     closed (rn_commands r) \<and> contents (rn_commands r) = [] \<and> rn_command r = None)"

end

context command_queue
begin

lemma start_step_ended:
  "start_step c r = (r', p) \<Longrightarrow> rn_worker r' = rn_worker r \<or> rn_worker r' = Running"
  by (cases c) (auto split: if_splits)

lemma call_step_ended:
  assumes "ended_clean r" and "call_step ops c r = Some (r', p, ob)"
  shows "ended_clean r'"
proof -
  consider "start_step c r = (r', p)" | "stop_step ops c r = Some (r', p)"
    | "enqueue_step ops c r = Some (r', p, ob)"
    using assms by (auto simp: call_step_def split: if_splits prod.splits)
  then show ?thesis
  proof cases
    case 1
    then show ?thesis using assms(1) start_step_frame [OF 1] start_step_ended [OF 1]
      by (auto simp: ended_clean_def)
  next
    case 2
    then show ?thesis using assms(1) close_keeps
      by (cases c) (auto simp: ended_clean_def joinable_def split: if_splits)
  next
    case 3
    then show ?thesis
    proof (cases rule: enqueue_step_cases)
      case 1
      then show ?thesis using assms(1) by simp
    next
      case (2 cmd q taken)
      then show ?thesis using assms(1) push_taken push_refused by (cases taken) (auto simp: ended_clean_def)
    qed
  qed
qed

lemma worker_step_ended:
  assumes "worker_step ops r = Some (r', ob)"
  shows "ended_clean r'"
  using assms pop_end worker_step_control(5) [OF assms]
  by (auto simp: ended_clean_def worker_step_def pop_step_def process_command_def
      split: if_splits option.splits prod.splits)

lemma perform_ended:
  assumes "ended_clean r" and "perform ops a r = Some (r', obs)"
  shows "ended_clean r'"
proof (cases a)
  case (Advance t)
  then obtain c r1 p ob where "call_step ops c r = Some (r1, p, ob)" and s: "settle t p ob r1 = (r', obs)"
    using assms by (auto split: option.splits)
  then have "ended_clean r1" using call_step_ended assms(1) by blast
  moreover have "rn_command r' = rn_command r1" using s by (cases p) (auto simp: settle_def)
  ultimately show ?thesis by (simp add: ended_clean_def settle_frame(2,4) [OF s])
next
  case Work
  then obtain ob where "worker_step ops r = Some (r', ob)" using assms by auto
  then show ?thesis by (rule worker_step_ended)
qed (use assms in \<open>auto simp: begin_call_def ended_clean_def split: if_splits\<close>)

lemma perform_all_ended:
  "\<lbrakk>perform_all ops as r = Some (r', obs); ended_clean r\<rbrakk> \<Longrightarrow> ended_clean r'"
proof (induction as arbitrary: r obs)
  case Nil
  then show ?case by simp
next
  case (Cons a as)
  then obtain r1 obs1 obs2 where "perform ops a r = Some (r1, obs1)"
    "perform_all ops as r1 = Some (r', obs2)" by (auto split: option.splits)
  then show ?case using perform_ended Cons.IH Cons.prems(2) by blast
qed

lemma ended_all_answered:
  assumes "perform_all ops as (make_runner q) = Some (r, obs)" and "contents q = []"
    and "rn_worker r \<in> {Finished, Joined}"
  shows "in_hand r @ contents (rn_commands r) = []"
proof -
  have "ended_clean r" using assms(1) by (rule perform_all_ended) (simp add: ended_clean_def make_runner_def)
  then show ?thesis using assms(3) by (auto simp: ended_clean_def in_hand_def)
qed

end

subsection \<open>Calls of several owners\<close>

context command_queue
begin

text \<open>A request whose push was refused is answered under no continuation.\<close>

lemma refused_push_lost:
  assumes "perform_all ops as (make_runner q) = Some (r, obs)" and "contents q = []"
    and "rn_calls r t = Some (Enqueue_push (k, c))" and "closed (rn_commands r)"
    and "perform_all ops (Advance t # bs) r = Some (r', obs')"
  shows "take 2 obs' = [Pushed (k, c) False, Returned t] \<and> k \<notin> fst ` set (answers_of (obs @ obs'))"
proof -
  obtain r1 obs1 obs2 where step: "perform ops (Advance t) r = Some (r1, obs1)"
    and rest: "perform_all ops bs r1 = Some (r', obs2)" and obs': "obs' = obs1 @ obs2"
    using assms(5) by (auto split: option.splits)
  obtain q1 taken where push: "bq_push ops (k, c) (rn_commands r) = Some (q1, taken)"
    using step assms(3) by (auto simp: call_step_def split: option.splits)
  have "\<not> taken" using push_taken push assms(4) by (cases taken) auto
  then have r1: "r1 = r\<lparr>rn_commands := q1, rn_calls := (rn_calls r)(t := None)\<rparr>"
    and obs1: "obs1 = [Pushed (k, c) False, Returned t]"
    using step assms(3) push by (simp_all add: call_step_def settle_def)
  have "tickets_ok (fst ` set (taken_of obs)) r \<and> distinct (map fst (taken_of obs))"
    using perform_all_tickets [OF assms(1), of "[]"] by (simp add: tickets_ok_def make_runner_def pending_ticket_def)
  then have ok: "tickets_ok (fst ` set (taken_of obs)) r" "distinct (map fst (taken_of obs))" by blast+
  have pend: "pending_ticket r t = Some k" using assms(3) by (simp add: pending_ticket_def)
  have "tickets_ok (insert k (fst ` set (taken_of obs))) r1"
    by (rule tickets_ok_take [OF ok(1) _ _ pend]) (simp_all add: r1)
  moreover have "k \<notin> fst ` set (taken_of obs)" using ok(1) pend by (auto simp: tickets_ok_def)
  ultimately have "distinct (map fst ((taken_of obs @ [(k, c)]) @ taken_of obs2))"
    using perform_all_tickets [OF rest, of "taken_of obs @ [(k, c)]"] ok(2) by (auto simp: insert_commute)
  then have lost: "k \<notin> fst ` set (taken_of (obs @ obs'))" by (auto simp: obs' obs1)
  have all: "perform_all ops (as @ Advance t # bs) (make_runner q) = Some (r', obs @ obs')"
    using assms(1,5) by (rule perform_all_appendI)
  note line = requests_in_line [OF all assms(2)]
  have "fst ` set (answers_of (obs @ obs')) \<subseteq> fst ` set (taken_of (obs @ obs'))"
    using batch_tickets [OF line(2), THEN arg_cong [of _ _ set]] by (auto simp del: taken_of_append dest!: in_set_takeD)
  with lost show ?thesis by (auto simp: obs' obs1)
qed

end

text \<open>
  A worker that nobody joins any more: the runner is stopped and closed, and no call is on its way to accept
  requests again or to join.
\<close>

definition orphaned :: "'q runner \<Rightarrow> bool" where
  "orphaned r \<longleftrightarrow> rn_worker r \<in> {Running, Finished} \<and> \<not> rn_accepting r \<and> rn_closed r \<and>
     (\<forall>t c. rn_calls r t = Some c \<longrightarrow> c \<notin> {Start_exchange, Start_spawn, Stop_set_closed, Stop_close_queue, Stop_join})"

lemma orphaned_calls:
  assumes "orphaned r" "rn_calls r' = (rn_calls r)(t := c')" "rn_worker r' = rn_worker r" "rn_accepting r' = rn_accepting r"
    "rn_closed r' = rn_closed r"
    and "\<forall>c. c' = Some c \<longrightarrow> c \<notin> {Start_exchange, Start_spawn, Stop_set_closed, Stop_close_queue, Stop_join}"
  shows "orphaned r'"
  using assms by (auto simp: orphaned_def)

context command_queue
begin

lemma perform_orphaned:
  assumes "orphaned r" and "perform ops a r = Some (r', obs)"
  shows "orphaned r'"
proof (cases a)
  case (Begin_start t)
  then show ?thesis using assms
    by (auto simp: begin_call_def split: if_splits intro!: orphaned_calls [OF assms(1), where t = t and c' = "Some Start_check"])
next
  case (Begin_stop t)
  then show ?thesis using assms
    by (auto simp: begin_call_def split: if_splits intro!: orphaned_calls [OF assms(1), where t = t and c' = "Some Stop_exchange"])
next
  case (Begin_request t c)
  then show ?thesis using assms
    by (auto simp: begin_call_def split: if_splits
        intro!: orphaned_calls [OF assms(1), where t = t and c' = "Some (Enqueue_check (rn_next_ticket r, c))"])
next
  case (Advance t)
  then obtain c r1 p ob where c: "rn_calls r t = Some c" "call_step ops c r = Some (r1, p, ob)"
    and settle: "settle t p ob r1 = (r', obs)" using assms(2) by (auto split: option.splits)
  have "rn_worker r1 = rn_worker r \<and> rn_accepting r1 = rn_accepting r \<and> rn_closed r1 = rn_closed r \<and> rn_calls r1 = rn_calls r \<and>
      (\<forall>c'. p = Continue c' \<longrightarrow> c' \<notin> {Start_exchange, Start_spawn, Stop_set_closed, Stop_close_queue, Stop_join})"
    using c assms(1) by (cases c) (auto simp: orphaned_def call_step_def split: option.splits)
  then have "\<exists>c'. rn_calls r' = (rn_calls r)(t := c') \<and>
      (\<forall>c. c' = Some c \<longrightarrow> c \<notin> {Start_exchange, Start_spawn, Stop_set_closed, Stop_close_queue, Stop_join}) \<and>
      rn_worker r' = rn_worker r \<and> rn_accepting r' = rn_accepting r \<and> rn_closed r' = rn_closed r"
    using settle by (cases p) (auto simp: settle_def)
  then show ?thesis using orphaned_calls [OF assms(1)] by metis
next
  case Work
  then obtain ob where "worker_step ops r = Some (r', ob)" using assms(2) by auto
  then have "rn_calls r' = rn_calls r \<and> rn_accepting r' = rn_accepting r \<and> rn_closed r' = rn_closed r \<and>
      rn_worker r' \<in> {Running, Finished}"
    by (auto simp: worker_step_def pop_step_def process_command_def split: if_splits option.splits prod.splits)
  then show ?thesis using assms(1) by (simp add: orphaned_def)
qed

lemma perform_all_orphaned: "\<lbrakk>perform_all ops as r = Some (r', obs); orphaned r\<rbrakk> \<Longrightarrow> orphaned r'"
proof (induction as arbitrary: r obs)
  case (Cons a as)
  then obtain r1 obs1 obs2 where "perform ops a r = Some (r1, obs1)" "perform_all ops as r1 = Some (r', obs2)"
    by (auto split: option.splits)
  then show ?case using perform_orphaned Cons.IH Cons.prems(2) by blast
qed simp

text \<open>A whole stop between a start's exchange and its thread creation.\<close>

lemma stop_inside_start_orphans:
  assumes "rn_calls r t = Some Start_spawn" "rn_accepting r" "\<forall>v. v \<noteq> t \<longrightarrow> rn_calls r v = None" "u \<noteq> t"
    and "perform_all ops ([Begin_stop u, Advance u, Advance u, Advance u, Advance u, Advance t] @ bs) r = Some (r', obs')"
  shows "orphaned r'"
proof -
  obtain r1 obs1 obs2 where step: "perform_all ops [Begin_stop u, Advance u, Advance u, Advance u, Advance u, Advance t] r = Some (r1, obs1)"
    and rest: "perform_all ops bs r1 = Some (r', obs2)"
    using assms(5) unfolding perform_all_append by (auto split: option.splits)
  have u: "rn_calls r u = None" "t \<noteq> u" using assms(3,4) by auto
  have "orphaned r1"
    using step u assms(1-3)
    by (auto simp: begin_call_def call_step_def settle_def orphaned_def joinable_def split: if_splits option.splits)
  with rest show ?thesis by (rule perform_all_orphaned)
qed

end

interpretation command: command_queue bounded_ops bnd_items bnd_closed
  by unfold_locales

subsection \<open>The properties\<close>

text \<open>C5: under every interleaving of clients and worker, the requests taken by the queue are executed
  in the order they were taken and each is answered once, in that order, with what the engine run
  alone would reply; what is not answered yet waits in the worker's hand or in the queue, and
  nothing waits once the worker has ended.\<close>

theorem requests_are_serialised:
  assumes "blocking_queue ops contents closed" and "contents q = []"
    and "perform_all ops as (make_runner q) = Some (r, obs)"
  shows "\<exists>served replies.
    taken_of obs = served @ in_hand r @ contents (rn_commands r) \<and>
    engine_run (map snd served) initial_engine = (rn_engine r, map Inr replies) \<and>
    answers_of obs = zip (map fst served) (map Inr replies) \<and>
    distinct (map fst (taken_of obs)) \<and>
    (rn_worker r \<in> {Finished, Joined} \<longrightarrow> served = taken_of obs)"
proof -
  have q: "command_queue ops contents closed" using assms(1) by (rule command_queue.intro)
  define served where "served = take (length (answers_of obs)) (taken_of obs)"
  note line = command_queue.requests_in_line [OF q assms(3,2), folded served_def]
  obtain replies where run: "engine_run (map snd served) initial_engine = (rn_engine r, map Inr replies)"
    "answers_of obs = zip (map fst served) (map Inr replies)"
  proof -
    obtain e rs where "engine_run (map snd served) initial_engine = (e, map Inr rs)"
      using engine_run_sim [OF initial_engine_ok surjective_pairing] by (metis prod.collapse)
    then show thesis using line(2) that by (auto simp: batch_def)
  qed
  have "served = taken_of obs" if "rn_worker r \<in> {Finished, Joined}"
    using line(1) command_queue.ended_all_answered [OF q assms(3,2) that] by simp
  with run line(1) command_queue.distinct_tickets [OF q assms(3)] show ?thesis by blast
qed

definition two_clients :: "action list" where
  "two_clients =
     [Begin_start 1, Advance 1, Advance 1, Advance 1,
      Begin_request 2 (Submit_command (limit_submit key1 Buy 100 5)),
      Begin_request 3 (Submit_command (limit_submit key3 Sell 100 2)),
      Advance 3, Advance 2, Advance 3, Work, Advance 2, Work, Work]"

definition open_queue :: "nat \<Rightarrow> 'a bounded_queue" where
  "open_queue n = \<lparr>bnd_items = [], bnd_capacity = n, bnd_closed = False\<rparr>"

lemma open_queue_simps [simp]:
  "bnd_items (open_queue n) = []" "\<not> bnd_closed (open_queue n)"
  by (simp_all add: open_queue_def)

lemma two_clients_run:
  "map_option (\<lambda>(r, obs). (map fst (taken_of obs), map fst (answers_of obs)))
     (perform_all bounded_ops two_clients (make_runner (open_queue 1))) = Some ([1, 0], [1])"
  by code_simp

lemma requests_are_serialised_witness:
  "\<exists>r obs served replies. perform_all bounded_ops two_clients (make_runner (open_queue 1)) = Some (r, obs) \<and>
     map fst (taken_of obs) = [1, 0] \<and> taken_of obs = served @ in_hand r @ bnd_items (rn_commands r) \<and>
     answers_of obs = zip (map fst served) (map Inr replies)"
proof -
  obtain r obs where run: "perform_all bounded_ops two_clients (make_runner (open_queue 1)) = Some (r, obs)"
    and "map fst (taken_of obs) = [1, 0]" using two_clients_run by auto
  then show ?thesis using requests_are_serialised [OF bounded.blocking_queue_axioms _ run] by auto
qed

text \<open>C31: a stop called on a running runner returns once the worker has popped what was queued: with
  \<open>2 n + h + 1\<close> worker steps for \<open>n\<close> queued requests and \<open>h\<close> in the worker's hand, everything that waited
  is answered in order, the worker is joined and the runner accepts nothing more.\<close>

theorem stop_drains_and_joins:
  assumes "blocking_queue ops contents closed"
    and "rn_calls r t = None" and "running r" and "rn_worker r = Running"
  shows "\<exists>r' obs. perform_all ops ([Begin_stop t, Advance t, Advance t, Advance t]
        @ replicate (2 * length (contents (rn_commands r)) + length (in_hand r) + 1) Work @ [Advance t]) r = Some (r', obs) \<and>
    last obs = Returned t \<and> rn_worker r' = Joined \<and> \<not> running r' \<and> rn_closed r' \<and>
    batch (in_hand r @ contents (rn_commands r)) (rn_engine r) = (rn_engine r', answers_of obs)"
proof -
  have q: "command_queue ops contents closed" using assms(1) by (rule command_queue.intro)
  show ?thesis using command_queue.stop_returns [OF q assms(2) _ assms(4)] assms(3)
    unfolding running_def work_left_def by (simp only: Suc_eq_plus1) blast
qed

lemma stop_drains_and_joins_witness:
  "\<exists>r r' obs. perform_all bounded_ops two_clients (make_runner (open_queue 1)) = Some r \<and>
     perform_all bounded_ops ([Begin_stop 1, Advance 1, Advance 1, Advance 1] @ replicate 2 Work @ [Advance 1]) (fst r) = Some (r', obs) \<and>
     rn_worker r' = Joined \<and> last obs = Returned 1"
proof -
  have "map_option (\<lambda>(r, obs). (rn_calls r 1, running r, rn_worker r, length (bnd_items (rn_commands r)), length (in_hand r)))
     (perform_all bounded_ops two_clients (make_runner (open_queue 1))) = Some (None, True, Running, 0, 1)" by code_simp
  then obtain r obs where run: "perform_all bounded_ops two_clients (make_runner (open_queue 1)) = Some (r, obs)"
    "rn_calls r 1 = None" "running r" "rn_worker r = Running" "length (bnd_items (rn_commands r)) = 0" "length (in_hand r) = 1"
    by auto
  then show ?thesis
    using stop_drains_and_joins [OF bounded.blocking_queue_axioms run(2-4)] unfolding run(5,6) by (auto simp: numeral_2_eq_2)
qed

text \<open>C32: when one thread makes all calls to start and stop, whatever the other threads request, the
  assignment of the worker thread never terminates the program and calls fail only with the documented
  errors; between the owner's calls the runner is either idle with no worker left (never started or
  joined), or running with a live worker on an open queue.\<close>

theorem single_owner_lifecycle:
  assumes "blocking_queue ops contents closed" and "\<not> closed q"
    and "perform_all ops as (make_runner q) = Some (r, obs)" and "\<forall>a \<in> set as. owner_action owner a"
  shows "(\<forall>t f. Threw t f \<in> set obs \<longrightarrow> (\<exists>m. f = Runtime_error m)) \<and>
    (rn_calls r owner = None \<longrightarrow>
      running r \<and> rn_worker r = Running \<and> \<not> rn_closed r \<and> \<not> closed (rn_commands r) \<or>
      \<not> running r \<and> rn_worker r = No_worker \<and> \<not> rn_closed r \<or>
      \<not> running r \<and> rn_worker r = Joined \<and> rn_closed r)"
proof -
  have q: "command_queue ops contents closed" using assms(1) by (rule command_queue.intro)
  note owned = command_queue.perform_all_owned [OF q assms(3,4) command_queue.owned_initially [OF q assms(2)]]
  show ?thesis using owned command_queue.idle_owner_phase [OF q conjunct1 [OF owned]]
    by (auto simp: in_phase_simps running_def)
qed

lemma single_owner_lifecycle_witness:
  "\<exists>r. perform_all bounded_ops two_clients (make_runner (open_queue 1)) = Some r \<and>
     running (fst r) \<and> rn_worker (fst r) = Running \<and> (\<forall>t m. Threw t (Undefined_behaviour m) \<notin> set (snd r))"
proof -
  have "map_option (\<lambda>(r, obs). (rn_calls r 1, running r))
     (perform_all bounded_ops two_clients (make_runner (open_queue 1))) = Some (None, True)" by code_simp
  then obtain r obs where run: "perform_all bounded_ops two_clients (make_runner (open_queue 1)) = Some (r, obs)"
    "rn_calls r 1 = None" "running r" by auto
  have owner: "\<forall>a \<in> set two_clients. owner_action 1 a" by (simp add: two_clients_def)
  note life = single_owner_lifecycle [OF bounded.blocking_queue_axioms _ run(1) owner]
  show ?thesis using run life by (auto simp: fun_eq_iff)
qed

text \<open>C33: calls of several owners can overlap badly, since each is more than one step. In whatever state an
  interleaving led to: a request that passed the check of \<^verbatim>\<open>enqueue\<close> and pushes after another thread closed the
  queue returns normally with a future, but its push is refused and it is answered under no continuation.
  And a whole stop between a start's exchange and its thread creation leaves a stopped runner
  with a worker that no continuation joins, however many stops it has.\<close>

theorem overlapping_calls_lose_requests_and_workers:
  assumes "blocking_queue ops contents closed" and "contents q = []"
    and "perform_all ops as (make_runner q) = Some (r, obs)"
  shows "(\<forall>t k c bs r' obs'. rn_calls r t = Some (Enqueue_push (k, c)) \<and> closed (rn_commands r) \<and>
      perform_all ops (Advance t # bs) r = Some (r', obs') \<longrightarrow>
      take 2 obs' = [Pushed (k, c) False, Returned t] \<and> k \<notin> fst ` set (answers_of (obs @ obs'))) \<and>
    (\<forall>t u bs r' obs'. rn_calls r t = Some Start_spawn \<and> running r \<and> (\<forall>v. v \<noteq> t \<longrightarrow> rn_calls r v = None) \<and> u \<noteq> t \<and>
      perform_all ops ([Begin_stop u, Advance u, Advance u, Advance u, Advance u, Advance t] @ bs) r = Some (r', obs') \<longrightarrow>
      \<not> running r' \<and> rn_worker r' \<in> {Running, Finished})"
proof -
  have q: "command_queue ops contents closed" using assms(1) by (rule command_queue.intro)
  show ?thesis
    using command_queue.refused_push_lost [OF q assms(3,2)] command_queue.stop_inside_start_orphans [OF q, where r = r]
    unfolding running_def orphaned_def by blast
qed

text \<open>Both happen: a request whose check came before the stop, and a stop inside a start.\<close>

definition request_checked :: "action list" where
  "request_checked =
     [Begin_start 1, Advance 1, Advance 1, Advance 1,
      Begin_request 2 (Submit_command (limit_submit key1 Buy 100 5)), Advance 2,
      Begin_stop 1, Advance 1, Advance 1, Advance 1, Work, Advance 1]"

lemma overlapping_calls_lose_requests_and_workers_witness:
  "(\<exists>r obs r' obs'. perform_all bounded_ops request_checked (make_runner (open_queue 4)) = Some (r, obs) \<and>
     perform_all bounded_ops [Advance 2] r = Some (r', obs') \<and> 0 \<notin> fst ` set (answers_of (obs @ obs'))) \<and>
   (\<exists>r obs r' obs'. perform_all bounded_ops [Begin_start 1, Advance 1, Advance 1] (make_runner (open_queue 4)) = Some (r, obs) \<and>
     perform_all bounded_ops ([Begin_stop 2, Advance 2, Advance 2, Advance 2, Advance 2, Advance 1] @ [Begin_stop 2, Advance 2]) r =
       Some (r', obs') \<and> rn_worker r' \<in> {Running, Finished})"
proof (intro conjI)
  let ?x = "perform_all bounded_ops request_checked (make_runner (open_queue 4))"
  have "map_option (\<lambda>(r, obs). (rn_calls r 2, bnd_closed (rn_commands r),
      perform_all bounded_ops [Advance 2] r = None)) ?x =
    Some (Some (Enqueue_push (0, Submit_command (limit_submit key1 Buy 100 5))), True, False)" by code_simp
  then obtain r obs r' obs' where x: "?x = Some (r, obs)" "rn_calls r 2 = Some (Enqueue_push (0, Submit_command (limit_submit key1 Buy 100 5)))"
    "bnd_closed (rn_commands r)" "perform_all bounded_ops [Advance 2] r = Some (r', obs')" by auto
  have "0 \<notin> fst ` set (answers_of (obs @ obs'))"
    using overlapping_calls_lose_requests_and_workers [OF bounded.blocking_queue_axioms open_queue_simps(1) x(1),
      THEN conjunct1, rule_format, of 2 0 _ "[]" r' obs'] x(2-4) by simp
  with x show "\<exists>r obs r' obs'. ?x = Some (r, obs) \<and> perform_all bounded_ops [Advance 2] r = Some (r', obs') \<and>
      0 \<notin> fst ` set (answers_of (obs @ obs'))" by blast
next
  let ?start = "[Begin_start 1, Advance 1, Advance 1]"
  let ?as = "[Begin_stop 2, Advance 2, Advance 2, Advance 2, Advance 2, Advance 1] @ [Begin_stop 2, Advance 2]"
  obtain r obs where x: "perform_all bounded_ops ?start (make_runner (open_queue 4)) = Some (r, obs)"
    and calls: "rn_calls r = [1 \<mapsto> Start_spawn]" "running r"
    and go: "perform_all bounded_ops ?as r \<noteq> None"
    by (simp add: make_runner_def begin_call_def call_step_def settle_def running_def joinable_def)
  then obtain r' obs' where y: "perform_all bounded_ops ?as r = Some (r', obs')" by auto
  have "rn_worker r' \<in> {Running, Finished}"
    using overlapping_calls_lose_requests_and_workers [OF bounded.blocking_queue_axioms open_queue_simps(1) x(1),
      THEN conjunct2, rule_format, of 1 2 "[Begin_stop 2, Advance 2]" r' obs'] calls y by (simp del: perform_all.simps)
  with x y show "\<exists>r obs r' obs'. perform_all bounded_ops ?start (make_runner (open_queue 4)) = Some (r, obs) \<and>
      perform_all bounded_ops ?as r = Some (r', obs') \<and> rn_worker r' \<in> {Running, Finished}" by blast
qed

end
