(* ===== verification/Numeric_Text.thy ===== *)
theory Numeric_Text
  imports Prelude
begin

text \<open>
  What the applications use of the C++ library for text: \<^verbatim>\<open>std::from_chars\<close> on an unsigned integer, the
  decimal output of \<^verbatim>\<open>std::format\<close> and \<^verbatim>\<open>operator<<\<close>, the character classes, and \<^verbatim>\<open>std::getline\<close>. A byte
  is a \<open>char\<close>; the C locale is assumed.
\<close>

subsection \<open>Sequencing throwing operations\<close>

definition and_then :: "'a outcome \<Rightarrow> ('a \<Rightarrow> 'b outcome) \<Rightarrow> 'b outcome" where
  "and_then r f = (case r of Inl e \<Rightarrow> Inl e | Inr x \<Rightarrow> f x)"

lemma and_then_simps [simp]:
  "and_then (Inl e) f = Inl e" "and_then (Inr x) f = f x"
  by (simp_all add: and_then_def)

lemma and_then_Inr_iff: "and_then r f = Inr y \<longleftrightarrow> (\<exists>x. r = Inr x \<and> f x = Inr y)"
  by (cases r) auto

lemma and_then_Inl_iff: "and_then r f = Inl e \<longleftrightarrow> r = Inl e \<or> (\<exists>x. r = Inr x \<and> f x = Inl e)"
  by (cases r) auto

subsection \<open>Decimal digits\<close>

definition char_code :: "char \<Rightarrow> nat" where
  "char_code c = of_char c"

definition is_digit :: "char \<Rightarrow> bool" where
  "is_digit c \<longleftrightarrow> 48 \<le> char_code c \<and> char_code c \<le> 57"

definition digit_char :: "nat \<Rightarrow> char" where
  "digit_char d = char_of (48 + d)"

definition decimal_value :: "string \<Rightarrow> nat" where
  "decimal_value ds = foldl (\<lambda>n c. 10 * n + (char_code c - 48)) 0 ds"

fun decimal :: "nat \<Rightarrow> string" where
  "decimal n = (if n < 10 then [digit_char n] else decimal (n div 10) @ [digit_char (n mod 10)])"

declare decimal.simps [simp del]

lemma digit_char_simps:
  assumes "d < 10"
  shows "is_digit (digit_char d)" "char_code (digit_char d) = 48 + d"
  using assms by (simp_all add: is_digit_def char_code_def digit_char_def)

lemma decimal_digits: "decimal n \<noteq> [] \<and> list_all is_digit (decimal n)"
proof (induction n rule: decimal.induct)
  case (1 n)
  then show ?case by (cases "n < 10") (simp_all add: decimal.simps [of n] digit_char_simps)
qed

lemma decimal_value_snoc: "decimal_value (ds @ [c]) = 10 * decimal_value ds + (char_code c - 48)"
  by (simp add: decimal_value_def)

lemma decimal_value_decimal [simp]: "decimal_value (decimal n) = n"
proof (induction n rule: decimal.induct)
  case (1 n)
  show ?case
  proof (cases "n < 10")
    case True
    then show ?thesis using decimal_value_snoc [of "[]" "digit_char n"]
      by (simp add: decimal.simps [of n] digit_char_simps decimal_value_def)
  next
    case False
    then show ?thesis using 1 by (simp add: decimal.simps [of n] decimal_value_snoc digit_char_simps)
  qed
qed

lemma decimal_inject [simp]: "decimal m = decimal n \<longleftrightarrow> m = n"
  by (metis decimal_value_decimal)

subsection \<open>\<^verbatim>\<open>std::from_chars\<close>\<close>

text \<open>
  The longest prefix of digits is matched (no sign for an unsigned type). The result is the value
  left in the variable, which was zero, the end position and the error code.
\<close>

datatype chars_errc = Chars_ok | Chars_invalid_argument | Chars_result_out_of_range

definition from_chars :: "string \<Rightarrow> 'a::len word \<times> nat \<times> chars_errc" where
  "from_chars text =
     (let digits = takeWhile is_digit text
      in if digits = [] then (0, 0, Chars_invalid_argument)
         else if 2 ^ LENGTH('a) \<le> decimal_value digits then (0, length digits, Chars_result_out_of_range)
         else (of_nat (decimal_value digits), length digits, Chars_ok))"

lemma from_chars_code [code]:
  "from_chars text =
     (let digits = takeWhile is_digit text
      in if digits = [] then (0, 0, Chars_invalid_argument)
         else if (2 :: int) ^ LENGTH('a) \<le> int (decimal_value digits) then (0, length digits, Chars_result_out_of_range)
         else (of_nat (decimal_value digits) :: 'a::len word, length digits, Chars_ok))"
proof -
  have "(2 :: int) ^ LENGTH('a) \<le> int n \<longleftrightarrow> 2 ^ LENGTH('a) \<le> n" for n
    by (metis of_nat_le_iff of_nat_numeral of_nat_power)
  then show ?thesis by (simp only: from_chars_def)
qed

text \<open>What the parsers of the applications do with it: the whole text must be one number.\<close>

definition whole_number :: "string \<Rightarrow> 'a::len word option" where
  "whole_number text =
     (case from_chars text of (value, position, error) \<Rightarrow>
        if error \<noteq> Chars_ok \<or> position \<noteq> length text then None else Some value)"

lemma length_takeWhile_all: "length (takeWhile P xs) = length xs \<longleftrightarrow> list_all P xs"
  by (induction xs) auto

lemma whole_number_iff:
  "whole_number text = Some (v :: 'a::len word) \<longleftrightarrow>
   text \<noteq> [] \<and> list_all is_digit text \<and> decimal_value text = unat v"
proof (cases "list_all is_digit text")
  case True
  then have all: "takeWhile is_digit text = text" by (simp add: list_all_iff takeWhile_eq_all_conv)
  have "whole_number text = Some v \<longleftrightarrow>
      text \<noteq> [] \<and> decimal_value text < 2 ^ LENGTH('a) \<and> of_nat (decimal_value text) = v"
    by (auto simp: whole_number_def from_chars_def Let_def all not_le)
  then show ?thesis using True unsigned_less [of v]
    by (auto simp: unsigned_of_nat take_bit_nat_eq_self)
next
  case False
  then have "length (takeWhile is_digit text) \<noteq> length text" by (simp add: length_takeWhile_all)
  then have "whole_number text = (None :: 'a word option)"
    by (cases "text") (auto simp: whole_number_def from_chars_def Let_def)
  with False show ?thesis by simp
qed

lemma whole_number_decimal [simp]: "whole_number (decimal (unat v)) = Some (v :: 'a::len word)"
  using decimal_digits by (simp add: whole_number_iff)

end
