(* ===== verification/Scenario_Parser.thy ===== *)
theory Scenario_Parser
  imports Engine Numeric_Text
begin

text \<open>
  The scenario parser of the replay application
  (\<^verbatim>\<open>apps/market_replay/src/scenario_parser.hpp\<close>, \<^verbatim>\<open>scenario_parser.cpp\<close>). A string view that tokens are taken from is
  passed on explicitly; the file system is a parameter that gives a file's contents.
\<close>

subsection \<open>Tokens\<close>

definition is_space :: "char \<Rightarrow> bool" where
  "is_space c \<longleftrightarrow> char_code c = 32 \<or> 9 \<le> char_code c \<and> char_code c \<le> 13"

definition ends_token :: "char \<Rightarrow> bool" where
  "ends_token c \<longleftrightarrow> char_code c \<in> {32, 9, 13, 10}"

definition next_token :: "string \<Rightarrow> string \<times> string" where
  "next_token line =
     (let line1 = dropWhile is_space line;
          token_end = length (takeWhile (\<lambda>c. \<not> ends_token c) line1)
      in if token_end = length line1 then (line1, [])
         else (take token_end line1, drop (token_end + 1) line1))"

definition at_line :: "nat \<Rightarrow> string \<Rightarrow> fault" where
  "at_line line_number message = Runtime_error (''line '' @ decimal line_number @ '': '' @ message)"

definition quoted :: "string \<Rightarrow> string" where
  "quoted text = [char_of (39::nat)] @ text @ [char_of (39::nat)]"

definition read_token :: "string \<Rightarrow> string \<Rightarrow> nat \<Rightarrow> (string \<times> string) outcome" where
  "read_token line field line_number =
     (case next_token line of (token, rest) \<Rightarrow>
        if token = [] then Inl (at_line line_number (''missing '' @ field)) else Inr (token, rest))"

definition reject_extra_tokens :: "string \<Rightarrow> nat \<Rightarrow> unit outcome" where
  "reject_extra_tokens line line_number =
     (let extra = fst (next_token line)
      in if extra \<noteq> [] then Inl (at_line line_number (''unexpected token '' @ quoted extra))
         else Inr ())"

definition remove_comment :: "string \<Rightarrow> string" where
  "remove_comment line = takeWhile (\<lambda>c. c \<noteq> CHR ''#'') line"

subsection \<open>Fields\<close>

definition parse_side :: "string \<Rightarrow> nat \<Rightarrow> side outcome" where
  "parse_side text line_number =
     (if text = ''buy'' then Inr Buy
      else if text = ''sell'' then Inr Sell
      else Inl (at_line line_number (''expected side to be '' @ quoted ''buy'' @ '' or '' @ quoted ''sell'')))"

definition parse_uint64 :: "string \<Rightarrow> string \<Rightarrow> nat \<Rightarrow> u64 outcome" where
  "parse_uint64 text field line_number =
     (case from_chars text of (value, position, error) \<Rightarrow>
        if error \<noteq> Chars_ok \<or> position \<noteq> length text
        then Inl (at_line line_number (''expected unsigned integer for '' @ field))
        else Inr value)"

definition parse_positive_uint64 :: "string \<Rightarrow> string \<Rightarrow> nat \<Rightarrow> u64 outcome" where
  "parse_positive_uint64 text field line_number =
     and_then (parse_uint64 text field line_number) (\<lambda>value.
       if value = 0 then Inl (at_line line_number (field @ '' must be positive'')) else Inr value)"

text \<open>\<^verbatim>\<open>std::size_t\<close> has 64 bits, so its check never fires.\<close>

definition parse_size :: "string \<Rightarrow> string \<Rightarrow> nat \<Rightarrow> nat outcome" where
  "parse_size text field line_number =
     and_then (parse_uint64 text field line_number) (\<lambda>value.
       if (-1 :: u64) < value then Inl (at_line line_number (field @ '' is too large for this platform''))
       else Inr (unat value))"

text \<open>A token read and parsed at once, as the nested calls of the source do.\<close>

definition read_uint64 :: "string \<Rightarrow> string \<Rightarrow> nat \<Rightarrow> (u64 \<times> string) outcome" where
  "read_uint64 line field line_number =
     and_then (read_token line field line_number) (\<lambda>(token, rest).
     and_then (parse_uint64 token field line_number) (\<lambda>value. Inr (value, rest)))"

definition read_positive_uint64 :: "string \<Rightarrow> string \<Rightarrow> nat \<Rightarrow> (u64 \<times> string) outcome" where
  "read_positive_uint64 line field line_number =
     and_then (read_token line field line_number) (\<lambda>(token, rest).
     and_then (parse_positive_uint64 token field line_number) (\<lambda>value. Inr (value, rest)))"

subsection \<open>Symbols\<close>

record symbol_table =
  st_ids :: "string \<rightharpoonup> symbol_id"
  st_next_id :: u32

definition empty_symbol_table :: symbol_table where
  "empty_symbol_table = \<lparr>st_ids = Map.empty, st_next_id = 1\<rparr>"

definition intern :: "string \<Rightarrow> symbol_table \<Rightarrow> symbol_table \<times> symbol_id outcome" where
  "intern name symbols =
     (case st_ids symbols name of
        Some found \<Rightarrow> (symbols, Inr found)
      | None \<Rightarrow>
          if st_next_id symbols = 0
          then (symbols, Inl (Overflow_error ''scenario symbol IDs are exhausted''))
          else (let fresh = Symbol_id (st_next_id symbols)
                in (symbols\<lparr>st_ids := (st_ids symbols)(name \<mapsto> fresh), st_next_id := st_next_id symbols + 1\<rparr>, Inr fresh)))"

subsection \<open>Orders\<close>

definition make_key :: "u64 \<Rightarrow> u64 \<Rightarrow> order_key" where
  "make_key user client_order = \<lparr>ok_user = User_id user, ok_client_order = Client_order_id client_order\<rparr>"

definition make_limit_order :: "u64 \<Rightarrow> u64 \<Rightarrow> symbol_id \<Rightarrow> side \<Rightarrow> u64 \<Rightarrow> u64 \<Rightarrow> submit_order outcome" where
  "make_limit_order user client_order instrument direction limit amount =
     and_then (make_price limit) (\<lambda>p. and_then (make_quantity amount) (\<lambda>q.
       Inr \<lparr>so_key = make_key user client_order, so_instrument = instrument, so_direction = direction,
         so_pricing = Limit_order p, so_size = q\<rparr>))"

definition make_market_order :: "u64 \<Rightarrow> u64 \<Rightarrow> symbol_id \<Rightarrow> side \<Rightarrow> u64 \<Rightarrow> submit_order outcome" where
  "make_market_order user client_order instrument direction amount =
     and_then (make_quantity amount) (\<lambda>q.
       Inr \<lparr>so_key = make_key user client_order, so_instrument = instrument, so_direction = direction,
         so_pricing = Market_order, so_size = q\<rparr>)"

definition make_cancel_order :: "u64 \<Rightarrow> u64 \<Rightarrow> cancel_order" where
  "make_cancel_order user client_order = \<lparr>co_key = make_key user client_order\<rparr>"

definition make_limit_update :: "u64 \<Rightarrow> u64 \<Rightarrow> u64 \<Rightarrow> u64 \<Rightarrow> update_order outcome" where
  "make_limit_update user client_order limit amount =
     and_then (make_price limit) (\<lambda>p. and_then (make_quantity amount) (\<lambda>q.
       Inr \<lparr>uo_key = make_key user client_order, uo_pricing = Limit_order p, uo_size = q\<rparr>))"

subsection \<open>Commands\<close>

datatype scenario_command =
    Scenario_submit submit_order
  | Scenario_update update_order
  | Scenario_cancel cancel_order
  | Scenario_snapshot symbol_id nat

record scenario_step =
  ss_line_number :: nat
  ss_text :: string
  ss_command :: scenario_command

type_synonym parsed = "(scenario_command \<times> symbol_table) outcome"

definition interned :: "string \<Rightarrow> symbol_table \<Rightarrow> (symbol_id \<Rightarrow> scenario_command outcome) \<Rightarrow> parsed" where
  "interned name symbols build =
     (case intern name symbols of
        (symbols1, r) \<Rightarrow> and_then r (\<lambda>instrument. and_then (build instrument) (\<lambda>c. Inr (c, symbols1))))"

definition parse_submit :: "string \<Rightarrow> nat \<Rightarrow> symbol_table \<Rightarrow> parsed" where
  "parse_submit line line_number symbols =
     and_then (read_token line ''pricing'' line_number) (\<lambda>(pricing, line1).
     and_then (read_uint64 line1 ''user'' line_number) (\<lambda>(user, line2).
     and_then (read_uint64 line2 ''client_order'' line_number) (\<lambda>(client_order, line3).
     and_then (read_token line3 ''instrument'' line_number) (\<lambda>(instrument, line4).
     and_then (read_token line4 ''side'' line_number) (\<lambda>(side_text, line5).
     and_then (parse_side side_text line_number) (\<lambda>direction.
       if pricing = ''limit'' then
         and_then (read_positive_uint64 line5 ''limit_price'' line_number) (\<lambda>(limit, line6).
         and_then (read_positive_uint64 line6 ''size'' line_number) (\<lambda>(size, line7).
         and_then (reject_extra_tokens line7 line_number) (\<lambda>_.
           interned instrument symbols (\<lambda>instrument_id.
             map_sum id Scenario_submit (make_limit_order user client_order instrument_id direction limit size)))))
       else if pricing = ''market'' then
         and_then (read_positive_uint64 line5 ''size'' line_number) (\<lambda>(size, line6).
         and_then (reject_extra_tokens line6 line_number) (\<lambda>_.
           interned instrument symbols (\<lambda>instrument_id.
             map_sum id Scenario_submit (make_market_order user client_order instrument_id direction size))))
       else Inl (at_line line_number (''expected pricing to be '' @ quoted ''limit'' @ '' or '' @ quoted ''market''))))))))"

definition parse_cancel :: "string \<Rightarrow> nat \<Rightarrow> scenario_command outcome" where
  "parse_cancel line line_number =
     and_then (read_uint64 line ''user'' line_number) (\<lambda>(user, line1).
     and_then (read_uint64 line1 ''client_order'' line_number) (\<lambda>(client_order, line2).
     and_then (reject_extra_tokens line2 line_number) (\<lambda>_.
       Inr (Scenario_cancel (make_cancel_order user client_order)))))"

definition parse_update :: "string \<Rightarrow> nat \<Rightarrow> scenario_command outcome" where
  "parse_update line line_number =
     and_then (read_token line ''pricing'' line_number) (\<lambda>(pricing, line1).
     and_then (read_uint64 line1 ''user'' line_number) (\<lambda>(user, line2).
     and_then (read_uint64 line2 ''client_order'' line_number) (\<lambda>(client_order, line3).
       if pricing = ''limit'' then
         and_then (read_positive_uint64 line3 ''limit_price'' line_number) (\<lambda>(limit, line4).
         and_then (read_positive_uint64 line4 ''size'' line_number) (\<lambda>(size, line5).
         and_then (reject_extra_tokens line5 line_number) (\<lambda>_.
           map_sum id Scenario_update (make_limit_update user client_order limit size))))
       else Inl (at_line line_number (''expected update pricing to be '' @ quoted ''limit'')))))"

definition parse_snapshot :: "string \<Rightarrow> nat \<Rightarrow> symbol_table \<Rightarrow> parsed" where
  "parse_snapshot line line_number symbols =
     and_then (read_token line ''instrument'' line_number) (\<lambda>(instrument, line1).
     and_then (read_token line1 ''depth'' line_number) (\<lambda>(depth_text, line2).
     and_then (parse_size depth_text ''depth'' line_number) (\<lambda>depth.
     and_then (reject_extra_tokens line2 line_number) (\<lambda>_.
       interned instrument symbols (\<lambda>instrument_id. Inr (Scenario_snapshot instrument_id depth))))))"

text \<open>Updates and cancels leave the symbol table alone.\<close>

definition parse_command :: "string \<Rightarrow> nat \<Rightarrow> symbol_table \<Rightarrow> parsed" where
  "parse_command line line_number symbols =
     and_then (read_token line ''command'' line_number) (\<lambda>(command, remaining).
       if command = ''submit'' then parse_submit remaining line_number symbols
       else if command = ''update'' then and_then (parse_update remaining line_number) (\<lambda>c. Inr (c, symbols))
       else if command = ''cancel'' then and_then (parse_cancel remaining line_number) (\<lambda>c. Inr (c, symbols))
       else if command = ''snapshot'' then parse_snapshot remaining line_number symbols
       else Inl (at_line line_number (''expected command to be '' @ quoted ''submit'' @ '', '' @ quoted ''update'' @ '', ''
              @ quoted ''cancel'' @ '', or '' @ quoted ''snapshot'')))"

subsection \<open>Loading a file\<close>

text \<open>\<^verbatim>\<open>std::getline\<close>: a line without its newline, or nothing at the end of the input.\<close>

definition getline :: "string \<Rightarrow> (string \<times> string) option" where
  "getline input =
     (if input = [] then None
      else (let line = takeWhile (\<lambda>c. c \<noteq> CHR 0x0A) input in Some (line, drop (length line + 1) input)))"

lemma getline_shorter: "getline input = Some (line, rest) \<Longrightarrow> length rest < length input"
  by (cases input) (auto simp: getline_def Let_def)

function load_loop :: "string \<Rightarrow> nat \<Rightarrow> symbol_table \<Rightarrow> scenario_step list \<Rightarrow> scenario_step list outcome" where
  "load_loop input line_number symbols steps =
     (case getline input of
        None \<Rightarrow> Inr steps
      | Some (line, rest) \<Rightarrow>
          (let command_text = remove_comment line
           in if fst (next_token command_text) = [] then load_loop rest (line_number + 1) symbols steps
              else (case parse_command command_text (line_number + 1) symbols of
                      Inl f \<Rightarrow> Inl f
                    | Inr (command, symbols1) \<Rightarrow>
                        load_loop rest (line_number + 1) symbols1
                          (steps @ [\<lparr>ss_line_number = line_number + 1, ss_text = command_text, ss_command = command\<rparr>]))))"
  by pat_completeness auto
termination
  by (relation "measure (\<lambda>(input, _). length input)") (auto dest: getline_shorter)

declare load_loop.simps [simp del]

definition load :: "(string \<Rightarrow> string option) \<Rightarrow> string \<Rightarrow> scenario_step list outcome" where
  "load files path =
     (case files path of
        None \<Rightarrow> Inl (Runtime_error (''failed to open scenario file: '' @ path))
      | Some input \<Rightarrow> load_loop input 0 empty_symbol_table [])"

end
