(* ===== verification/Scenario_Text.thy ===== *)
theory Scenario_Text
  imports Scenario_Parser
begin

text \<open>
  Scenario files as they are meant: the lines of a scenario as a datatype with the tokens that write
  them, and the facts that the parser reads these tokens back.
\<close>

subsection \<open>Reading words\<close>

definition word_ok :: "string \<Rightarrow> bool" where
  "word_ok w \<longleftrightarrow> w \<noteq> [] \<and> list_all (\<lambda>c. \<not> is_space c \<and> c \<noteq> CHR ''#'') w"

fun unwords :: "string list \<Rightarrow> string" where
  "unwords [] = []"
| "unwords [w] = w"
| "unwords (w # ws) = w @ CHR 0x20 # unwords ws"

lemma ends_token_space: "ends_token c \<Longrightarrow> is_space c"
  by (auto simp: ends_token_def is_space_def)

lemma space_is_space: "is_space (CHR 0x20)" "ends_token (CHR 0x20)" "is_space (CHR 0x0A)"
  by code_simp+

lemma word_ok_scan:
  assumes "word_ok w"
  shows "dropWhile is_space (w @ rest) = w @ rest" "takeWhile (\<lambda>c. \<not> ends_token c) w = w"
    "takeWhile (\<lambda>c. \<not> ends_token c) (w @ CHR 0x20 # rest) = w"
proof -
  from assms have *: "\<And>c. c \<in> set w \<Longrightarrow> \<not> is_space c \<and> \<not> ends_token c"
    using ends_token_space by (auto simp: word_ok_def list_all_iff)
  show "dropWhile is_space (w @ rest) = w @ rest"
    using assms * by (cases w) (auto simp: word_ok_def)
  show "takeWhile (\<lambda>c. \<not> ends_token c) w = w" using * by (simp add: takeWhile_eq_all_conv)
  show "takeWhile (\<lambda>c. \<not> ends_token c) (w @ CHR 0x20 # rest) = w"
    using * by (simp add: space_is_space)
qed

lemma next_token_unwords [simp]: "word_ok w \<Longrightarrow> next_token (unwords (w # ws)) = (w, unwords ws)"
  using word_ok_scan(1) [of w "[]"]
  by (cases ws) (simp_all add: next_token_def Let_def word_ok_scan)

lemma next_token_empty [simp]: "next_token [] = ([], [])"
  by (simp add: next_token_def)

lemma read_token_unwords [simp]:
  "word_ok w \<Longrightarrow> read_token (unwords (w # ws)) field n = Inr (w, unwords ws)"
  by (simp add: read_token_def del: unwords.simps) (auto simp: word_ok_def)

lemma reject_extra_none [simp]: "reject_extra_tokens (unwords []) n = Inr ()"
  by (simp add: reject_extra_tokens_def)

lemma digit_not_space: "is_digit c \<Longrightarrow> \<not> is_space c \<and> c \<noteq> CHR ''#''"
  by (auto simp: is_digit_def is_space_def char_code_def)

lemma word_ok_decimal [simp]: "word_ok (decimal n)"
  using decimal_digits [of n] digit_not_space by (auto simp: word_ok_def list_all_iff)

lemma parse_uint64_whole:
  "parse_uint64 text field n = (case whole_number text of
     None \<Rightarrow> Inl (at_line n (''expected unsigned integer for '' @ field)) | Some v \<Rightarrow> Inr v)"
  by (simp add: parse_uint64_def whole_number_def split: prod.splits)

lemma read_uint64_unwords [simp]:
  "read_uint64 (unwords (decimal (unat v) # ws)) field n = Inr (v, unwords ws)"
  by (simp add: read_uint64_def parse_uint64_whole del: unwords.simps)

lemma read_positive_uint64_unwords [simp]:
  "v \<noteq> 0 \<Longrightarrow> read_positive_uint64 (unwords (decimal (unat v) # ws)) field n = Inr (v, unwords ws)"
  by (simp add: read_positive_uint64_def parse_positive_uint64_def parse_uint64_whole del: unwords.simps)

lemma parse_size_decimal [simp]: "k < 2 ^ 64 \<Longrightarrow> parse_size (decimal k) field n = Inr k"
  using whole_number_decimal [of "of_nat k :: u64"]
  by (simp add: parse_size_def parse_uint64_whole unsigned_of_nat take_bit_nat_eq_self)

subsection \<open>Numbering of symbols\<close>

definition seen_with :: "string list \<Rightarrow> string \<Rightarrow> string list" where
  "seen_with seen name = (if name \<in> set seen then seen else seen @ [name])"

definition symbol_of :: "string list \<Rightarrow> string \<Rightarrow> symbol_id" where
  "symbol_of seen name = Symbol_id (of_nat (Suc (length (takeWhile (\<lambda>n. n \<noteq> name) seen))))"

definition table_for :: "string list \<Rightarrow> symbol_table" where
  "table_for seen = \<lparr>st_ids = (\<lambda>name. if name \<in> set seen then Some (symbol_of seen name) else None),
     st_next_id = of_nat (Suc (length seen))\<rparr>"

lemma table_for_Nil: "table_for [] = empty_symbol_table"
  by (simp add: table_for_def empty_symbol_table_def)

lemma symbol_of_old: "name \<in> set seen \<Longrightarrow> symbol_of (seen @ new) name = symbol_of seen name"
  by (simp add: symbol_of_def takeWhile_append1)

lemma symbol_of_new: "name \<notin> set seen \<Longrightarrow> symbol_of (seen @ [name]) name = Symbol_id (of_nat (Suc (length seen)))"
  by (subst symbol_of_def, subst takeWhile_append2) auto

lemma intern_table:
  assumes "length seen < 2 ^ 32 - 1"
  shows "intern name (table_for seen) = (table_for (seen_with seen name), Inr (symbol_of (seen_with seen name) name))"
proof (cases "name \<in> set seen")
  case True
  then show ?thesis by (simp add: intern_def table_for_def seen_with_def)
next
  case False
  have "(of_nat (Suc (length seen)) :: u32) \<noteq> 0"
    using assms by (simp add: word_of_nat_eq_0_iff del: of_nat_Suc) (auto dest: dvd_imp_le)
  with False show ?thesis
    by (simp add: intern_def table_for_def seen_with_def Let_def symbol_of_new symbol_of_old fun_eq_iff del: of_nat_Suc)
       (simp add: add.commute)
qed

subsection \<open>Scenario lines\<close>

datatype scenario_line =
    Limit_line u64 u64 string side u64 u64
  | Market_line u64 u64 string side u64
  | Update_line u64 u64 u64 u64
  | Cancel_line u64 u64
  | Snapshot_line string nat

definition side_word :: "side \<Rightarrow> string" where
  "side_word d = (case d of Buy \<Rightarrow> ''buy'' | Sell \<Rightarrow> ''sell'')"

abbreviation number :: "u64 \<Rightarrow> string" where
  "number v \<equiv> decimal (unat v)"

fun line_words :: "scenario_line \<Rightarrow> string list" where
  "line_words (Limit_line user client name direction limit amount) =
     [''submit'', ''limit'', number user, number client, name, side_word direction, number limit, number amount]"
| "line_words (Market_line user client name direction amount) =
     [''submit'', ''market'', number user, number client, name, side_word direction, number amount]"
| "line_words (Update_line user client limit amount) =
     [''update'', ''limit'', number user, number client, number limit, number amount]"
| "line_words (Cancel_line user client) = [''cancel'', number user, number client]"
| "line_words (Snapshot_line name depth) = [''snapshot'', name, decimal depth]"

fun line_ok :: "scenario_line \<Rightarrow> bool" where
  "line_ok (Limit_line _ _ name _ limit amount) \<longleftrightarrow> word_ok name \<and> limit \<noteq> 0 \<and> amount \<noteq> 0"
| "line_ok (Market_line _ _ name _ amount) \<longleftrightarrow> word_ok name \<and> amount \<noteq> 0"
| "line_ok (Update_line _ _ limit amount) \<longleftrightarrow> limit \<noteq> 0 \<and> amount \<noteq> 0"
| "line_ok (Cancel_line _ _) \<longleftrightarrow> True"
| "line_ok (Snapshot_line name depth) \<longleftrightarrow> word_ok name \<and> depth < 2 ^ 64"

fun line_names :: "scenario_line \<Rightarrow> string list" where
  "line_names (Limit_line _ _ name _ _ _) = [name]"
| "line_names (Market_line _ _ name _ _) = [name]"
| "line_names (Snapshot_line name _) = [name]"
| "line_names _ = []"

fun line_command :: "(string \<Rightarrow> symbol_id) \<Rightarrow> scenario_line \<Rightarrow> scenario_command" where
  "line_command symbol (Limit_line user client name direction limit amount) =
     Scenario_submit \<lparr>so_key = make_key user client, so_instrument = symbol name, so_direction = direction,
       so_pricing = Limit_order (Price limit), so_size = Quantity amount\<rparr>"
| "line_command symbol (Market_line user client name direction amount) =
     Scenario_submit \<lparr>so_key = make_key user client, so_instrument = symbol name, so_direction = direction,
       so_pricing = Market_order, so_size = Quantity amount\<rparr>"
| "line_command symbol (Update_line user client limit amount) =
     Scenario_update \<lparr>uo_key = make_key user client, uo_pricing = Limit_order (Price limit), uo_size = Quantity amount\<rparr>"
| "line_command symbol (Cancel_line user client) = Scenario_cancel \<lparr>co_key = make_key user client\<rparr>"
| "line_command symbol (Snapshot_line name depth) = Scenario_snapshot (symbol name) depth"

text \<open>The names of a scenario in the order of their first use, which numbers them.\<close>

definition names_after :: "string list \<Rightarrow> scenario_line list \<Rightarrow> string list" where
  "names_after seen ls = foldl seen_with seen (concat (map line_names ls))"

lemma names_after_simps [simp]:
  "names_after seen [] = seen"
  "names_after seen (l # ls) = names_after (foldl seen_with seen (line_names l)) ls"
  by (simp_all add: names_after_def)

lemma side_word_simps [simp]: "word_ok (side_word d)" "parse_side (side_word d) n = Inr d"
  by (cases d; simp add: side_word_def word_ok_def is_space_def char_code_def parse_side_def)+

lemma word_ok_keywords [simp]:
  "word_ok ''submit''" "word_ok ''update''" "word_ok ''cancel''" "word_ok ''snapshot''" "word_ok ''limit''" "word_ok ''market''"
  by code_simp+

lemma line_words_ok: "line_ok l \<Longrightarrow> list_all word_ok (line_words l) \<and> line_words l \<noteq> []"
  by (cases l) auto

lemma parse_line:
  assumes "line_ok l" and "length seen < 2 ^ 32 - 1"
  shows "parse_command (unwords (line_words l)) n (table_for seen) =
    (let seen' = foldl seen_with seen (line_names l) in Inr (line_command (symbol_of seen') l, table_for seen'))"
  using assms intern_table [OF assms(2)]
  by (cases l) (simp_all add: parse_command_def parse_submit_def parse_update_def parse_cancel_def parse_snapshot_def
      interned_def make_limit_order_def make_market_order_def make_limit_update_def make_cancel_order_def
      make_price_def make_quantity_def Let_def del: unwords.simps)

lemma names_after_extends: "\<exists>new. names_after seen ls = seen @ new"
proof -
  have "\<exists>new. foldl seen_with seen ns = seen @ new" for ns
    by (induction ns arbitrary: seen) (auto simp: seen_with_def, metis append.assoc)
  then show ?thesis by (simp add: names_after_def)
qed

lemma length_seen_with: "length (seen_with seen name) \<le> Suc (length seen)"
  by (simp add: seen_with_def)

lemma line_names_cases: "line_names l = [] \<or> (\<exists>name. line_names l = [name])"
  by (cases l) auto

lemma symbol_of_names_after:
  "name \<in> set seen \<Longrightarrow> symbol_of (names_after seen ls) name = symbol_of seen name"
  using names_after_extends [of seen ls] symbol_of_old by metis

lemma line_command_final:
  "line_command (symbol_of (foldl seen_with seen (line_names l))) l =
   line_command (symbol_of (names_after seen (l # ls))) l"
  by (cases l) (simp_all add: symbol_of_names_after seen_with_def)

subsection \<open>Loading a rendered scenario\<close>

definition scenario_text :: "scenario_line list \<Rightarrow> string" where
  "scenario_text ls = concat (map (\<lambda>l. unwords (line_words l) @ [CHR 0x0A]) ls)"

lemma word_ok_chars: "word_ok w \<Longrightarrow> list_all (\<lambda>c. c \<noteq> CHR 0x0A \<and> c \<noteq> CHR ''#'') w"
  unfolding word_ok_def list_all_iff using space_is_space(3) by blast

lemma unwords_chars:
  "list_all word_ok ws \<Longrightarrow> list_all (\<lambda>c. c \<noteq> CHR 0x0A \<and> c \<noteq> CHR ''#'') (unwords ws)"
  by (induction ws rule: unwords.induct) (simp_all add: word_ok_chars)

lemma getline_line:
  "list_all (\<lambda>c. c \<noteq> CHR 0x0A \<and> c \<noteq> CHR ''#'') line \<Longrightarrow>
   getline (line @ CHR 0x0A # rest) = Some (line, rest) \<and> remove_comment line = line"
  by (simp add: getline_def remove_comment_def Let_def takeWhile_append2 list_all_iff takeWhile_eq_all_conv)

definition step_for :: "string list \<Rightarrow> nat \<Rightarrow> scenario_line \<Rightarrow> scenario_step" where
  "step_for names n l = \<lparr>ss_line_number = n, ss_text = unwords (line_words l), ss_command = line_command (symbol_of names) l\<rparr>"

lemma load_loop_scenario:
  assumes "list_all line_ok ls" and "length seen + length ls < 2 ^ 32"
  shows "load_loop (scenario_text ls) n (table_for seen) steps =
    Inr (steps @ map2 (step_for (names_after seen ls)) [Suc n..<Suc n + length ls] ls)"
  using assms
proof (induction ls arbitrary: n seen steps)
  case Nil
  then show ?case by (simp add: load_loop.simps scenario_text_def getline_def)
next
  case (Cons l ls)
  define seen' where "seen' = foldl seen_with seen (line_names l)"
  have "length seen' \<le> Suc (length seen)"
    using line_names_cases [of l] length_seen_with [of seen] by (auto simp: seen'_def)
  with Cons.prems(2) have len: "length seen' + length ls < 2 ^ 32" by simp
  obtain w ws where words: "line_words l = w # ws" "word_ok w"
    using Cons.prems(1) line_words_ok [of l] by (cases "line_words l") auto
  have line: "getline (scenario_text (l # ls)) = Some (unwords (line_words l), scenario_text ls)"
    "remove_comment (unwords (line_words l)) = unwords (line_words l)"
    using getline_line [OF unwords_chars] Cons.prems(1) line_words_ok [of l] by (auto simp: scenario_text_def)
  have "fst (next_token (unwords (line_words l))) \<noteq> []"
    using words by (simp add: word_ok_def del: unwords.simps)
  moreover have "parse_command (unwords (line_words l)) (Suc n) (table_for seen) =
      Inr (line_command (symbol_of (names_after seen (l # ls))) l, table_for seen')"
    using parse_line [of l seen "Suc n"] Cons.prems line_command_final [of seen l ls] by (simp add: seen'_def Let_def)
  ultimately have "load_loop (scenario_text (l # ls)) n (table_for seen) steps =
      load_loop (scenario_text ls) (Suc n) (table_for seen')
        (steps @ [step_for (names_after seen (l # ls)) (Suc n) l])"
    using line by (simp add: load_loop.simps [of "scenario_text (l # ls)"] Let_def step_for_def)
  also have "\<dots> = Inr (steps @ map2 (step_for (names_after seen (l # ls))) [Suc n..<Suc n + length (l # ls)] (l # ls))"
    using Cons.IH [of seen' "Suc n"] Cons.prems(1) len
    by (simp add: upt_conv_Cons [of "Suc n"] seen'_def del: upt_Suc)
  finally show ?case .
qed

lemma distinct_names_after: "distinct seen \<Longrightarrow> distinct (names_after seen ls)"
proof -
  have "distinct seen \<Longrightarrow> distinct (foldl seen_with seen ns)" for ns
    by (induction ns arbitrary: seen) (simp_all add: seen_with_def)
  then show "distinct seen \<Longrightarrow> ?thesis" by (simp add: names_after_def)
qed

lemma length_names_after: "length (names_after seen ls) \<le> length seen + length ls"
proof (induction ls arbitrary: seen)
  case (Cons l ls)
  have "length (foldl seen_with seen (line_names l)) \<le> Suc (length seen)"
    using line_names_cases [of l] length_seen_with [of seen] by auto
  with Cons [of "foldl seen_with seen (line_names l)"] show ?case by simp
qed simp

lemma symbol_of_inj:
  assumes "length names < 2 ^ 32" and "name \<in> set names" and "name' \<in> set names"
  shows "symbol_of names name = symbol_of names name' \<longleftrightarrow> name = name'"
    and "symbol_value (symbol_of names name) \<noteq> 0"
proof -
  define at where "at = (\<lambda>name. length (takeWhile (\<lambda>n. n \<noteq> name) names))"
  have at: "at n < length names" "names ! at n = n" if "n \<in> set names" for n
  proof -
    show "at n < length names"
      using that unfolding at_def by (induction names) auto
    then show "names ! at n = n" using nth_length_takeWhile [of "\<lambda>x. x \<noteq> n" names] by (simp add: at_def)
  qed
  have val: "unat (symbol_value (symbol_of names n)) = Suc (at n)" if "n \<in> set names" for n
    using at(1) [OF that] assms(1)
    by (simp add: symbol_of_def at_def unsigned_of_nat take_bit_nat_eq_self del: of_nat_Suc)
  show "symbol_of names name = symbol_of names name' \<longleftrightarrow> name = name'"
    using val [OF assms(2)] val [OF assms(3)] at(2) [OF assms(2)] at(2) [OF assms(3)] by (metis old.nat.inject)
  show "symbol_value (symbol_of names name) \<noteq> 0" using val [OF assms(2)] by auto
qed

end
