(* ===== verification/Scenario_Properties.thy ===== *)
theory Scenario_Properties
  imports Scenario_Text
begin

text \<open>
  The properties of the scenario parser: numbers, the round trip of scenario files, located errors,
  and what every loaded command satisfies.
\<close>

subsection \<open>Every result of the parser\<close>

definition table_valid :: "symbol_table \<Rightarrow> bool" where
  "table_valid symbols \<longleftrightarrow> (\<exists>seen. symbols = table_for seen \<and> length seen < 2 ^ 32)"

lemma table_valid_empty: "table_valid empty_symbol_table"
  unfolding table_valid_def by (intro exI [of _ "[]"]) (simp add: table_for_Nil)

lemma intern_valid:
  assumes "table_valid symbols" and "intern name symbols = (symbols', r)"
  shows "table_valid symbols' \<and>
    (case r of Inl f \<Rightarrow> f = Overflow_error ''scenario symbol IDs are exhausted''
     | Inr instrument \<Rightarrow> symbol_value instrument \<noteq> 0)"
proof -
  from assms(1) obtain seen where seen: "symbols = table_for seen" "length seen < 2 ^ 32"
    by (auto simp: table_valid_def)
  show ?thesis
  proof (cases "name \<in> set seen")
    case True
    then have "symbols' = symbols" "r = Inr (symbol_of seen name)"
      using assms(2) seen(1) by (auto simp: intern_def table_for_def)
    then show ?thesis using assms(1) symbol_of_inj(2) [OF seen(2) True True] by simp
  next
    case new: False
    show ?thesis
    proof (cases "length seen < 2 ^ 32 - 1")
      case True
      have "symbols' = table_for (seen @ [name])" "r = Inr (symbol_of (seen @ [name]) name)"
        using assms(2) intern_table [OF True, of name] new by (simp_all add: seen(1) seen_with_def)
      moreover have "symbol_value (symbol_of (seen @ [name]) name) \<noteq> 0"
        using True by (intro symbol_of_inj(2) [of _ _ name]) simp_all
      ultimately show ?thesis using True by (auto simp: table_valid_def intro!: exI [of _ "seen @ [name]"])
    next
      case False
      then have "Suc (length seen) = 2 ^ 32" using seen(2) by simp
      then have "st_next_id (table_for seen) = 0" by (simp add: table_for_def word_of_nat_eq_0_iff del: of_nat_Suc)
      then show ?thesis using assms new by (auto simp: intern_def seen(1) table_for_def split: if_splits)
    qed
  qed
qed

text \<open>The results that may only fail with an error of their line.\<close>

definition located :: "nat \<Rightarrow> 'a outcome \<Rightarrow> bool" where
  "located n r \<longleftrightarrow> (case r of Inl f \<Rightarrow> \<exists>m. f = at_line n m | Inr _ \<Rightarrow> True)"

lemma located_simps [simp]: "located n (Inr x)" "located n (Inl (at_line n m))"
  by (auto simp: located_def)

lemma located_and_then: "\<lbrakk>located n r; \<And>x. r = Inr x \<Longrightarrow> located n (f x)\<rbrakk> \<Longrightarrow> located n (and_then r f)"
  by (cases r) (simp_all add: located_def)

lemma located_fields [simp]:
  "located n (read_token line field n)" "located n (parse_side w n)" "located n (parse_uint64 w field n)"
  "located n (reject_extra_tokens line n)"
  by (simp_all add: read_token_def parse_side_def parse_uint64_def reject_extra_tokens_def Let_def split: prod.splits)

lemma located_numbers [simp]:
  "located n (parse_positive_uint64 w field n)" "located n (parse_size w field n)"
  "located n (read_uint64 line field n)" "located n (read_positive_uint64 line field n)"
  by (auto simp: parse_positive_uint64_def parse_size_def read_uint64_def read_positive_uint64_def
      intro!: located_and_then split: prod.splits)

lemma read_positive_nonzero: "read_positive_uint64 line field n = Inr (v, rest) \<Longrightarrow> v \<noteq> 0"
  by (auto simp: read_positive_uint64_def parse_positive_uint64_def and_then_Inr_iff split: if_splits)

fun command_ok :: "scenario_command \<Rightarrow> bool" where
  "command_ok (Scenario_submit order) \<longleftrightarrow> symbol_value (so_instrument order) \<noteq> 0 \<and>
     quantity_value (so_size order) \<noteq> 0 \<and>
     (case so_pricing order of Limit_order p \<Rightarrow> price_value p \<noteq> 0 | Market_order \<Rightarrow> True)"
| "command_ok (Scenario_update order) \<longleftrightarrow> quantity_value (uo_size order) \<noteq> 0 \<and>
     (\<exists>p. uo_pricing order = Limit_order p \<and> price_value p \<noteq> 0)"
| "command_ok (Scenario_cancel order) \<longleftrightarrow> True"
| "command_ok (Scenario_snapshot instrument depth) \<longleftrightarrow> symbol_value instrument \<noteq> 0 \<and> depth < 2 ^ 64"

definition parsed_ok :: "nat \<Rightarrow> parsed \<Rightarrow> bool" where
  "parsed_ok n r \<longleftrightarrow>
     (case r of Inl f \<Rightarrow> (\<exists>m. f = at_line n m) \<or> f = Overflow_error ''scenario symbol IDs are exhausted''
      | Inr (c, symbols) \<Rightarrow> command_ok c \<and> table_valid symbols)"

lemma parsed_ok_and_then:
  "\<lbrakk>located n r; \<And>x. r = Inr x \<Longrightarrow> parsed_ok n (f x)\<rbrakk> \<Longrightarrow> parsed_ok n (and_then r f)"
  by (cases r) (auto simp: located_def parsed_ok_def)

lemma parsed_ok_interned:
  assumes "table_valid symbols"
    and "\<And>instrument. symbol_value instrument \<noteq> 0 \<Longrightarrow> \<exists>c. build instrument = Inr c \<and> command_ok c"
  shows "parsed_ok n (interned name symbols build)"
proof -
  obtain symbols' r where i: "intern name symbols = (symbols', r)" by fastforce
  show ?thesis
  proof (cases r)
    case (Inl f)
    then show ?thesis using intern_valid [OF assms(1) i] by (simp add: interned_def i parsed_ok_def)
  next
    case (Inr instrument)
    then have "table_valid symbols'" "symbol_value instrument \<noteq> 0" using intern_valid [OF assms(1) i] by simp_all
    moreover from this obtain c where "build instrument = Inr c" "command_ok c" using assms(2) by blast
    ultimately show ?thesis by (simp add: interned_def i Inr parsed_ok_def)
  qed
qed

lemma parsed_ok_unlocated: "parsed_ok n (Inl (at_line n m))"
  unfolding parsed_ok_def by auto

lemma parse_submit_ok: "table_valid symbols \<Longrightarrow> parsed_ok n (parse_submit line n symbols)"
  unfolding parse_submit_def
  by (auto intro!: parsed_ok_and_then parsed_ok_interned parsed_ok_unlocated dest!: read_positive_nonzero
      simp: make_limit_order_def make_market_order_def make_price_def make_quantity_def)

lemma parse_size_bound: "parse_size w field n = Inr k \<Longrightarrow> k < 2 ^ 64"
proof -
  assume "parse_size w field n = Inr k"
  then obtain v :: u64 where "k = unat v" by (auto simp: parse_size_def and_then_Inr_iff split: if_splits)
  then show "k < 2 ^ 64" using unsigned_less [of v] by simp
qed

lemma parse_snapshot_ok: "table_valid symbols \<Longrightarrow> parsed_ok n (parse_snapshot line n symbols)"
  unfolding parse_snapshot_def
  by (auto intro!: parsed_ok_and_then parsed_ok_interned dest!: parse_size_bound)

lemma parse_update_ok:
  "located n (parse_update line n) \<and> (\<forall>c. parse_update line n = Inr c \<longrightarrow> command_ok c)"
proof -
  have "located n (parse_update line n)"
    unfolding parse_update_def
    by (auto intro!: located_and_then dest!: read_positive_nonzero
        simp: make_limit_update_def make_price_def make_quantity_def)
  moreover have "command_ok c" if "parse_update line n = Inr c" for c
    using that unfolding parse_update_def
    by (auto simp: and_then_Inr_iff make_limit_update_def make_price_def make_quantity_def
        dest!: read_positive_nonzero split: if_splits prod.splits)
  ultimately show ?thesis by blast
qed

lemma parse_cancel_ok:
  "located n (parse_cancel line n) \<and> (\<forall>c. parse_cancel line n = Inr c \<longrightarrow> command_ok c)"
  unfolding parse_cancel_def by (auto intro!: located_and_then simp: and_then_Inr_iff)

lemma parse_command_ok:
  assumes "table_valid symbols"
  shows "parsed_ok n (parse_command line n symbols)"
proof -
  have lift: "parsed_ok n (and_then r (\<lambda>c. Inr (c, symbols)))"
    if "located n r \<and> (\<forall>c. r = Inr c \<longrightarrow> command_ok c)" for r
    using that assms by (intro parsed_ok_and_then) (simp_all add: parsed_ok_def)
  show ?thesis unfolding parse_command_def
    using parse_submit_ok [OF assms] parse_snapshot_ok [OF assms] lift [OF parse_update_ok] lift [OF parse_cancel_ok]
    by (auto intro!: parsed_ok_and_then simp: parsed_ok_unlocated)
qed

subsection \<open>Every loaded file\<close>

definition input_lines :: "string \<Rightarrow> nat" where
  "input_lines input = Suc (count_list input (CHR 0x0A))"

lemma getline_count:
  assumes "getline input = Some (line, rest)"
  shows "rest = [] \<or> input_lines input = Suc (input_lines rest)"
proof -
  have "line = takeWhile (\<lambda>c. c \<noteq> CHR 0x0A) input" "rest = tl (dropWhile (\<lambda>c. c \<noteq> CHR 0x0A) input)"
    using assms by (auto simp: getline_def Let_def dropWhile_eq_drop drop_Suc tl_drop split: if_splits)
  moreover have "tl (dropWhile (\<lambda>c. c \<noteq> CHR 0x0A) input) = [] \<or>
      count_list input (CHR 0x0A) = Suc (count_list (tl (dropWhile (\<lambda>c. c \<noteq> CHR 0x0A) input)) (CHR 0x0A))"
    by (induction input) auto
  ultimately show ?thesis by (auto simp: input_lines_def)
qed

definition steps_ok :: "nat \<Rightarrow> nat \<Rightarrow> scenario_step list \<Rightarrow> bool" where
  "steps_ok low high steps \<longleftrightarrow>
     sorted_wrt (<) (map ss_line_number steps) \<and>
     (\<forall>s \<in> set steps. low < ss_line_number s \<and> ss_line_number s \<le> high \<and> command_ok (ss_command s))"

definition loaded_ok :: "nat \<Rightarrow> scenario_step list outcome \<Rightarrow> bool" where
  "loaded_ok high r \<longleftrightarrow>
     (case r of Inl f \<Rightarrow> (\<exists>k m. 1 \<le> k \<and> k \<le> high \<and> f = at_line k m) \<or> f = Overflow_error ''scenario symbol IDs are exhausted''
      | Inr steps \<Rightarrow> steps_ok 0 high steps)"

lemma load_loop_ok:
  "\<lbrakk>table_valid symbols; steps_ok 0 n steps; input = [] \<or> n + input_lines input \<le> high; n \<le> high\<rbrakk> \<Longrightarrow>
   loaded_ok high (load_loop input n symbols steps)"
proof (induction input n symbols steps rule: load_loop.induct)
  case (1 input n symbols steps)
  show ?case
  proof (cases "getline input")
    case None
    then show ?thesis using 1 by (auto simp: load_loop.simps [of input] loaded_ok_def steps_ok_def)
  next
    case (Some p)
    then obtain line rest where line: "getline input = Some (line, rest)" by (cases p) auto
    have high: "Suc n \<le> high" and rest: "rest = [] \<or> Suc n + input_lines rest \<le> high"
      using 1(5) line getline_count [OF line] by (auto simp: getline_def input_lines_def)
    define command_text where "command_text = remove_comment line"
    show ?thesis
    proof (cases "fst (next_token command_text) = []")
      case True
      have "steps_ok 0 (Suc n) steps" using 1(4) by (auto simp: steps_ok_def)
      then show ?thesis using 1(1) [OF line refl command_text_def] True 1(3) high rest line
        by (simp add: load_loop.simps [of input] command_text_def)
    next
      case False
      note parsed = parse_command_ok [OF 1(3), of "Suc n" command_text]
      show ?thesis
      proof (cases "parse_command command_text (Suc n) symbols")
        case (Inl f)
        then show ?thesis using parsed False high line
          by (auto simp: load_loop.simps [of input] command_text_def parsed_ok_def loaded_ok_def)
      next
        case (Inr cs)
        then obtain c symbols1 where cs: "parse_command command_text (Suc n) symbols = Inr (c, symbols1)" by (cases cs) auto
        then have "table_valid symbols1" "command_ok c" using parsed by (simp_all add: parsed_ok_def)
        moreover from this have "steps_ok 0 (Suc n) (steps @ [\<lparr>ss_line_number = Suc n, ss_text = command_text, ss_command = c\<rparr>])"
          using 1(4) by (fastforce simp: steps_ok_def sorted_wrt_append)
        ultimately show ?thesis using 1(2) [OF line refl command_text_def] False cs high rest line
          by (simp add: load_loop.simps [of input] command_text_def)
      qed
    qed
  qed
qed

subsection \<open>Properties\<close>

text \<open>C9: a scenario file written out word by word loads back. Each line becomes one step with its line
  number, its text and its command; instruments are numbered from one by first use, different names by
  different non-zero ids.\<close>

theorem scenario_text_loads_back:
  assumes "list_all line_ok ls" and "length ls < 2 ^ 32" and "files path = Some (scenario_text ls)"
  shows "load files path = Inr (map2 (step_for (names_after [] ls)) [1..<Suc (length ls)] ls) \<and>
    inj_on (symbol_of (names_after [] ls)) (set (names_after [] ls)) \<and>
    Symbol_id 0 \<notin> symbol_of (names_after [] ls) ` set (names_after [] ls)"
proof -
  have len: "length (names_after [] ls) < 2 ^ 32" using length_names_after [of "[]" ls] assms(2) by simp
  have "load files path = Inr (map2 (step_for (names_after [] ls)) [1..<Suc (length ls)] ls)"
    using load_loop_scenario [OF assms(1), of "[]" 0 "[]"] assms(2,3) by (simp add: load_def table_for_Nil)
  moreover have "inj_on (symbol_of (names_after [] ls)) (set (names_after [] ls))"
    using symbol_of_inj(1) [OF len] by (intro inj_onI) blast
  moreover have "Symbol_id 0 \<notin> symbol_of (names_after [] ls) ` set (names_after [] ls)"
    using symbol_of_inj(2) [OF len] by (metis imageE symbol_id.sel)
  ultimately show ?thesis by blast
qed

definition sample_scenario :: "scenario_line list" where
  "sample_scenario = [Limit_line 1 10 ''ETH'' Sell 100 5, Market_line 2 20 ''BTC'' Buy 3, Snapshot_line ''ETH'' 5]"

lemma scenario_text_loads_back_witness:
  "map_sum id (map ss_line_number) (load (\<lambda>path. Some (scenario_text sample_scenario)) ''demo.txt'') = Inr [1, 2, 3]"
proof -
  have "list_all line_ok sample_scenario" "length sample_scenario < 2 ^ 32"
    by (simp_all add: sample_scenario_def word_ok_def is_space_def char_code_def)
  from scenario_text_loads_back [OF this, of "\<lambda>path. Some (scenario_text sample_scenario)" "''demo.txt''"] show ?thesis
    by (simp add: sample_scenario_def step_for_def upt_rec)
qed

text \<open>A number field is accepted exactly when it consists of digits only and its value fits in 64 bits;
  otherwise the error names the line and the field.\<close>

lemma number_fields_are_exact:
  "parse_uint64 w field n =
     (if w \<noteq> [] \<and> list_all is_digit w \<and> decimal_value w < 2 ^ 64 then Inr (of_nat (decimal_value w))
      else Inl (Runtime_error (''line '' @ decimal n @ '': expected unsigned integer for '' @ field)))"
proof (cases "whole_number w :: u64 option")
  case None
  have "\<not> (w \<noteq> [] \<and> list_all is_digit w \<and> decimal_value w < 2 ^ 64)"
  proof
    assume *: "w \<noteq> [] \<and> list_all is_digit w \<and> decimal_value w < 2 ^ 64"
    then have "whole_number w = Some (of_nat (decimal_value w) :: u64)"
      by (simp add: whole_number_iff unsigned_of_nat take_bit_nat_eq_self)
    with None show False by simp
  qed
  with None show ?thesis by (auto simp: parse_uint64_whole at_line_def)
next
  case (Some v)
  then have "w \<noteq> []" "list_all is_digit w" "decimal_value w = unat v" by (simp_all add: whole_number_iff)
  then show ?thesis using Some unsigned_less [of v] by (simp add: parse_uint64_whole)
qed


text \<open>C35: what reaches the engine from a scenario is refused by its validation only for a zero user or
  client order id.\<close>

theorem loaded_orders_pass_validation:
  assumes "load files path = Inr steps" and "s \<in> set steps"
  shows "case ss_command s of
      Scenario_submit order \<Rightarrow> (validate_submit order = None) =
        (user_value (ok_user (so_key order)) \<noteq> 0 \<and> client_order_value (ok_client_order (so_key order)) \<noteq> 0)
    | Scenario_update order \<Rightarrow> (validate_update order = None) =
        (user_value (ok_user (uo_key order)) \<noteq> 0 \<and> client_order_value (ok_client_order (uo_key order)) \<noteq> 0)
    | _ \<Rightarrow> True"
proof -
  obtain input where "files path = Some input" "load_loop input 0 empty_symbol_table [] = Inr steps"
    using assms(1) by (auto simp: load_def split: option.splits)
  moreover have "loaded_ok (input_lines input) (load_loop input 0 empty_symbol_table [])"
    by (intro load_loop_ok table_valid_empty) (simp_all add: steps_ok_def)
  ultimately have "command_ok (ss_command s)" using assms(2) by (simp add: loaded_ok_def steps_ok_def)
  then show ?thesis
    by (cases "ss_command s") (auto simp: validate_submit_def validate_update_def split: if_splits)
qed

lemma loaded_orders_pass_validation_witness:
  "validate_submit \<lparr>so_key = make_key 0 1, so_instrument = Symbol_id 1, so_direction = Buy,
     so_pricing = Limit_order (Price 9), so_size = Quantity 5\<rparr> \<noteq> None"
proof -
  define files where "files = (\<lambda>path :: string. Some ''submit limit 0 1 ETH buy 9 5'')"
  define s where "s = \<lparr>ss_line_number = 1, ss_text = ''submit limit 0 1 ETH buy 9 5'',
    ss_command = Scenario_submit \<lparr>so_key = make_key 0 1, so_instrument = Symbol_id 1, so_direction = Buy,
      so_pricing = Limit_order (Price 9), so_size = Quantity 5\<rparr>\<rparr>"
  have "load files ''f'' = Inr [s]" unfolding files_def s_def by code_simp
  from loaded_orders_pass_validation [OF this, of s] show ?thesis by (simp add: s_def make_key_def)
qed

end
