(* ===== verification/Writers.thy ===== *)
theory Writers
  imports Engine Numeric_Text
begin

text \<open>
  The two output formats of the replay application
  (\<^verbatim>\<open>apps/market_replay/src/jsonl_writer.cpp\<close>, \<^verbatim>\<open>console_writer.cpp\<close>). Each operation gives the text it appends
  to the output stream; a stream in its default state prints an unsigned integer in decimal.
\<close>

subsection \<open>JSON strings\<close>

definition hex_digit :: "nat \<Rightarrow> char" where
  "hex_digit v = char_of (if v < 10 then 48 + v else 97 + (v - 10))"

definition backslash :: char where "backslash = CHR 0x5C"
definition quote_mark :: char where "quote_mark = CHR 0x22"

definition escape_char :: "char \<Rightarrow> string" where
  "escape_char c =
     (if c = quote_mark then [backslash, quote_mark]
      else if c = backslash then [backslash, backslash]
      else if c = CHR 0x08 then [backslash, CHR ''b'']
      else if c = CHR 0x0C then [backslash, CHR ''f'']
      else if c = CHR 0x0A then [backslash, CHR ''n'']
      else if c = CHR 0x0D then [backslash, CHR ''r'']
      else if c = CHR 0x09 then [backslash, CHR ''t'']
      else if char_code c < 0x20
        then [backslash] @ ''u00'' @ [hex_digit (char_code c div 16), hex_digit (char_code c mod 16)]
      else [c])"

definition write_json_string :: "string \<Rightarrow> string" where
  "write_json_string w = [quote_mark] @ concat (map escape_char w) @ [quote_mark]"

text \<open>A literal of the source in which every backquote stands for an escaped double quote.\<close>

definition json :: "string \<Rightarrow> string" where
  "json w = map (\<lambda>c. if c = CHR 0x60 then quote_mark else c) w"

definition newline :: string where "newline = [CHR 0x0A]"

definition side_to_string :: "side \<Rightarrow> string" where
  "side_to_string d = (case d of Buy \<Rightarrow> ''buy'' | Sell \<Rightarrow> ''sell'')"

subsection \<open>The JSON lines writer\<close>

definition write_u64 :: "u64 \<Rightarrow> string" where
  "write_u64 v = decimal (unat v)"

definition write_symbol :: "symbol_id \<Rightarrow> string" where
  "write_symbol s = decimal (unat (symbol_value s))"

definition write_price :: "price option \<Rightarrow> string" where
  "write_price v = (case v of Some p \<Rightarrow> write_u64 (price_value p) | None \<Rightarrow> ''null'')"

definition write_key :: "order_key \<Rightarrow> string" where
  "write_key k = json ''{`user`:'' @ write_u64 (user_value (ok_user k)) @
     json '',`client_order`:'' @ write_u64 (client_order_value (ok_client_order k)) @ ''}''"

fun write_event :: "event \<Rightarrow> string" where
  "write_event (Submit_accepted k) = json ''{`type`:`submit_accepted`,`key`:'' @ write_key k @ ''}'' @ newline"
| "write_event (Submit_rejected k reason) =
     json ''{`type`:`submit_rejected`,`key`:'' @ write_key k @ json '',`reason`:'' @ write_json_string reason @ ''}'' @ newline"
| "write_event (Update_accepted k) = json ''{`type`:`update_accepted`,`key`:'' @ write_key k @ ''}'' @ newline"
| "write_event (Update_rejected k reason) =
     json ''{`type`:`update_rejected`,`key`:'' @ write_key k @ json '',`reason`:'' @ write_json_string reason @ ''}'' @ newline"
| "write_event (Cancel_rejected k reason) =
     json ''{`type`:`cancel_rejected`,`key`:'' @ write_key k @ json '',`reason`:'' @ write_json_string reason @ ''}'' @ newline"
| "write_event (Order_cancelled k) = json ''{`type`:`order_cancelled`,`key`:'' @ write_key k @ ''}'' @ newline"
| "write_event (Trade_executed aggressor resting instrument execution_price executed_size) =
     json ''{`type`:`trade_executed`,`aggressor`:'' @ write_key aggressor @ json '',`resting`:'' @ write_key resting @
     json '',`instrument_id`:'' @ write_symbol instrument @ json '',`price`:'' @ write_u64 (price_value execution_price) @
     json '',`size`:'' @ write_u64 (quantity_value executed_size) @ ''}'' @ newline"
| "write_event (Book_updated instrument direction best_price total_size) =
     json ''{`type`:`book_updated`,`instrument_id`:'' @ write_symbol instrument @ json '',`side`:'' @
     write_json_string (side_to_string direction) @ json '',`best_price`:'' @ write_price best_price @
     json '',`total_size`:'' @ write_u64 total_size @ ''}'' @ newline"

definition write_events :: "event list \<Rightarrow> string" where
  "write_events events = concat (map write_event events)"

definition write_level :: "price_level_snapshot \<Rightarrow> string" where
  "write_level l = json ''{`price`:'' @ write_u64 (price_value (pls_level_price l)) @
     json '',`total_size`:'' @ write_u64 (pls_total_size l) @ ''}''"

fun write_level_list :: "price_level_snapshot list \<Rightarrow> string" where
  "write_level_list [] = []"
| "write_level_list [l] = write_level l"
| "write_level_list (l # ls) = write_level l @ '','' @ write_level_list ls"

definition write_price_levels :: "price_level_snapshot list \<Rightarrow> string" where
  "write_price_levels ls = ''['' @ write_level_list ls @ '']''"

definition write_snapshot :: "order_book_snapshot option \<Rightarrow> string" where
  "write_snapshot snap =
     json ''{`type`:`snapshot`,`snapshot`:'' @
     (case snap of
        None \<Rightarrow> ''null}'' @ newline
      | Some s \<Rightarrow> json ''{`instrument_id`:'' @ write_symbol (obs_instrument s) @
          json '',`bids`:'' @ write_price_levels (obs_bids s) @
          json '',`asks`:'' @ write_price_levels (obs_asks s) @ ''}}'' @ newline)"

subsection \<open>The console writer\<close>

text \<open>Its stream operators for the engine's wrappers, each printing the bare value.\<close>

definition console_side :: "side \<Rightarrow> string" where
  "console_side direction = (case direction of Buy \<Rightarrow> ''buy'' | Sell \<Rightarrow> ''sell'')"

definition console_symbol :: "symbol_id \<Rightarrow> string" where
  "console_symbol s = decimal (unat (symbol_value s))"

definition console_price :: "price \<Rightarrow> string" where
  "console_price p = write_u64 (price_value p)"

definition console_quantity :: "quantity \<Rightarrow> string" where
  "console_quantity q = write_u64 (quantity_value q)"

definition console_key :: "order_key \<Rightarrow> string" where
  "console_key k = write_u64 (user_value (ok_user k)) @ '':'' @ write_u64 (client_order_value (ok_client_order k))"

definition console_reason :: "string \<Rightarrow> string" where
  "console_reason reason = json '' reason=`'' @ reason @ json ''`'' @ newline"

fun console_write_event :: "event \<Rightarrow> string" where
  "console_write_event (Submit_accepted k) = ''  submit_accepted key='' @ console_key k @ newline"
| "console_write_event (Submit_rejected k reason) = ''  submit_rejected key='' @ console_key k @ console_reason reason"
| "console_write_event (Update_accepted k) = ''  update_accepted key='' @ console_key k @ newline"
| "console_write_event (Update_rejected k reason) = ''  update_rejected key='' @ console_key k @ console_reason reason"
| "console_write_event (Cancel_rejected k reason) = ''  cancel_rejected key='' @ console_key k @ console_reason reason"
| "console_write_event (Order_cancelled k) = ''  order_cancelled key='' @ console_key k @ newline"
| "console_write_event (Trade_executed aggressor resting instrument execution_price executed_size) =
     ''  trade_executed instrument='' @ console_symbol instrument @ '' aggressor='' @ console_key aggressor @
     '' resting='' @ console_key resting @ '' price='' @ console_price execution_price @
     '' size='' @ console_quantity executed_size @ newline"
| "console_write_event (Book_updated instrument direction best_price total_size) =
     ''  book_updated instrument='' @ console_symbol instrument @ '' side='' @ console_side direction @
     '' best_price='' @ (case best_price of Some p \<Rightarrow> console_price p | None \<Rightarrow> ''none'') @
     '' total_size='' @ write_u64 total_size @ newline"

definition console_write_events :: "event list \<Rightarrow> string" where
  "console_write_events events = concat (map console_write_event events)"

definition console_write_price_levels :: "string \<Rightarrow> price_level_snapshot list \<Rightarrow> string" where
  "console_write_price_levels label ls =
     ''  '' @ label @ '':'' @ newline @
     (if ls = [] then ''    empty'' @ newline
      else concat (map (\<lambda>l. ''    price='' @ console_price (pls_level_price l) @
             '' total_size='' @ write_u64 (pls_total_size l) @ newline) ls))"

definition console_write_snapshot :: "order_book_snapshot option \<Rightarrow> string" where
  "console_write_snapshot snap =
     (case snap of
        None \<Rightarrow> ''  no book found'' @ newline
      | Some s \<Rightarrow> ''  instrument='' @ console_symbol (obs_instrument s) @ newline @
          console_write_price_levels ''bids'' (obs_bids s) @ console_write_price_levels ''asks'' (obs_asks s))"

end
