(* ===== verification/Writers_Properties.thy ===== *)
theory Writers_Properties
  imports Writers
begin

text \<open>
  The properties of the JSON lines writer: its output is one line per record and determines the events.
\<close>

subsection \<open>Numbers and keys are delimited\<close>

lemma takeWhile_digits: "\<not> is_digit c \<Longrightarrow> takeWhile is_digit (decimal n @ c # r) = decimal n"
  using decimal_digits [of n] by (simp add: list_all_iff)

lemma decimal_delimited [simp]:
  assumes "\<not> is_digit c" and "\<not> is_digit d"
  shows "decimal m @ c # r = decimal n @ d # s \<longleftrightarrow> m = n \<and> c = d \<and> r = s"
proof
  assume eq: "decimal m @ c # r = decimal n @ d # s"
  then have "takeWhile is_digit (decimal m @ c # r) = takeWhile is_digit (decimal n @ d # s)" by simp
  then have "decimal m = decimal n" unfolding takeWhile_digits [OF assms(1)] takeWhile_digits [OF assms(2)] .
  with eq show "m = n \<and> c = d \<and> r = s" by simp
qed simp

lemma not_digits [simp]:
  "\<not> is_digit (CHR '','')" "\<not> is_digit (CHR ''}'')" "\<not> is_digit quote_mark"
  by (simp_all add: is_digit_def char_code_def quote_mark_def)

lemma write_u64_delimited [simp]:
  "\<lbrakk>\<not> is_digit c; \<not> is_digit d\<rbrakk> \<Longrightarrow> write_u64 v @ c # r = write_u64 w @ d # s \<longleftrightarrow> v = w \<and> c = d \<and> r = s"
  by (simp add: write_u64_def word_unat_eq_iff)

lemma write_symbol_delimited [simp]:
  "\<lbrakk>\<not> is_digit c; \<not> is_digit d\<rbrakk> \<Longrightarrow> write_symbol v @ c # r = write_symbol w @ d # s \<longleftrightarrow> v = w \<and> c = d \<and> r = s"
  by (cases v; cases w) (simp add: write_symbol_def word_unat_eq_iff)

lemma json_simps [simp]:
  "json [] = []"
  "json (c # cs) = (if c = CHR 0x60 then quote_mark else c) # json cs"
  by (simp_all add: json_def)

lemma order_key_eq: "(k :: order_key) = k' \<longleftrightarrow>
    user_value (ok_user k) = user_value (ok_user k') \<and>
    client_order_value (ok_client_order k) = client_order_value (ok_client_order k')"
  by (cases k; cases k') (simp add: user_id.expand client_order_id.expand, metis client_order_id.expand user_id.expand)

lemma write_key_prefix [simp]: "write_key k @ r = write_key k' @ s \<longleftrightarrow> k = k' \<and> r = s"
  by (auto simp: write_key_def order_key_eq)

subsection \<open>Strings are delimited\<close>

lemma hex_digit_inject:
  assumes "m < 16" and "n < 16" and "hex_digit m = hex_digit n"
  shows "m = n"
proof -
  have digits: "map hex_digit [0..<16] = ''0123456789abcdef''" by code_simp
  have nth: "hex_digit k = ''0123456789abcdef'' ! k" if "k < 16" for k
    using that nth_map [of k "[0..<16]" hex_digit] by (simp add: digits)
  have "distinct ''0123456789abcdef''" by simp
  from nth_eq_iff_index_eq [OF this] show ?thesis using assms nth by simp
qed

lemma char_code_inject: "char_code c = char_code d \<longleftrightarrow> c = d"
  by (simp add: char_code_def)

lemma hex_pair:
  assumes "char_code c < 32" and "char_code d < 32"
    and "hex_digit (char_code c div 16) = hex_digit (char_code d div 16)"
    and "hex_digit (char_code c mod 16) = hex_digit (char_code d mod 16)"
  shows "c = d"
proof -
  have "char_code c div 16 = char_code d div 16" using assms by (intro hex_digit_inject) simp_all
  moreover have "char_code c mod 16 = char_code d mod 16" using assms by (intro hex_digit_inject) simp_all
  ultimately show ?thesis by (metis char_code_inject div_mult_mod_eq)
qed

lemma escape_char_prefix: "escape_char c @ r = escape_char d @ s \<Longrightarrow> c = d \<and> r = s"
  by (auto simp: escape_char_def backslash_def quote_mark_def dest: hex_pair split: if_splits)

lemma escape_char_not_quote: "escape_char c @ r \<noteq> quote_mark # s"
  by (auto simp: escape_char_def backslash_def quote_mark_def)

lemma escaped_prefix:
  "concat (map escape_char v) @ quote_mark # r = concat (map escape_char w) @ quote_mark # s \<Longrightarrow> v = w \<and> r = s"
proof (induction v arbitrary: w)
  case Nil
  then show ?case by (cases w) (simp_all add: escape_char_not_quote [symmetric])
next
  case (Cons c v)
  show ?case
  proof (cases w)
    case Nil
    then show ?thesis using Cons.prems escape_char_not_quote [of c] by simp
  next
    case w: (Cons d w')
    then have "c = d \<and> concat (map escape_char v) @ quote_mark # r = concat (map escape_char w') @ quote_mark # s"
      using Cons.prems by (intro escape_char_prefix) simp
    with Cons.IH w show ?thesis by blast
  qed
qed

lemma write_json_string_prefix [simp]:
  "write_json_string v @ r = write_json_string w @ s \<longleftrightarrow> v = w \<and> r = s"
proof
  assume "write_json_string v @ r = write_json_string w @ s"
  then show "v = w \<and> r = s" by (intro escaped_prefix) (simp add: write_json_string_def)
qed simp

lemma side_to_string_inject [simp]: "side_to_string d = side_to_string d' \<longleftrightarrow> d = d'"
  by (cases d; cases d') (simp_all add: side_to_string_def)

subsection \<open>Records\<close>

lemma write_price_prefix [simp]:
  assumes "\<not> is_digit c" and "\<not> is_digit d"
  shows "write_price v @ c # r = write_price w @ d # s \<longleftrightarrow> v = w \<and> c = d \<and> r = s"
proof -
  have number: "write_u64 x @ c' # r' \<noteq> CHR ''n'' # s'" for x c' r' s'
  proof -
    obtain a as where a: "decimal (unat x) = a # as" "is_digit a"
      using decimal_digits [of "unat x"] by (cases "decimal (unat x)") auto
    then have "a \<noteq> CHR ''n''" by (auto simp: is_digit_def char_code_def)
    with a(1) show ?thesis by (simp add: write_u64_def)
  qed
  show ?thesis
    using assms number [symmetric] by (cases v; cases w) (auto simp: write_price_def number price.expand)
qed

lemma write_event_prefix: "write_event e @ r = write_event e' @ s \<Longrightarrow> e = e' \<and> r = s"
  by (cases e; cases e') (simp_all add: newline_def price.expand quantity.expand)

subsection \<open>One line each\<close>

definition printable :: "string \<Rightarrow> bool" where
  "printable w \<longleftrightarrow> list_all (\<lambda>c. 32 \<le> char_code c) w"

lemma printable_simps [simp]:
  "printable []" "printable (c # w) \<longleftrightarrow> 32 \<le> char_code c \<and> printable w"
  "printable (v @ w) \<longleftrightarrow> printable v \<and> printable w"
  by (simp_all add: printable_def)

lemma printable_decimal [simp]: "printable (decimal n)"
  using decimal_digits [of n] by (auto simp: printable_def list_all_iff is_digit_def)

lemma printable_escaped: "printable (escape_char c)"
proof -
  have "32 \<le> char_code (hex_digit k)" if "k < 16" for k
    using that by (simp add: hex_digit_def char_code_def)
  from this [of "char_code c div 16"] this [of "char_code c mod 16"] show ?thesis
    by (auto simp: escape_char_def backslash_def quote_mark_def char_code_def)
qed

lemma printable_json_string [simp]: "printable (write_json_string w)"
  using printable_escaped by (induction w) (auto simp: write_json_string_def quote_mark_def char_code_def)

lemma printable_parts [simp]: "printable (write_u64 v)" "printable (write_symbol i)" "printable (write_price p)"
  by (auto simp: write_u64_def write_symbol_def write_price_def char_code_def split: option.splits)

lemma printable_key [simp]: "printable (write_key k)"
  by (simp add: write_key_def quote_mark_def char_code_def)

lemma write_event_line: "\<exists>l. write_event e = l @ newline \<and> printable l"
proof -
  have "printable (butlast (write_event e)) \<and> last (write_event e) = CHR 0x0A"
    by (cases e) (simp_all add: newline_def butlast_append quote_mark_def char_code_def)
  moreover have "write_event e \<noteq> []" by (cases e) simp_all
  ultimately show ?thesis by (metis append_butlast_last_id newline_def)
qed

lemma printable_levels [simp]: "printable (write_price_levels ls)"
proof -
  have "printable (write_level_list ls)"
    by (induction ls rule: write_level_list.induct) (simp_all add: write_level_def quote_mark_def char_code_def)
  then show ?thesis by (simp add: write_price_levels_def char_code_def)
qed

lemma write_snapshot_line: "\<exists>l. write_snapshot s = l @ newline \<and> printable l"
proof -
  have "printable (butlast (write_snapshot s)) \<and> last (write_snapshot s) = CHR 0x0A"
    by (cases s) (simp_all add: write_snapshot_def newline_def butlast_append quote_mark_def char_code_def)
  moreover have "write_snapshot s \<noteq> []" by (simp add: write_snapshot_def)
  ultimately show ?thesis by (metis append_butlast_last_id newline_def)
qed

lemma printable_no_newline: "printable l \<Longrightarrow> CHR 0x0A \<notin> set l"
  by (auto simp: printable_def list_all_iff char_code_def)

subsection \<open>Properties\<close>

lemma write_event_not_Nil: "write_event e @ r \<noteq> []"
  by (cases e) simp_all

text \<open>C36: the JSON lines determine the events: two event sequences with the same output are equal, whatever
  the reasons contain.\<close>

theorem json_lines_determine_events:
  "write_events es = write_events es' \<longleftrightarrow> es = es'"
proof
  show "write_events es = write_events es' \<Longrightarrow> es = es'"
  proof (induction es arbitrary: es')
    case Nil
    then show ?case using write_event_not_Nil by (cases es') (auto simp: write_events_def)
  next
    case (Cons e es)
    show ?case
    proof (cases es')
      case Nil
      then show ?thesis using Cons.prems write_event_not_Nil [of e] by (simp add: write_events_def)
    next
      case es': (Cons e' es2)
      then have "e = e' \<and> write_events es = write_events es2"
        using Cons.prems by (intro write_event_prefix) (simp add: write_events_def)
      with Cons.IH es' show ?thesis by simp
    qed
  qed
qed simp

text \<open>C37: the log is one line per record. Every event and every snapshot is written as one run of
  characters without control characters, closed by a newline.\<close>

theorem one_line_per_record:
  "count_list (write_events es) (CHR 0x0A) = length es \<and>
   list_all (\<lambda>e. \<exists>l. write_event e = l @ newline \<and> printable l) es \<and>
   (\<exists>l. write_snapshot s = l @ newline \<and> printable l)"
proof -
  have one: "count_list (write_event e) (CHR 0x0A) = 1" for e
    using write_event_line [of e] printable_no_newline by (auto simp: newline_def)
  have "count_list (write_events es) (CHR 0x0A) = length es"
    by (induction es) (simp_all add: write_events_def one)
  then show ?thesis using write_event_line write_snapshot_line by (simp add: list_all_iff)
qed

end
