(* ===== verification/Replay.thy ===== *)
theory Replay
  imports Runner_Properties Scenario_Parser Writers
begin

text \<open>
  The replay application (\<^verbatim>\<open>apps/market_replay/src/main.cpp\<close>): it runs scenarios through a runner, one
  command at a time, and prints what comes back. The standard output is the text an operation
  appends; an operation that throws keeps what it has printed. The file system is a parameter.
\<close>

subsection \<open>Output\<close>

type_synonym 'a printing = "string \<times> 'a outcome"

definition print_then :: "'a printing \<Rightarrow> ('a \<Rightarrow> 'b printing) \<Rightarrow> 'b printing" where
  "print_then p f =
     (case p of
        (out, Inl e) \<Rightarrow> (out, Inl e)
      | (out, Inr x) \<Rightarrow> (case f x of (out', r) \<Rightarrow> (out @ out', r)))"

lemma print_then_simps [simp]:
  "print_then (out, Inl e) f = (out, Inl e)"
  "print_then (out, Inr x) f = (out @ fst (f x), snd (f x))"
  by (simp_all add: print_then_def split: prod.splits)

subsection \<open>The command line\<close>

datatype output_format = Text | Jsonl

record command_line_options =
  cl_format :: output_format
  cl_scenario_file :: string
  cl_scenario_directory :: string

definition no_options :: command_line_options where
  "no_options = \<lparr>cl_format = Text, cl_scenario_file = [], cl_scenario_directory = []\<rparr>"

definition no_source :: "command_line_options \<Rightarrow> bool" where
  "no_source options \<longleftrightarrow> cl_scenario_file options = [] \<and> cl_scenario_directory options = []"

fun parse_arguments :: "string list \<Rightarrow> command_line_options \<Rightarrow> command_line_options outcome" where
  "parse_arguments [] options = Inr options"
| "parse_arguments (argument # rest) options =
     (if argument = ''--format'' then
        (case rest of
           [] \<Rightarrow> Inl (Runtime_error ''missing value for --format'')
         | value # rest' \<Rightarrow>
             if value = ''text'' then parse_arguments rest' (options\<lparr>cl_format := Text\<rparr>)
             else if value = ''jsonl'' then parse_arguments rest' (options\<lparr>cl_format := Jsonl\<rparr>)
             else Inl (Runtime_error (''expected --format to be '' @ quoted ''text'' @ '' or '' @ quoted ''jsonl'')))
      else if argument = ''--file'' then
        (case rest of
           [] \<Rightarrow> Inl (Runtime_error ''missing value for --file'')
         | value # rest' \<Rightarrow>
             if \<not> no_source options then Inl (Runtime_error ''only one scenario source can be provided'')
             else parse_arguments rest' (options\<lparr>cl_scenario_file := value\<rparr>))
      else if argument = ''--directory'' then
        (case rest of
           [] \<Rightarrow> Inl (Runtime_error ''missing value for --directory'')
         | value # rest' \<Rightarrow>
             if \<not> no_source options then Inl (Runtime_error ''only one scenario source can be provided'')
             else parse_arguments rest' (options\<lparr>cl_scenario_directory := value\<rparr>))
      else Inl (Runtime_error ''unexpected positional argument''))"

definition parse_command_line :: "string list \<Rightarrow> command_line_options outcome" where
  "parse_command_line arguments = parse_arguments arguments no_options"

subsection \<open>Talking to the runner\<close>

text \<open>
  A request followed by \<^verbatim>\<open>get\<close> on its future: the calling thread pushes and the worker pops and
  processes. \<open>None\<close> is a request that blocks or is not answered.
\<close>

definition ask :: "(queued_command, 'q) queue_ops \<Rightarrow> thread_id \<Rightarrow> command \<Rightarrow> 'q runner \<Rightarrow> ('q runner \<times> reply outcome) option" where
  "ask ops t c r =
     (case perform_all ops [Begin_request t c, Advance t, Advance t, Work, Work] r of
        None \<Rightarrow> None
      | Some (r', obs) \<Rightarrow> (case answers_of obs of [(_, a)] \<Rightarrow> Some (r', a) | _ \<Rightarrow> None))"

record writer =
  wr_events :: "event list \<Rightarrow> string"
  wr_snapshot :: "order_book_snapshot option \<Rightarrow> string"

definition console_writer :: writer where
  "console_writer = \<lparr>wr_events = console_write_events, wr_snapshot = console_write_snapshot\<rparr>"

definition jsonl_writer :: writer where
  "jsonl_writer = \<lparr>wr_events = write_events, wr_snapshot = write_snapshot\<rparr>"

definition write_reply :: "writer \<Rightarrow> reply \<Rightarrow> string" where
  "write_reply w reply = (case reply of Events es \<Rightarrow> wr_events w es | Snapshot s \<Rightarrow> wr_snapshot w s)"

fun command_of :: "scenario_command \<Rightarrow> command" where
  "command_of (Scenario_submit order) = Submit_command order"
| "command_of (Scenario_update order) = Update_command order"
| "command_of (Scenario_cancel order) = Cancel_command order"
| "command_of (Scenario_snapshot instrument depth) = Snapshot_command instrument depth"

definition execute_command ::
  "(queued_command, 'q) queue_ops \<Rightarrow> thread_id \<Rightarrow> writer \<Rightarrow> scenario_command \<Rightarrow> 'q runner \<Rightarrow>
   ('q runner \<times> unit printing) option" where
  "execute_command ops t w c r =
     (case ask ops t (command_of c) r of
        None \<Rightarrow> None
      | Some (r', Inl f) \<Rightarrow> Some (r', [], Inl f)
      | Some (r', Inr reply) \<Rightarrow> Some (r', write_reply w reply, Inr ()))"

definition step_label :: "scenario_step \<Rightarrow> string" where
  "step_label step =
     (if ss_line_number step = 0 then newline @ ss_text step @ newline
      else newline @ ''line '' @ decimal (ss_line_number step) @ '': '' @ ss_text step @ newline)"

definition execute_step ::
  "(queued_command, 'q) queue_ops \<Rightarrow> thread_id \<Rightarrow> writer \<Rightarrow> bool \<Rightarrow> scenario_step \<Rightarrow> 'q runner \<Rightarrow>
   ('q runner \<times> unit printing) option" where
  "execute_step ops t w print_step_labels step r =
     map_option (\<lambda>(r1, p). (r1, print_then (if print_step_labels then step_label step else [], Inr ()) (\<lambda>_. p)))
       (execute_command ops t w (ss_command step) r)"

fun run_steps ::
  "(queued_command, 'q) queue_ops \<Rightarrow> thread_id \<Rightarrow> writer \<Rightarrow> bool \<Rightarrow> scenario_step list \<Rightarrow> 'q runner \<Rightarrow>
   ('q runner \<times> unit printing) option" where
  "run_steps ops t w labels [] r = Some (r, [], Inr ())"
| "run_steps ops t w labels (step # steps) r =
     (case execute_step ops t w labels step r of
        None \<Rightarrow> None
      | Some (r1, out, Inl f) \<Rightarrow> Some (r1, out, Inl f)
      | Some (r1, out, Inr _) \<Rightarrow>
          map_option (\<lambda>(r2, p). (r2, print_then (out, Inr ()) (\<lambda>_. p))) (run_steps ops t w labels steps r1))"

subsection \<open>Scenarios\<close>

definition eth_usd :: symbol_id where "eth_usd = Symbol_id 1"

text \<open>The steps of the built-in demo; its constants are positive, so no constructor throws.\<close>

definition demo_limit_order :: "u64 \<Rightarrow> u64 \<Rightarrow> side \<Rightarrow> u64 \<Rightarrow> u64 \<Rightarrow> scenario_command" where
  "demo_limit_order user client_order direction limit amount =
     Scenario_submit \<lparr>so_key = make_key user client_order, so_instrument = eth_usd, so_direction = direction,
       so_pricing = Limit_order (Price limit), so_size = Quantity amount\<rparr>"

definition demo_step :: "string \<Rightarrow> scenario_command \<Rightarrow> scenario_step" where
  "demo_step label c = \<lparr>ss_line_number = 0, ss_text = label, ss_command = c\<rparr>"

definition default_scenario :: "scenario_step list" where
  "default_scenario =
     [demo_step ''1. Rest a sell limit order at 100'' (demo_limit_order 1 10 Sell 100 5),
      demo_step ''2. Rest a buy limit order at 99'' (demo_limit_order 2 20 Buy 99 3),
      demo_step ''3. Snapshot depth 5'' (Scenario_snapshot eth_usd 5),
      demo_step ''4. Submit a buy limit order that crosses the ask'' (demo_limit_order 3 30 Buy 101 4),
      demo_step ''5. Snapshot depth 5'' (Scenario_snapshot eth_usd 5),
      demo_step ''6. Reduce the resting bid size''
        (Scenario_update \<lparr>uo_key = make_key 2 20, uo_pricing = Limit_order (Price 99), uo_size = Quantity 2\<rparr>),
      demo_step ''7. Cancel the resting bid'' (Scenario_cancel (make_cancel_order 2 20)),
      demo_step ''8. Final snapshot depth 5'' (Scenario_snapshot eth_usd 5)]"

text \<open>
  A directory listing names each entry with its full path, its extension and whether it is a regular
  file. Paths of one directory compare by the bytes of their last component.
\<close>

record directory_entry =
  de_path :: string
  de_extension :: string
  de_regular :: bool

record filesystem =
  fs_contents :: "string \<Rightarrow> string option"
  fs_exists :: "string \<Rightarrow> bool"
  fs_is_directory :: "string \<Rightarrow> bool"
  fs_entries :: "string \<Rightarrow> directory_entry list"

fun path_le :: "string \<Rightarrow> string \<Rightarrow> bool" where
  "path_le [] _ = True"
| "path_le (_ # _) [] = False"
| "path_le (a # as) (b # bs) = (char_code a < char_code b \<or> a = b \<and> path_le as bs)"

fun insert_path :: "string \<Rightarrow> string list \<Rightarrow> string list" where
  "insert_path p [] = [p]"
| "insert_path p (q # qs) = (if path_le p q then p # q # qs else q # insert_path p qs)"

definition sort_paths :: "string list \<Rightarrow> string list" where
  "sort_paths ps = foldr insert_path ps []"

definition scenario_files_in :: "filesystem \<Rightarrow> string \<Rightarrow> string list outcome" where
  "scenario_files_in fs directory =
     (if \<not> fs_exists fs directory then Inl (Runtime_error ''scenario path does not exist'')
      else if \<not> fs_is_directory fs directory then Inl (Runtime_error ''scenario path is not a directory'')
      else Inr (sort_paths (map de_path (filter (\<lambda>e. de_regular e \<and> de_extension e = ''.txt'') (fs_entries fs directory)))))"

text \<open>
  A run owns a runner: \<^verbatim>\<open>start\<close>, the steps, \<^verbatim>\<open>stop\<close>; when a step throws, the destructor stops it. Both ways the calls
  of the owning thread are \<open>start_calls\<close> and \<open>stop_calls\<close>, with the one worker step that sees the closed queue.
\<close>

definition start_calls :: "thread_id \<Rightarrow> action list" where
  "start_calls t = [Begin_start t, Advance t, Advance t, Advance t]"

definition stop_calls :: "thread_id \<Rightarrow> action list" where
  "stop_calls t = [Begin_stop t, Advance t, Advance t, Advance t, Work, Advance t]"

definition run_with_runner ::
  "(queued_command, 'q) queue_ops \<Rightarrow> (nat \<Rightarrow> 'q) \<Rightarrow> thread_id \<Rightarrow> writer \<Rightarrow> bool \<Rightarrow> string \<Rightarrow> scenario_step list \<Rightarrow>
   unit printing option" where
  "run_with_runner ops make_queue t w print_metadata metadata steps =
     (case perform_all ops (start_calls t) (make_runner (make_queue 128)) of
        None \<Rightarrow> None
      | Some (r0, _) \<Rightarrow>
          (case run_steps ops t w print_metadata steps r0 of
             None \<Rightarrow> None
           | Some (r1, out, result) \<Rightarrow>
               map_option (\<lambda>_. ((if print_metadata then metadata else []) @ out, result))
                 (perform_all ops (stop_calls t) r1)))"

definition run_default_demo ::
  "(queued_command, 'q) queue_ops \<Rightarrow> (nat \<Rightarrow> 'q) \<Rightarrow> thread_id \<Rightarrow> writer \<Rightarrow> bool \<Rightarrow> unit printing option" where
  "run_default_demo ops make_queue t w print_metadata =
     run_with_runner ops make_queue t w print_metadata
       (''Scenario: build an ETH-USD book, cross the ask side, then cancel the bid.'' @ newline) default_scenario"

definition run_scenario_file ::
  "(queued_command, 'q) queue_ops \<Rightarrow> (nat \<Rightarrow> 'q) \<Rightarrow> thread_id \<Rightarrow> filesystem \<Rightarrow> writer \<Rightarrow> bool \<Rightarrow> string \<Rightarrow> unit printing option" where
  "run_scenario_file ops make_queue t fs w print_metadata path =
     (case load (fs_contents fs) path of
        Inl f \<Rightarrow> Some ([], Inl f)
      | Inr steps \<Rightarrow>
          run_with_runner ops make_queue t w print_metadata
            (''Scenario file: '' @ path @ newline @ ''Commands: '' @ decimal (length steps) @ newline) steps)"

fun run_files ::
  "(queued_command, 'q) queue_ops \<Rightarrow> (nat \<Rightarrow> 'q) \<Rightarrow> thread_id \<Rightarrow> filesystem \<Rightarrow> writer \<Rightarrow> bool \<Rightarrow> string list \<Rightarrow> unit printing option" where
  "run_files ops make_queue t fs w print_metadata [] = Some ([], Inr ())"
| "run_files ops make_queue t fs w print_metadata (file # files) =
     (case run_scenario_file ops make_queue t fs w print_metadata file of
        None \<Rightarrow> None
      | Some (out, Inl f) \<Rightarrow> Some (out, Inl f)
      | Some (out, Inr _) \<Rightarrow>
          map_option (\<lambda>p. print_then (out, Inr ()) (\<lambda>_. p)) (run_files ops make_queue t fs w print_metadata files))"

definition run_scenario_directory ::
  "(queued_command, 'q) queue_ops \<Rightarrow> (nat \<Rightarrow> 'q) \<Rightarrow> thread_id \<Rightarrow> filesystem \<Rightarrow> writer \<Rightarrow> bool \<Rightarrow> string \<Rightarrow> unit printing option" where
  "run_scenario_directory ops make_queue t fs w print_metadata directory =
     (case scenario_files_in fs directory of
        Inl f \<Rightarrow> Some ([], Inl f)
      | Inr files \<Rightarrow>
          map_option (\<lambda>p. print_then
              (if print_metadata
               then ''Scenario directory: '' @ directory @ newline @ ''Files: '' @ decimal (length files) @ newline
               else [], Inr ()) (\<lambda>_. p))
            (run_files ops make_queue t fs w print_metadata files))"

definition run_replay ::
  "(queued_command, 'q) queue_ops \<Rightarrow> (nat \<Rightarrow> 'q) \<Rightarrow> thread_id \<Rightarrow> filesystem \<Rightarrow> writer \<Rightarrow> command_line_options \<Rightarrow> bool \<Rightarrow>
   unit printing option" where
  "run_replay ops make_queue t fs w options print_metadata =
     (if no_source options then run_default_demo ops make_queue t w print_metadata
      else if cl_scenario_file options \<noteq> []
        then run_scenario_file ops make_queue t fs w print_metadata (cl_scenario_file options)
      else run_scenario_directory ops make_queue t fs w print_metadata (cl_scenario_directory options))"

text \<open>The standard output, the error output and the exit code; \<open>program\<close> is \<^verbatim>\<open>argv[0]\<close>.\<close>

definition replay_failed :: "string \<Rightarrow> fault \<Rightarrow> string" where
  "replay_failed program f =
     ''Replay failed: '' @ what f @ newline @
     ''Usage: '' @ program @ '' [--file path | --directory path] [--format text|jsonl]'' @ newline"

definition replay_main ::
  "(queued_command, 'q) queue_ops \<Rightarrow> (nat \<Rightarrow> 'q) \<Rightarrow> thread_id \<Rightarrow> filesystem \<Rightarrow> string \<Rightarrow> string list \<Rightarrow>
   (string \<times> string \<times> nat) option" where
  "replay_main ops make_queue t fs program arguments =
     (case parse_command_line arguments of
        Inl f \<Rightarrow> Some ([], replay_failed program f, 1)
      | Inr options \<Rightarrow>
          map_option (\<lambda>(out, r). case r of Inl f \<Rightarrow> (out, replay_failed program f, 1) | Inr _ \<Rightarrow> (out, [], 0))
            (if cl_format options = Text
             then map_option (\<lambda>p. print_then (''Obz Market Lab replay demo'' @ newline, Inr ()) (\<lambda>_. p))
                    (run_replay ops make_queue t fs console_writer options True)
             else run_replay ops make_queue t fs jsonl_writer options False))"

end
