(* ===== verification/Replay_Properties.thy ===== *)
theory Replay_Properties
  imports Replay Scenario_Properties Writers_Properties
begin

text \<open>
  The replay application prints, for every scenario it can load, exactly what the engine replies to the
  scenario's commands, in order, and ends with the right exit code.
\<close>

subsection \<open>A queue with room\<close>

text \<open>
  What the replay needs of the queue beyond its contract: a new queue is open and empty, and while
  there is room an open empty queue takes a value and gives it back.
\<close>

locale queue_factory = command_queue ops contents closed
  for ops :: "(queued_command, 'q) queue_ops" and contents :: "'q \<Rightarrow> queued_command list" and closed +
  fixes room :: "'q \<Rightarrow> bool" and make_queue :: "nat \<Rightarrow> 'q"
  assumes fresh_queue: "0 < n \<Longrightarrow> contents (make_queue n) = [] \<and> \<not> closed (make_queue n) \<and> room (make_queue n)"
    and push_room: "\<lbrakk>room q; \<not> closed q; contents q = []\<rbrakk> \<Longrightarrow> \<exists>q'. bq_push ops x q = Some (q', True) \<and> room q'"
    and pop_room: "\<lbrakk>room q; contents q \<noteq> []\<rbrakk> \<Longrightarrow> \<exists>q' x. bq_wait_and_pop ops q = Some (q', Some x) \<and> room q'"
begin

definition ready :: "thread_id \<Rightarrow> 'q runner \<Rightarrow> bool" where
  "ready t r \<longleftrightarrow> rn_accepting r \<and> rn_worker r = Running \<and> rn_command r = None \<and> rn_calls r t = None \<and>
     contents (rn_commands r) = [] \<and> \<not> closed (rn_commands r) \<and> room (rn_commands r)"

lemma started_ready:
  "0 < n \<Longrightarrow> \<exists>r obs. perform_all ops (start_calls t) (make_runner (make_queue n)) = Some (r, obs) \<and>
     ready t r \<and> rn_engine r = initial_engine"
  using fresh_queue [of n]
  by (simp add: start_calls_def make_runner_def begin_call_def call_step_def settle_def joinable_def ready_def)

lemma ask_ready:
  assumes "ready t r"
  shows "\<exists>r'. ask ops t c r = Some (r', snd (engine_execute c (rn_engine r))) \<and> ready t r' \<and>
    rn_engine r' = fst (engine_execute c (rn_engine r))"
proof -
  let ?c = "(rn_next_ticket r, c)"
  from assms push_room obtain q where q: "bq_push ops ?c (rn_commands r) = Some (q, True)" "room q"
    unfolding ready_def by blast
  have contents: "contents q = [?c]" "\<not> closed q" using push_taken [OF q(1)] assms by (simp_all add: ready_def)
  then obtain q' x where pop: "bq_wait_and_pop ops q = Some (q', Some x)" "room q'"
    using pop_room [OF q(2)] by (metis list.distinct(1))
  then have "x = ?c" "contents q' = []" "\<not> closed q'" using pop_value [OF pop(1)] contents by auto
  obtain e a where e: "engine_execute c (rn_engine r) = (e, a)" by fastforce
  define r' where "r' = r\<lparr>rn_commands := q', rn_engine := e, rn_command := None, rn_next_ticket := Suc (rn_next_ticket r),
    rn_calls := (rn_calls r)(t := None)\<rparr>"
  have "perform_all ops [Begin_request t c, Advance t, Advance t, Work, Work] r =
      Some (r', [Silent, Pushed ?c True, Returned t, Silent, Answered (rn_next_ticket r) a])"
    using assms q(1) pop(1) \<open>x = ?c\<close> e
    by (simp add: ready_def begin_call_def call_step_def settle_def worker_step_def pop_step_def process_command_def r'_def)
  then have "ask ops t c r = Some (r', a)" by (simp add: ask_def)
  moreover have "ready t r'" using assms \<open>contents q' = []\<close> \<open>\<not> closed q'\<close> pop(2) by (simp add: ready_def r'_def)
  ultimately show ?thesis using e by (simp add: r'_def)
qed

lemma stopped_ready:
  assumes "ready t r"
  shows "perform_all ops (stop_calls t) r \<noteq> None"
proof -
  let ?q = "bq_close ops (rn_commands r)"
  have closed: "closed ?q" "contents ?q = []" using close_keeps assms by (simp_all add: ready_def)
  then obtain q' x where "bq_wait_and_pop ops ?q = Some (q', x)" using closed_pop by fastforce
  moreover have "x = None" using pop_value [of ?q q'] closed calculation by (cases x) auto
  ultimately show ?thesis using assms
    by (simp add: stop_calls_def ready_def begin_call_def call_step_def settle_def worker_step_def pop_step_def joinable_def)
qed

end

subsection \<open>What a replay prints\<close>

definition transcript :: "writer \<Rightarrow> bool \<Rightarrow> scenario_step list \<Rightarrow> reply list \<Rightarrow> string" where
  "transcript w labels steps replies =
     concat (map2 (\<lambda>step reply. (if labels then step_label step else []) @ write_reply w reply) steps replies)"

definition step_commands :: "scenario_step list \<Rightarrow> command list" where
  "step_commands steps = map (\<lambda>s. command_of (ss_command s)) steps"

definition engine_replies :: "command list \<Rightarrow> engine \<Rightarrow> reply list" where
  "engine_replies cs e = map projr (snd (engine_run cs e))"

lemma transcript_Cons:
  "transcript w labels (s # steps) (a # replies) =
     ((if labels then step_label s else []) @ write_reply w a) @ transcript w labels steps replies"
  by (simp add: transcript_def)

context queue_factory
begin

lemma execute_step_ready:
  assumes "ready t r" and "engine_execute (command_of (ss_command s)) (rn_engine r) = (e, Inr a)"
  shows "\<exists>r'. execute_step ops t w labels s r =
      Some (r', (if labels then step_label s else []) @ write_reply w a, Inr ()) \<and>
    ready t r' \<and> rn_engine r' = e"
  using ask_ready [OF assms(1), of "command_of (ss_command s)"] assms(2)
  by (auto simp: execute_step_def execute_command_def)

lemma run_steps_ready:
  assumes "ready t r" and "engine_ok (rn_engine r)"
  shows "\<exists>r'. run_steps ops t w labels steps r =
      Some (r', transcript w labels steps (engine_replies (step_commands steps) (rn_engine r)), Inr ()) \<and> ready t r'"
  using assms
proof (induction steps arbitrary: r)
  case Nil
  then show ?case by (simp add: transcript_def)
next
  case (Cons s steps)
  obtain e a where e: "engine_execute (command_of (ss_command s)) (rn_engine r) = (e, Inr a)" "engine_ok e"
    using engine_execute_sim [OF Cons.prems(2)] by metis
  from execute_step_ready [OF Cons.prems(1) e(1)] obtain r1 where 1:
    "execute_step ops t w labels s r = Some (r1, (if labels then step_label s else []) @ write_reply w a, Inr ())"
    "ready t r1" "rn_engine r1 = e" by blast
  from Cons.IH [OF 1(2)] 1(3) e(2) obtain r' where 2: "run_steps ops t w labels steps r1 =
      Some (r', transcript w labels steps (engine_replies (step_commands steps) e), Inr ())" "ready t r'" by blast
  have "engine_replies (step_commands (s # steps)) (rn_engine r) = a # engine_replies (step_commands steps) e"
    by (simp add: engine_replies_def step_commands_def e(1) split: prod.splits)
  then show ?case using 1(1) 2 by (simp add: transcript_Cons)
qed

lemma run_with_runner_prints:
  "run_with_runner ops make_queue t w print_metadata metadata steps =
     Some ((if print_metadata then metadata else []) @
       transcript w print_metadata steps (engine_replies (step_commands steps) initial_engine), Inr ())"
proof -
  obtain r0 obs where 0: "perform_all ops (start_calls t) (make_runner (make_queue 128)) = Some (r0, obs)"
    "ready t r0" "rn_engine r0 = initial_engine" using started_ready [of 128 t] by auto
  from run_steps_ready [OF 0(2)] 0(3) initial_engine_ok obtain r' where 1: "run_steps ops t w print_metadata steps r0 =
      Some (r', transcript w print_metadata steps (engine_replies (step_commands steps) initial_engine), Inr ())" "ready t r'"
    by metis
  from stopped_ready [OF 1(2)] obtain p where "perform_all ops (stop_calls t) r' = Some p" by blast
  with 0(1) 1(1) show ?thesis by (simp add: run_with_runner_def)
qed

lemma run_scenario_file_prints:
  "run_scenario_file ops make_queue t fs w print_metadata path =
     (case load (fs_contents fs) path of
        Inl f \<Rightarrow> Some ([], Inl f)
      | Inr steps \<Rightarrow>
          Some ((if print_metadata then ''Scenario file: '' @ path @ newline @ ''Commands: '' @ decimal (length steps) @ newline else []) @
            transcript w print_metadata steps (engine_replies (step_commands steps) initial_engine), Inr ()))"
  by (simp add: run_scenario_file_def run_with_runner_prints split: sum.splits)

end

definition new_bounded_queue :: "nat \<Rightarrow> 'a bounded_queue" where
  "new_bounded_queue n = \<lparr>bnd_items = [], bnd_capacity = n, bnd_closed = False\<rparr>"

interpretation factory: queue_factory bounded_ops bnd_items bnd_closed "\<lambda>q. 0 < bnd_capacity q" new_bounded_queue
  by unfold_locales (auto simp: bounded_ops_def new_bounded_queue_def split: list.splits)

subsection \<open>The property\<close>

definition replay_title :: string where
  "replay_title = ''Obz Market Lab replay demo'' @ newline"

definition file_header :: "string \<Rightarrow> scenario_step list \<Rightarrow> string" where
  "file_header path steps = ''Scenario file: '' @ path @ newline @ ''Commands: '' @ decimal (length steps) @ newline"

text \<open>C38: replaying a file prints what the engine replies. With a queue that has room, the run through
  the runner always ends; if the file does not load the exit code is one and the reason is on the error output, otherwise it is
  zero and the output is, step by step, the rendering of the reply the engine alone gives to that command (in text
  format after the title, the header and the label of the step).\<close>

theorem replay_prints_engine_replies:
  assumes "queue_factory ops contents closed room make_queue" and "path \<noteq> []"
  shows "replay_main ops make_queue t fs program [''--file'', path, ''--format'', ''jsonl''] =
      Some (case load (fs_contents fs) path of
          Inl f \<Rightarrow> ([], replay_failed program f, 1)
        | Inr steps \<Rightarrow> (transcript jsonl_writer False steps (engine_replies (step_commands steps) initial_engine), [], 0)) \<and>
    replay_main ops make_queue t fs program [''--file'', path] =
      Some (case load (fs_contents fs) path of
          Inl f \<Rightarrow> (replay_title, replay_failed program f, 1)
        | Inr steps \<Rightarrow> (replay_title @ file_header path steps @
            transcript console_writer True steps (engine_replies (step_commands steps) initial_engine), [], 0))"
  using assms(2)
  by (cases "load (fs_contents fs) path")
    (simp_all add: replay_main_def parse_command_line_def no_options_def no_source_def run_replay_def
      queue_factory.run_scenario_file_prints [OF assms(1)] replay_title_def file_header_def)

definition one_file :: "string \<Rightarrow> filesystem" where
  "one_file input = \<lparr>fs_contents = (\<lambda>_. Some input), fs_exists = (\<lambda>_. True), fs_is_directory = (\<lambda>_. False),
     fs_entries = (\<lambda>_. [])\<rparr>"

definition cancel_step :: scenario_step where
  "cancel_step = \<lparr>ss_line_number = 1, ss_text = ''cancel 1 2'', ss_command = Scenario_cancel (make_cancel_order 1 2)\<rparr>"

lemma replay_prints_engine_replies_witness:
  "replay_main bounded_ops new_bounded_queue 0 (one_file ''cancel 1 2'') ''replay'' [''--file'', ''a.txt''] =
     Some (replay_title @ ''Scenario file: a.txt'' @ newline @ ''Commands: 1'' @ newline @ newline @ ''line 1: cancel 1 2'' @ newline @
       ''  cancel_rejected key=1:2'' @ json '' reason=`order is not active`'' @ newline, [], 0)"
proof -
  have load: "load (fs_contents (one_file ''cancel 1 2'')) ''a.txt'' = Inr [cancel_step]"
    unfolding one_file_def cancel_step_def by code_simp
  have replies: "engine_replies (step_commands [cancel_step]) initial_engine =
      [Events [Cancel_rejected (make_key 1 2) ''order is not active'']]"
    by (simp add: engine_replies_def step_commands_def engine_cancel_def initial_engine_def make_cancel_order_def
        reject_cancel_def cancel_step_def)
  have label: "step_label cancel_step = newline @ ''line 1: cancel 1 2'' @ newline"
    unfolding step_label_def cancel_step_def by code_simp
  have reply: "write_reply console_writer (Events [Cancel_rejected (make_key 1 2) ''order is not active'']) =
      ''  cancel_rejected key=1:2'' @ json '' reason=`order is not active`'' @ newline"
    unfolding write_reply_def console_writer_def by code_simp
  have header: "file_header ''a.txt'' [cancel_step] = ''Scenario file: a.txt'' @ newline @ ''Commands: 1'' @ newline"
    unfolding file_header_def by code_simp
  have "transcript console_writer True [cancel_step] (engine_replies (step_commands [cancel_step]) initial_engine) =
      newline @ ''line 1: cancel 1 2'' @ newline @
      ''  cancel_rejected key=1:2'' @ json '' reason=`order is not active`'' @ newline"
    unfolding replies transcript_Cons label reply by (simp add: transcript_def)
  then show ?thesis
    using replay_prints_engine_replies [OF factory.queue_factory_axioms, of "''a.txt''" 0 "one_file ''cancel 1 2''" "''replay''"]
    by (simp add: load header)
qed

end
