(* ===== verification/Listener.thy ===== *)
theory Listener
  imports Delivery Feed Numeric_Text
begin

text \<open>
  The market-data listener application (\<^verbatim>\<open>apps/market_data_listener/src/main.cpp\<close>): its command line, its
  receive loop over what the multicast receiver returns, its counters, output and exit code. The clock
  and the system call that installs the signal handlers are parameters; a shutdown signal is the end of
  the arrivals.
\<close>

subsection \<open>Options\<close>

record listener_options =
  lo_group :: string
  lo_port :: u16
  lo_interface_address :: string
  lo_stop_after :: "u64 option"
  lo_quiet :: bool

definition default_listener_options :: listener_options where
  "default_listener_options = \<lparr>lo_group = ''239.255.0.1'', lo_port = 30001, lo_interface_address = ''0.0.0.0'',
     lo_stop_after = None, lo_quiet = False\<rparr>"

definition parse_positive_integer :: "string \<Rightarrow> string \<Rightarrow> 'a::len word outcome" where
  "parse_positive_integer w name =
     (case from_chars w of (value, position, error) \<Rightarrow>
        if error \<noteq> Chars_ok \<or> position \<noteq> length w \<or> value = 0
        then Inl (Invalid_argument (name @ '' must be a positive integer''))
        else Inr value)"

fun parse_listener_arguments :: "string list \<Rightarrow> nat \<Rightarrow> listener_options \<Rightarrow> listener_options outcome" where
  "parse_listener_arguments [] positional_index options = Inr options"
| "parse_listener_arguments (argument # rest) positional_index options =
     (if argument = ''--stop-after'' then
        (case rest of
           [] \<Rightarrow> Inl (Invalid_argument (argument @ '' requires a value''))
         | value # rest' \<Rightarrow>
             (case parse_positive_integer value ''stop-after packet count'' of
                Inl f \<Rightarrow> Inl f
              | Inr n \<Rightarrow> parse_listener_arguments rest' positional_index (options\<lparr>lo_stop_after := Some n\<rparr>)))
      else if argument = ''--quiet'' then parse_listener_arguments rest positional_index (options\<lparr>lo_quiet := True\<rparr>)
      else if take 1 argument = ''-'' then Inl (Invalid_argument (''unknown option: '' @ argument))
      else if positional_index = 0
        then parse_listener_arguments rest (positional_index + 1) (options\<lparr>lo_group := argument\<rparr>)
      else if positional_index = 1 then
        (case parse_positive_integer argument ''port'' of
           Inl f \<Rightarrow> Inl f
         | Inr n \<Rightarrow> parse_listener_arguments rest (positional_index + 1) (options\<lparr>lo_port := n\<rparr>))
      else if positional_index = 2
        then parse_listener_arguments rest (positional_index + 1) (options\<lparr>lo_interface_address := argument\<rparr>)
      else Inl (Invalid_argument ''too many positional arguments''))"

definition parse_listener_options :: "string list \<Rightarrow> listener_options outcome" where
  "parse_listener_options arguments = parse_listener_arguments arguments 0 default_listener_options"

subsection \<open>Printing\<close>

definition side_name :: "md_side \<Rightarrow> string" where
  "side_name value = (if value = Md_buy then ''buy'' else ''sell'')"

definition print_packet :: "packet \<Rightarrow> string" where
  "print_packet decoded =
     (case pk_payload decoded of Book_update_message update \<Rightarrow>
        ''received sequence='' @ decimal (unat (pk_sequence decoded)) @
        '' symbol_id='' @ decimal (unat (md_symbol_value (bu_instrument update))) @
        '' side='' @ side_name (bu_direction update) @
        '' best_price='' @ (case bu_best_price update of Some p \<Rightarrow> decimal (unat p) | None \<Rightarrow> ''none'') @
        '' aggregate_size='' @ decimal (unat (bu_aggregate_size update)) @ [CHR 0x0A])"

definition print_processing_error :: "sequence_result \<Rightarrow> u64 \<Rightarrow> string" where
  "print_processing_error result sequence =
     (case result of
        Old \<Rightarrow> ''discarded old packet sequence='' @ decimal (unat sequence) @ [CHR 0x0A]
      | Duplicate \<Rightarrow> ''discarded duplicate pending packet sequence='' @ decimal (unat sequence) @ [CHR 0x0A]
      | Gap_limit_exceeded \<Rightarrow> ''sequence gap limit exceeded at sequence='' @ decimal (unat sequence) @ [CHR 0x0A]
      | Capacity_exhausted \<Rightarrow> ''sequence buffer capacity exhausted at sequence='' @ decimal (unat sequence) @ [CHR 0x0A]
      | Ready \<Rightarrow> [] | Buffered \<Rightarrow> [])"

definition print_sender :: "endpoint \<Rightarrow> string" where
  "print_sender sender = ep_host sender @ '':'' @ decimal (unat (ep_port sender))"

subsection \<open>The receive loop\<close>

record listener_counters =
  lc_datagrams :: u64
  lc_decoded :: u64
  lc_delivered :: u64
  lc_buffered :: u64
  lc_rejected :: u64
  lc_truncated :: u64
  lc_malformed :: u64

text \<open>The processor of the loop starts at the first packet it sees.\<close>

definition listener_config :: processor_config where
  "listener_config = \<lparr>pc_sequence_limits = \<lparr>bl_maximum_pending_values = 64, bl_maximum_sequence_gap = 64\<rparr>,
     pc_first_sequence = None\<rparr>"

record listener =
  ls_processor :: processor
  ls_out :: string
  ls_err :: string
  ls_counters :: listener_counters
  ls_received_invalid_packet :: bool

definition initial_listener :: listener where
  "initial_listener = \<lparr>ls_processor = make_processor listener_config, ls_out = [], ls_err = [],
     ls_counters = \<lparr>lc_datagrams = 0, lc_decoded = 0, lc_delivered = 0, lc_buffered = 0, lc_rejected = 0,
       lc_truncated = 0, lc_malformed = 0\<rparr>,
     ls_received_invalid_packet = False\<rparr>"

definition count_rejected :: "(listener_counters \<Rightarrow> listener_counters) \<Rightarrow> string \<Rightarrow> listener \<Rightarrow> listener" where
  "count_rejected f message s =
     s\<lparr>ls_counters := (f (ls_counters s))\<lparr>lc_rejected := lc_rejected (f (ls_counters s)) + 1\<rparr>,
       ls_err := ls_err s @ message, ls_received_invalid_packet := True\<rparr>"

definition print_consumer :: "bool \<Rightarrow> packet \<Rightarrow> string \<Rightarrow> string" where
  "print_consumer quiet p out = (if quiet then out else out @ print_packet p)"

definition listen_packet :: "listener_options \<Rightarrow> packet \<Rightarrow> listener \<Rightarrow> listener \<times> unit outcome" where
  "listen_packet options value s0 =
     (let c0 = ls_counters s0; c1 = c0\<lparr>lc_decoded := lc_decoded c0 + 1\<rparr>
      in case process (pure_consumer (print_consumer (lo_quiet options))) value (ls_processor s0, ls_out s0) of
           ((b, out), Inl f) \<Rightarrow> (s0\<lparr>ls_processor := b, ls_out := out, ls_counters := c1\<rparr>, Inl f)
         | ((b, out), Inr processed) \<Rightarrow>
             (let c2 = c1\<lparr>lc_delivered := lc_delivered c1 + of_nat (pr_packets_delivered processed)\<rparr>;
                  c3 = (if pr_ordering processed = Buffered then c2\<lparr>lc_buffered := lc_buffered c2 + 1\<rparr> else c2);
                  s1 = s0\<lparr>ls_processor := b, ls_out := out, ls_counters := c3\<rparr>
              in (if pr_ordering processed \<noteq> Ready \<and> pr_ordering processed \<noteq> Buffered
                  then count_rejected id (print_processing_error (pr_ordering processed) (pk_sequence value)) s1
                  else s1, Inr ())))"

text \<open>One round: \<open>True\<close> when the loop breaks because enough packets were delivered.\<close>

definition stop_reached :: "listener_options \<Rightarrow> listener \<Rightarrow> bool" where
  "stop_reached options s = (case lo_stop_after options of None \<Rightarrow> False | Some n \<Rightarrow> n \<le> lc_delivered (ls_counters s))"

definition listen_round :: "listener_options \<Rightarrow> multicast_receive_result \<Rightarrow> listener \<Rightarrow> listener \<times> bool outcome" where
  "listen_round options result s =
     (let c = ls_counters s; s0 = s\<lparr>ls_counters := c\<lparr>lc_datagrams := lc_datagrams c + 1\<rparr>\<rparr>
      in case result of
           Truncated_packet bytes_retained sender \<Rightarrow>
             (count_rejected (\<lambda>c. c\<lparr>lc_truncated := lc_truncated c + 1\<rparr>)
                (''discarded truncated datagram from '' @ print_sender sender @ '' bytes_retained='' @ decimal bytes_retained @ [CHR 0x0A]) s0,
              Inr False)
         | Malformed_packet error sender \<Rightarrow>
             (count_rejected (\<lambda>c. c\<lparr>lc_malformed := lc_malformed c + 1\<rparr>)
                (''discarded malformed packet from '' @ print_sender sender @ '': '' @ decode_error_to_string error @ [CHR 0x0A]) s0,
              Inr False)
         | Received_packet value sender \<Rightarrow>
             (case listen_packet options value s0 of
                (s1, Inl f) \<Rightarrow> (s1, Inl f)
              | (s1, Inr _) \<Rightarrow> (s1, Inr (stop_reached options s1))))"

text \<open>What a call of \<^verbatim>\<open>receive\<close> gives: a result, or an exception of the socket. Reading the arrivals to their
  end is the shutdown signal.\<close>

datatype arrival = Arrived multicast_receive_result | Failed fault

fun listen :: "listener_options \<Rightarrow> arrival list \<Rightarrow> listener \<Rightarrow> listener \<times> unit outcome" where
  "listen options [] s = (s, Inr ())"
| "listen options (Failed f # arrivals) s = (s, Inl f)"
| "listen options (Arrived result # arrivals) s =
     (case listen_round options result s of
        (s1, Inl f) \<Rightarrow> (s1, Inl f)
      | (s1, Inr stop) \<Rightarrow> if stop then (s1, Inr ()) else listen options arrivals s1)"

text \<open>The report of an unresolved gap after the loop, and the exit code.\<close>

definition report_gap :: "listener \<Rightarrow> listener" where
  "report_gap s =
     (let b = ls_processor s
      in if pending_size b \<noteq> 0
         then s\<lparr>ls_err := ls_err s @ ''unresolved sequence gap'' @
                  (case sq_next_sequence b of Some n \<Rightarrow> '': expected='' @ decimal (unat n) | None \<Rightarrow> []) @
                  '' pending='' @ decimal (pending_size b) @ [CHR 0x0A],
                ls_received_invalid_packet := True\<rparr>
         else s)"

definition listener_run :: "listener_options \<Rightarrow> arrival list \<Rightarrow> listener \<times> nat outcome" where
  "listener_run options arrivals =
     (case listen options arrivals initial_listener of
        (s, Inl f) \<Rightarrow> (s, Inl f)
      | (s, Inr _) \<Rightarrow> (let s' = report_gap s in (s', Inr (if ls_received_invalid_packet s' then 1 else 0))))"

subsection \<open>The program\<close>

text \<open>
  What \<open>n\<close> calls of \<open>receive\<close> give before the shutdown signal; an exception is the last. The loop reads them in
  order, and it reads no state that it changes.
\<close>

fun receive_arrivals :: "endian_ops \<Rightarrow> 'net udp_ops \<Rightarrow> nat \<Rightarrow> multicast_receiver \<times> 'net \<Rightarrow> arrival list" where
  "receive_arrivals ops udp 0 s = []"
| "receive_arrivals ops udp (Suc n) s =
     (case receive ops udp s of
        (s', Inl f) \<Rightarrow> [Failed f]
      | (s', Inr result) \<Rightarrow> Arrived result # receive_arrivals ops udp n s')"

definition listening_line :: "listener_options \<Rightarrow> string" where
  "listening_line options =
     ''listening group='' @ lo_group options @ '' port='' @ decimal (unat (lo_port options)) @
     '' interface='' @ lo_interface_address options @ [CHR 0x0A]"

text \<open>The elapsed time and the rate come from the clock: \<open>timing\<close> is their text.\<close>

definition listener_summary :: "(listener_counters \<Rightarrow> string \<times> string) \<Rightarrow> listener_counters \<Rightarrow> string" where
  "listener_summary timing c =
     (case timing c of (elapsed, rate) \<Rightarrow>
        ''listener summary datagrams='' @ decimal (unat (lc_datagrams c)) @ '' decoded='' @ decimal (unat (lc_decoded c)) @
        '' delivered='' @ decimal (unat (lc_delivered c)) @ '' buffered='' @ decimal (unat (lc_buffered c)) @
        '' rejected='' @ decimal (unat (lc_rejected c)) @ '' truncated='' @ decimal (unat (lc_truncated c)) @
        '' malformed='' @ decimal (unat (lc_malformed c)) @ '' elapsed_us='' @ elapsed @
        '' messages_per_second='' @ rate @ [CHR 0x0A] @ ''listener stopped'' @ [CHR 0x0A])"

definition receiver_error :: "fault \<Rightarrow> string" where
  "receiver_error f =
     ''receiver error: '' @ what f @ [CHR 0x0A] @
     ''usage: obz_market_data_listener [group] [port] [interface] [--stop-after packets] [--quiet]'' @ [CHR 0x0A]"

text \<open>
  The shutdown handlers (the POSIX branch). \<open>sigaction\<close> stands for the system call: \<open>None\<close> when it succeeds, otherwise the
  system's text of the error, which \<^verbatim>\<open>std::system_error\<close> appends to its own.
\<close>

datatype shutdown_signal = SIGINT | SIGTERM

definition install_shutdown_handlers :: "(shutdown_signal \<Rightarrow> string option) \<Rightarrow> unit outcome" where
  "install_shutdown_handlers sigaction =
     (case sigaction SIGINT of
        Some reason \<Rightarrow> Inl (Runtime_error (''failed to install shutdown signal handlers: '' @ reason))
      | None \<Rightarrow>
          (case sigaction SIGTERM of
             Some reason \<Rightarrow> Inl (Runtime_error (''failed to install shutdown signal handlers: '' @ reason))
           | None \<Rightarrow> Inr ()))"

text \<open>The standard output, the error output and the exit code, when the signal comes after \<open>n\<close> receives.\<close>

definition listener_main ::
  "endian_ops \<Rightarrow> 'net udp_ops \<Rightarrow> (shutdown_signal \<Rightarrow> string option) \<Rightarrow> (listener_counters \<Rightarrow> string \<times> string) \<Rightarrow>
   nat \<Rightarrow> string list \<Rightarrow> 'net \<Rightarrow> string \<times> string \<times> nat" where
  "listener_main ops udp sigaction timing n arguments net =
     (case parse_listener_options arguments of
        Inl f \<Rightarrow> ([], receiver_error f, 1)
      | Inr options \<Rightarrow>
     (case install_shutdown_handlers sigaction of
        Inl f \<Rightarrow> ([], receiver_error f, 1)
      | Inr _ \<Rightarrow>
     (case make_multicast_receiver udp
          \<lparr>ms_group = lo_group options, ms_port = lo_port options, ms_interface_address = lo_interface_address options\<rparr> net of
        (net1, Inl f) \<Rightarrow> ([], receiver_error f, 1)
      | (net1, Inr buffer) \<Rightarrow>
     (case listener_run options (receive_arrivals ops udp n (buffer, net1)) of
        (s, Inl f) \<Rightarrow> (listening_line options @ ls_out s, ls_err s @ receiver_error f, 1)
      | (s, Inr code) \<Rightarrow>
          (listening_line options @ ls_out s @ listener_summary timing (ls_counters s), ls_err s, code)))))"

end
