(* ===== verification/Listener_Properties.thy ===== *)
theory Listener_Properties
  imports Listener Feed_Properties
begin

text \<open>
  What the listener's output, counters and exit code say about the datagrams it received: nothing is
  printed out of sequence, no datagram is lost from the counts, and the exit code is zero exactly
  when every packet was delivered.
\<close>

subsection \<open>Packets are conserved by the processor\<close>

lemma pop_ready_count:
  "pop_ready b = (b', Some v) \<Longrightarrow> length (sq_pending b) = Suc (length (sq_pending b'))"
  by (auto simp: pop_ready_def advance_after_def split: if_splits list.splits)

lemma pop_ready_none: "pop_ready b = (b', None) \<Longrightarrow> b' = b"
  by (auto simp: pop_ready_def split: if_splits list.splits prod.splits)

lemma drain_count:
  "drain_ready collect k (b, ds) = ((b', ds'), r) \<Longrightarrow>
   length (sq_pending b) + length ds = length (sq_pending b') + length ds' \<and> r = Inr (k + (length ds' - length ds)) \<and> length ds \<le> length ds'"
proof (induction "length (sq_pending b)" arbitrary: b ds k rule: less_induct)
  case less
  obtain b1 v where pop: "pop_ready b = (b1, v)" by fastforce
  show ?case
  proof (cases v)
    case None
    then show ?thesis using less.prems pop pop_ready_none [of b b1] by (simp add: drain_ready_step(1))
  next
    case (Some q)
    have "drain_ready collect (k + 1) (b1, ds @ [q]) = ((b', ds'), r)"
      using less.prems pop Some by (simp add: drain_ready_step(2))
    with less.hyps [OF _ this] pop_ready_count [of b b1 q] pop Some show ?thesis by auto
  qed
qed

lemma advance_after_pending [simp]: "sq_pending (advance_after s b) = sq_pending b"
  by (simp add: advance_after_def)

lemma push_count:
  assumes "push s v b = (b', r)" and "buffer_ok b"
  shows "length (sq_pending b') = length (sq_pending b) + (if r = Buffered then 1 else 0)"
proof (cases r)
  case Ready
  then show ?thesis using push_ready(1) assms by force
next
  case Buffered
  with push_buffered [OF _ assms(2)] assms(1) obtain m where
    "b' = b\<lparr>sq_pending := omap_emplace (\<lambda>x y. seq_before x y) s v (sq_pending b)\<rparr>" "s \<notin> fst ` set (sq_pending b)" by metis
  then show ?thesis using Buffered
    by (simp add: pending_order.emplace_length pending_order.find_eq_map_of map_of_eq_None_iff)
qed (use push_other [OF assms(1)] in auto)

text \<open>Each processed packet is handed on, buffered or refused.\<close>

lemma process_count:
  assumes "buffer_ok b" and "process collect p (b, ds) = ((b', ds'), r)"
  obtains x where "r = Inr x" and "length ds' = length ds + pr_packets_delivered x"
    and "length (sq_pending b') + length ds' + (if pr_ordering x \<in> {Ready, Buffered} then 0 else 1) = length (sq_pending b) + length ds + 1"
proof -
  obtain b1 order where pu: "push (pk_sequence p) p b = (b1, order)" by fastforce
  show thesis
  proof (cases "order = Ready")
    case True
    obtain s n where dr: "drain_ready collect 1 (b1, ds @ [p]) = (s, n)" by fastforce
    obtain b2 ds2 where s: "s = (b2, ds2)" by (cases s)
    note count = drain_count [OF dr [unfolded s]]
    have "b' = b2 \<and> ds' = ds2 \<and> r = Inr \<lparr>pr_ordering = Ready, pr_packets_delivered = 1 + (length ds2 - Suc (length ds))\<rparr>"
      using assms(2) pu True dr s count by (auto simp: process_pure_eq)
    moreover have "Suc (length ds) \<le> length ds2" using count by simp
    then have "length ds2 = length ds + (1 + (length ds2 - Suc (length ds)))" by arith
    moreover have "length (sq_pending b2) + length ds2 = length (sq_pending b) + length ds + 1"
      using count push_count [OF pu assms(1)] True by simp
    ultimately show thesis
      by (intro that [of "\<lparr>pr_ordering = Ready, pr_packets_delivered = 1 + (length ds2 - Suc (length ds))\<rparr>"])
        (simp only: processing_result.simps, simp only: processing_result.simps, simp)
  next
    case False
    then have "b' = b1 \<and> ds' = ds \<and> r = Inr \<lparr>pr_ordering = order, pr_packets_delivered = 0\<rparr>"
      using assms(2) pu by (auto simp: process_pure_eq)
    then show thesis using push_count [OF pu assms(1)] False
      by (intro that [of "\<lparr>pr_ordering = order, pr_packets_delivered = 0\<rparr>"]) auto
  qed
qed

lemma process_all_snoc:
  "process_all f (ps @ [p]) s =
     (case process_all f ps s of (s1, rs) \<Rightarrow> case process f p s1 of (s2, r) \<Rightarrow> (s2, rs @ [r]))"
  by (induction ps arbitrary: s) (auto split: prod.splits)

subsection \<open>The loop against the processor\<close>

fun packets_of :: "multicast_receive_result list \<Rightarrow> packet list" where
  "packets_of [] = []"
| "packets_of (Received_packet p _ # rs) = p # packets_of rs"
| "packets_of (_ # rs) = packets_of rs"

definition is_truncated :: "multicast_receive_result \<Rightarrow> bool" where
  "is_truncated r = (case r of Truncated_packet _ _ \<Rightarrow> True | _ \<Rightarrow> False)"

definition is_malformed :: "multicast_receive_result \<Rightarrow> bool" where
  "is_malformed r = (case r of Malformed_packet _ _ \<Rightarrow> True | _ \<Rightarrow> False)"

definition refused :: "processing_result outcome \<Rightarrow> bool" where
  "refused r = (case r of Inl _ \<Rightarrow> True | Inr x \<Rightarrow> pr_ordering x \<notin> {Ready, Buffered})"

definition was_buffered :: "processing_result outcome \<Rightarrow> bool" where
  "was_buffered r = (case r of Inl _ \<Rightarrow> False | Inr x \<Rightarrow> pr_ordering x = Buffered)"

lemma packets_of_snoc: "packets_of (rs @ [r]) = packets_of rs @ packets_of [r]"
  by (induction rs rule: packets_of.induct) (cases r; simp)+

text \<open>The datagrams among the results \<open>rs\<close> that are rejected: truncated, malformed, or refused by the processor.\<close>

definition rejected_of :: "multicast_receive_result list \<Rightarrow> nat" where
  "rejected_of rs = length (filter is_truncated rs) + length (filter is_malformed rs) +
     length (filter refused (snd (run_processor listener_config (packets_of rs))))"

text \<open>The counters hold what is counted, as 64-bit words.\<close>

definition counts_of :: "multicast_receive_result list \<Rightarrow> listener_counters" where
  "counts_of rs = \<lparr>lc_datagrams = of_nat (length rs), lc_decoded = of_nat (length (packets_of rs)),
     lc_delivered = of_nat (length (delivered listener_config (packets_of rs))),
     lc_buffered = of_nat (length (filter was_buffered (snd (run_processor listener_config (packets_of rs))))),
     lc_rejected = of_nat (rejected_of rs),
     lc_truncated = of_nat (length (filter is_truncated rs)), lc_malformed = of_nat (length (filter is_malformed rs))\<rparr>"

text \<open>The state of the loop after the results \<open>rs\<close>.\<close>

definition listener_at :: "listener_options \<Rightarrow> multicast_receive_result list \<Rightarrow> listener \<Rightarrow> bool" where
  "listener_at options rs s \<longleftrightarrow>
     (case run_processor listener_config (packets_of rs) of ((b, ds), outs) \<Rightarrow>
        ls_processor s = b \<and>
        ls_out s = (if lo_quiet options then [] else concat (map print_packet ds)) \<and>
        ls_counters s = counts_of rs \<and>
        length (packets_of rs) = length ds + pending_size b + length (filter refused outs) \<and>
        (ls_received_invalid_packet s \<longleftrightarrow> rejected_of rs \<noteq> 0))"

lemma listener_at_initial: "listener_at options [] initial_listener"
  by (simp add: listener_at_def run_processor_def delivered_def initial_listener_def pending_size_def
      make_processor_def make_sequenced_buffer_def counts_of_def rejected_of_def)

lemma fold_print: "fold (print_consumer quiet) ds [] = (if quiet then [] else concat (map print_packet ds))"
proof -
  have "fold (print_consumer quiet) ds out = (if quiet then out else out @ concat (map print_packet ds))" for out
    by (induction ds arbitrary: out) (auto simp: print_consumer_def)
  then show ?thesis by simp
qed

lemma counts_of_unread:
  assumes "packets_of [r] = []"
  shows "packets_of (rs @ [r]) = packets_of rs"
    "rejected_of (rs @ [r]) = Suc (rejected_of rs)"
    "is_truncated r \<Longrightarrow> counts_of (rs @ [r]) = (counts_of rs)\<lparr>lc_datagrams := lc_datagrams (counts_of rs) + 1,
       lc_rejected := lc_rejected (counts_of rs) + 1, lc_truncated := lc_truncated (counts_of rs) + 1\<rparr>"
    "is_malformed r \<Longrightarrow> counts_of (rs @ [r]) = (counts_of rs)\<lparr>lc_datagrams := lc_datagrams (counts_of rs) + 1,
       lc_rejected := lc_rejected (counts_of rs) + 1, lc_malformed := lc_malformed (counts_of rs) + 1\<rparr>"
  using assms
  by (cases r; simp add: packets_of_snoc rejected_of_def counts_of_def is_truncated_def is_malformed_def add.commute)+

lemma counts_of_read:
  assumes "run_processor listener_config (packets_of rs) = ((b, ds), outs)" "process collect p (b, ds) = ((b', ds'), Inr x)"
    and "length ds' = length ds + pr_packets_delivered x"
  shows "run_processor listener_config (packets_of (rs @ [Received_packet p sender])) = ((b', ds'), outs @ [Inr x])"
    "rejected_of (rs @ [Received_packet p sender]) = rejected_of rs + (if refused (Inr x) then 1 else 0)"
    "counts_of (rs @ [Received_packet p sender]) = (counts_of rs)\<lparr>lc_datagrams := lc_datagrams (counts_of rs) + 1,
       lc_decoded := lc_decoded (counts_of rs) + 1,
       lc_delivered := lc_delivered (counts_of rs) + of_nat (pr_packets_delivered x),
       lc_buffered := lc_buffered (counts_of rs) + (if pr_ordering x = Buffered then 1 else 0),
       lc_rejected := lc_rejected (counts_of rs) + (if refused (Inr x) then 1 else 0)\<rparr>"
proof -
  have snoc: "packets_of (rs @ [Received_packet p sender]) = packets_of rs @ [p]" by (simp add: packets_of_snoc)
  show run: "run_processor listener_config (packets_of (rs @ [Received_packet p sender])) = ((b', ds'), outs @ [Inr x])"
    using assms(1,2) by (simp add: packets_of_snoc run_processor_def process_all_snoc)
  show rejected: "rejected_of (rs @ [Received_packet p sender]) = rejected_of rs + (if refused (Inr x) then 1 else 0)"
    by (simp add: rejected_of_def run assms(1) is_truncated_def is_malformed_def)
  show "counts_of (rs @ [Received_packet p sender]) = (counts_of rs)\<lparr>lc_datagrams := lc_datagrams (counts_of rs) + 1,
       lc_decoded := lc_decoded (counts_of rs) + 1,
       lc_delivered := lc_delivered (counts_of rs) + of_nat (pr_packets_delivered x),
       lc_buffered := lc_buffered (counts_of rs) + (if pr_ordering x = Buffered then 1 else 0),
       lc_rejected := lc_rejected (counts_of rs) + (if refused (Inr x) then 1 else 0)\<rparr>"
    using run [unfolded snoc]
    by (simp add: counts_of_def rejected delivered_def snoc assms(1,3) is_truncated_def is_malformed_def was_buffered_def
        add.commute)
qed

lemma listen_round_at:
  assumes "listener_at options rs s"
  shows "\<exists>s1 stop. listen_round options r s = (s1, Inr stop) \<and> listener_at options (rs @ [r]) s1 \<and>
    stop = (packets_of [r] \<noteq> [] \<and> stop_reached options s1)"
proof (cases r)
  case (Truncated_packet n sender)
  then have "packets_of [r] = []" "is_truncated r" by (simp_all add: is_truncated_def)
  from assms counts_of_unread(1,2) [OF this(1)] counts_of_unread(3) [OF this] show ?thesis
    by (auto simp: listen_round_def listener_at_def count_rejected_def Truncated_packet Let_def split: prod.splits)
next
  case (Malformed_packet e sender)
  then have "packets_of [r] = []" "is_malformed r" by (simp_all add: is_malformed_def)
  from assms counts_of_unread(1,2) [OF this(1)] counts_of_unread(4) [OF this] show ?thesis
    by (auto simp: listen_round_def listener_at_def count_rejected_def Malformed_packet Let_def split: prod.splits)
next
  case (Received_packet p sender)
  obtain b ds outs where run: "run_processor listener_config (packets_of rs) = ((b, ds), outs)" by (metis prod.collapse)
  then have inv: "ls_processor s = b" "ls_out s = fold (print_consumer (lo_quiet options)) ds []" "ls_counters s = counts_of rs"
    "length (packets_of rs) = length ds + length (sq_pending b) + length (filter refused outs)"
    "ls_received_invalid_packet s \<longleftrightarrow> rejected_of rs \<noteq> 0"
    using assms unfolding listener_at_def fold_print pending_size_def by auto
  have "buffer_ok b" using run_processor_ok [of listener_config "packets_of rs"] by (simp add: run delivery_ok_def settled_def)
  obtain b' ds' out where pr: "process collect p (b, ds) = ((b', ds'), out)" by (metis prod.collapse)
  from process_count [OF \<open>buffer_ok b\<close> pr] obtain x where x: "out = Inr x" "length ds' = length ds + pr_packets_delivered x"
    "length (sq_pending b') + length ds' + (if pr_ordering x \<in> {Ready, Buffered} then 0 else 1) = length (sq_pending b) + length ds + 1" .
  note read = counts_of_read [OF run pr [unfolded x(1)] x(2), of sender, folded Received_packet]
  have pr': "process (pure_consumer (print_consumer (lo_quiet options))) p (b, fold (print_consumer (lo_quiet options)) ds []) =
      ((b', fold (print_consumer (lo_quiet options)) ds' []), Inr x)"
    unfolding process_pure pr x(1) by simp
  define s1 where "s1 = fst (listen_round options r s)"
  have round: "listen_round options r s = (s1, Inr (stop_reached options s1))"
    unfolding s1_def listen_round_def listen_packet_def Received_packet Let_def by (simp add: inv(1,2) pr')
  have s1: "ls_processor s1 = b'" "ls_out s1 = fold (print_consumer (lo_quiet options)) ds' []" "ls_counters s1 = counts_of (rs @ [r])"
    "ls_received_invalid_packet s1 \<longleftrightarrow> ls_received_invalid_packet s \<or> refused (Inr x)"
    unfolding s1_def listen_round_def listen_packet_def Received_packet Let_def read(3) [unfolded Received_packet]
    by (simp_all add: pr' inv(1,2,3,5) count_rejected_def refused_def)
  have "length (packets_of (rs @ [r])) = length ds' + pending_size b' + length (filter refused (outs @ [Inr x]))"
    using inv(4) x(3) by (simp add: packets_of_snoc Received_packet pending_size_def) (auto simp: refused_def)
  then have "listener_at options (rs @ [r]) s1"
    unfolding listener_at_def read(1) by (simp add: s1 fold_print inv(5) read(2))
  with round show ?thesis by (simp add: Received_packet)
qed

lemma listen_at:
  assumes "listener_at options rs s"
  shows "\<exists>n s'. n \<le> length results \<and> listen options (map Arrived results) s = (s', Inr ()) \<and>
    listener_at options (rs @ take n results) s' \<and> (n = length results \<or> stop_reached options s')"
  using assms
proof (induction results arbitrary: rs s)
  case Nil
  then show ?case by simp
next
  case (Cons r results)
  from listen_round_at [OF Cons.prems, of r] obtain s1 stop where 1: "listen_round options r s = (s1, Inr stop)"
    "listener_at options (rs @ [r]) s1" "stop \<longrightarrow> stop_reached options s1" by blast
  show ?case
  proof (cases stop)
    case True
    then show ?thesis using 1 by (intro exI [of _ 1] exI [of _ s1]) simp
  next
    case False
    from Cons.IH [OF 1(2)] obtain n s' where n: "n \<le> length results"
      "listen options (map Arrived results) s1 = (s', Inr ())" "listener_at options ((rs @ [r]) @ take n results) s'"
      "n = length results \<or> stop_reached options s'" by blast
    then show ?thesis using 1(1) False by (intro exI [of _ "Suc n"] exI [of _ s']) simp
  qed
qed

text \<open>What the loop makes of the results it handled.\<close>

definition results_add_up :: "multicast_receive_result list \<Rightarrow> bool" where
  "results_add_up rs \<longleftrightarrow>
     (let ps = packets_of rs; outs = snd (run_processor listener_config ps);
          ds = delivered listener_config ps; pending = pending_size (fst (fst (run_processor listener_config ps)))
      in map seq_of ds = [seq_of (hd ps)..<seq_of (hd ps) + length ds] \<and>
         length rs = length ps + length (filter is_truncated rs) + length (filter is_malformed rs) \<and>
         length ps = length ds + pending + length (filter refused outs))"

lemma listener_run_at:
  "\<exists>n s. n \<le> length results \<and> (n = length results \<or> stop_reached options s) \<and>
     (let rs = take n results; ps = packets_of rs
      in listener_run options (map Arrived results) =
           (s, Inr (if rejected_of rs = 0 \<and> pending_size (fst (fst (run_processor listener_config ps))) = 0 then 0 else 1)) \<and>
         ls_out s = (if lo_quiet options then [] else concat (map print_packet (delivered listener_config ps))) \<and>
         ls_counters s = counts_of rs \<and> results_add_up rs)"
proof -
  from listen_at [OF listener_at_initial, of results options] obtain n s' where n: "n \<le> length results"
    "listen options (map Arrived results) initial_listener = (s', Inr ())" "listener_at options (take n results) s'"
    "n = length results \<or> stop_reached options s'" by auto
  define s where "s = report_gap s'"
  have same: "ls_counters s = ls_counters s'" "ls_processor s = ls_processor s'" "ls_out s = ls_out s'"
    by (simp_all add: s_def report_gap_def Let_def)
  have ordered: "map seq_of (delivered listener_config ps) =
      [seq_of (hd ps)..<seq_of (hd ps) + length (delivered listener_config ps)]" for ps
    using run_processor_ok [of listener_config ps]
    by (auto simp: delivery_ok_def origin_def listener_config_def split: list.splits)
  have kinds: "length rs = length (packets_of rs) + length (filter is_truncated rs) + length (filter is_malformed rs)" for rs
    by (induction rs rule: packets_of.induct) (auto simp: is_truncated_def is_malformed_def)
  obtain b ds outs where run: "run_processor listener_config (packets_of (take n results)) = ((b, ds), outs)" by (metis prod.collapse)
  then have ds: "delivered listener_config (packets_of (take n results)) = ds" by (simp add: delivered_def)
  note at = n(3) [unfolded listener_at_def run prod.case]
  have "listener_run options (map Arrived results) = (s, Inr (if rejected_of (take n results) = 0 \<and> pending_size b = 0 then 0 else 1))"
    using n(2) at unfolding listener_run_def by (auto simp: s_def report_gap_def Let_def)
  moreover have "stop_reached options s = stop_reached options s'"
    by (cases "lo_stop_after options") (simp_all add: stop_reached_def same)
  moreover have "results_add_up (take n results)"
    using kinds [of "take n results"] ordered [of "packets_of (take n results)"] at by (simp add: results_add_up_def run ds)
  ultimately show ?thesis
    using n(1,4) at by (intro exI [of _ n] exI [of _ s]) (simp add: same run ds)
qed

subsection \<open>A network that hands over datagrams\<close>

text \<open>The network is the list of the datagrams that still arrive; they fit into the buffer.\<close>

definition inbox_net :: "u8 list list udp_ops" where
  "inbox_net = wire_net\<lparr>udp_receive_from := \<lambda>buffer net. case net of
     [] \<Rightarrow> (net, Inl (Runtime_error ''nothing to receive''))
   | d # ds \<Rightarrow> (ds, Inr \<lparr>rd_buffer = d @ drop (length d) buffer, rd_bytes_received = length d, rd_truncated = False,
       rd_sender = \<lparr>ep_host = ''10.0.0.1'', ep_port = 40000\<rparr>\<rparr>)\<rparr>"

definition received_as :: "endian_ops \<Rightarrow> endpoint \<Rightarrow> u8 list \<Rightarrow> multicast_receive_result" where
  "received_as ops sender d = (case decode ops d of Inl e \<Rightarrow> Malformed_packet e sender | Inr p \<Rightarrow> Received_packet p sender)"

definition inbox_sender :: endpoint where
  "inbox_sender = \<lparr>ep_host = ''10.0.0.1'', ep_port = 40000\<rparr>"

lemma inbox_arrivals:
  "receive_arrivals ops inbox_net (length ds) (buffer, ds) = map Arrived (map (received_as ops inbox_sender) ds)"
proof (induction ds arbitrary: buffer)
  case (Cons d ds)
  have "receive ops inbox_net (buffer, d # ds) = ((d @ drop (length d) buffer, ds), Inr (received_as ops inbox_sender d))"
    by (simp add: receive_def inbox_net_def received_as_def inbox_sender_def split: sum.splits)
  then show ?case using Cons by simp
qed simp

lemma inbox_receiver: "make_multicast_receiver inbox_net subscription net = (net, Inr (replicate maximum_udp_payload_size 0))"
  by (simp add: make_multicast_receiver_def inbox_net_def wire_net_def)

subsection \<open>The property\<close>

text \<open>C39: the listener accounts for every datagram. Once its arguments are parsed, its signal
  handlers installed and its socket set up, it handles a prefix of what arrives, all of it unless the requested number of packets was
  delivered. What it prints are the packets the processor delivers, so consecutive and in order, and
  the summary; its counters are the 64-bit words of what was received, decoded, delivered, buffered, rejected, truncated
  and malformed, and these numbers add up (received = decoded, truncated or malformed; decoded =
  delivered, still pending or refused; rejected = truncated, malformed or refused); and the exit code is zero exactly
  when no datagram was rejected and none is pending.\<close>

theorem listener_accounts_for_every_datagram:
  assumes "parse_listener_options arguments = Inr options"
    and "install_shutdown_handlers sigaction = Inr ()"
    and "make_multicast_receiver udp \<lparr>ms_group = lo_group options, ms_port = lo_port options,
      ms_interface_address = lo_interface_address options\<rparr> net = (net1, Inr buffer)"
    and "receive_arrivals ops udp k (buffer, net1) = map Arrived results"
  shows "\<exists>n s. n \<le> length results \<and> (n = length results \<or> stop_reached options s) \<and>
     (let rs = take n results; ps = packets_of rs; ds = delivered listener_config ps; c = ls_counters s;
          outs = snd (run_processor listener_config ps); pending = pending_size (fst (fst (run_processor listener_config ps)));
          truncated = length (filter is_truncated rs); malformed = length (filter is_malformed rs);
          rejected = truncated + malformed + length (filter refused outs)
      in listener_main ops udp sigaction timing k arguments net =
           (listening_line options @ (if lo_quiet options then [] else concat (map print_packet ds)) @ listener_summary timing c,
            ls_err s, if rejected = 0 \<and> pending = 0 then 0 else 1) \<and>
         map seq_of ds = [seq_of (hd ps)..<seq_of (hd ps) + length ds] \<and>
         n = length ps + truncated + malformed \<and>
         length ps = length ds + pending + length (filter refused outs) \<and>
         lc_datagrams c = of_nat n \<and> lc_decoded c = of_nat (length ps) \<and> lc_delivered c = of_nat (length ds) \<and>
         lc_buffered c = of_nat (length (filter was_buffered outs)) \<and> lc_rejected c = of_nat rejected \<and>
         lc_truncated c = of_nat truncated \<and> lc_malformed c = of_nat malformed)"
proof -
  from listener_run_at [of results options] obtain n s where
    n: "n \<le> length results" "n = length results \<or> stop_reached options s"
    and run: "listener_run options (map Arrived results) =
        (s, Inr (if rejected_of (take n results) = 0 \<and>
          pending_size (fst (fst (run_processor listener_config (packets_of (take n results))))) = 0 then 0 else 1))"
      "ls_out s = (if lo_quiet options then [] else concat (map print_packet (delivered listener_config (packets_of (take n results)))))"
      "ls_counters s = counts_of (take n results)" "results_add_up (take n results)"
    unfolding Let_def by blast
  have "listener_main ops udp sigaction timing k arguments net =
      (case listener_run options (map Arrived results) of
         (s, Inl f) \<Rightarrow> (listening_line options @ ls_out s, ls_err s @ receiver_error f, 1)
       | (s, Inr code) \<Rightarrow> (listening_line options @ ls_out s @ listener_summary timing (ls_counters s), ls_err s, code))"
    by (simp add: listener_main_def assms split: prod.splits sum.splits)
  with n run show ?thesis
    by (intro exI [of _ n] exI [of _ s]) (simp add: Let_def counts_of_def results_add_up_def rejected_of_def)
qed

definition sample_datagram :: "u8 list" where
  "sample_datagram = projr (encode network_order sample_packet)"

lemma listener_accounts_for_every_datagram_witness:
  "\<exists>c err. listener_main network_order inbox_net (\<lambda>_. None) (\<lambda>_. (''0'', ''0'')) 1 [] [sample_datagram] =
     (listening_line default_listener_options @ print_packet sample_packet @ listener_summary (\<lambda>_. (''0'', ''0'')) c, err, 0)"
proof -
  have parsed: "parse_listener_options [] = Inr default_listener_options" by (simp add: parse_listener_options_def)
  have arrivals: "receive_arrivals network_order inbox_net 1 (buffer, [sample_datagram]) =
      map Arrived [received_as network_order inbox_sender sample_datagram]" for buffer
    using inbox_arrivals [of network_order "[sample_datagram]" buffer] by simp
  have "decode network_order sample_datagram = Inr sample_packet" by code_simp
  then have read: "received_as network_order inbox_sender sample_datagram = Received_packet sample_packet inbox_sender"
    by (simp add: received_as_def)
  have "delivered listener_config [sample_packet] = [sample_packet] \<and> pending_size (fst (fst (run_processor listener_config [sample_packet]))) = 0 \<and>
      snd (run_processor listener_config [sample_packet]) = [Inr \<lparr>pr_ordering = Ready, pr_packets_delivered = 1\<rparr>]"
    by (simp add: delivered_def run_processor_def listener_config_def make_processor_def make_sequenced_buffer_def pending_size_def
        process_pure_eq push_def drain_ready_step pop_ready_def advance_after_def sample_packet_def)
  then have run: "delivered listener_config [sample_packet] = [sample_packet]"
    "pending_size (fst (fst (run_processor listener_config [sample_packet]))) = 0"
    "snd (run_processor listener_config [sample_packet]) = [Inr \<lparr>pr_ordering = Ready, pr_packets_delivered = 1\<rparr>]" by simp_all
  have handlers: "install_shutdown_handlers (\<lambda>_. None) = Inr ()" by (simp add: install_shutdown_handlers_def)
  have all: "\<not> stop_reached default_listener_options s" for s
    by (simp add: stop_reached_def default_listener_options_def)
  have loud: "\<not> lo_quiet default_listener_options" by (simp add: default_listener_options_def)
  from listener_accounts_for_every_datagram [OF parsed handlers inbox_receiver arrivals, of "\<lambda>_. (''0'', ''0'')"]
  show ?thesis using all loud
    by (auto simp: read run refused_def is_truncated_def is_malformed_def Let_def)
qed

end
