(* ===== verification/Simulator.thy ===== *)
theory Simulator
  imports Feed Replay
begin

text \<open>
  The exchange-feed simulator application (\<^verbatim>\<open>apps/exchange_feed_simulator/src/main.cpp\<close>): its command line
  and the load it submits to a runner and publishes burst by burst. The clock and the memory
  for a burst are parameters and the pauses between bursts are left out.
\<close>

subsection \<open>Options\<close>

record simulator_options =
  so_group :: string
  so_port :: u16
  so_message_count :: "u64 option"
  so_burst_size :: u64
  so_interval_microseconds :: u64
  so_quiet :: bool

definition default_simulator_options :: simulator_options where
  "default_simulator_options = \<lparr>so_group = ''239.255.0.1'', so_port = 30001, so_message_count = None,
     so_burst_size = 64, so_interval_microseconds = 0, so_quiet = False\<rparr>"

definition parse_integer :: "string \<Rightarrow> string \<Rightarrow> bool \<Rightarrow> 'a::len word outcome" where
  "parse_integer w name allow_zero =
     (case from_chars w of (value, position, error) \<Rightarrow>
        if error \<noteq> Chars_ok \<or> position \<noteq> length w \<or> (\<not> allow_zero \<and> value = 0)
        then Inl (Invalid_argument (name @ (if allow_zero then '' must be a non-negative integer''
                                           else '' must be a positive integer'')))
        else Inr value)"

definition parse_port :: "string \<Rightarrow> u16 outcome" where
  "parse_port w =
     and_then (parse_integer w ''port'' False) (\<lambda>value :: u32.
       if value > 65535 then Inl (Invalid_argument ''port must be an integer from 1 to 65535'')
       else Inr (ucast value))"

fun parse_simulator_arguments :: "string list \<Rightarrow> nat \<Rightarrow> simulator_options \<Rightarrow> simulator_options outcome" where
  "parse_simulator_arguments [] positional_index options = Inr options"
| "parse_simulator_arguments (argument # rest) positional_index options =
     (if argument \<in> {''--messages'', ''--burst-size'', ''--interval-us''} then
        (case rest of
           [] \<Rightarrow> Inl (Invalid_argument (argument @ '' requires a value''))
         | value # rest' \<Rightarrow>
             (if argument = ''--messages'' then
                (case parse_integer value ''message count'' False of
                   Inl f \<Rightarrow> Inl f
                 | Inr n \<Rightarrow> parse_simulator_arguments rest' positional_index (options\<lparr>so_message_count := Some n\<rparr>))
              else if argument = ''--burst-size'' then
                (case parse_integer value ''burst size'' False of
                   Inl f \<Rightarrow> Inl f
                 | Inr n \<Rightarrow> parse_simulator_arguments rest' positional_index (options\<lparr>so_burst_size := n\<rparr>))
              else
                (case parse_integer value ''interval'' True of
                   Inl f \<Rightarrow> Inl f
                 | Inr n \<Rightarrow> parse_simulator_arguments rest' positional_index (options\<lparr>so_interval_microseconds := n\<rparr>))))
      else if argument = ''--quiet'' then parse_simulator_arguments rest positional_index (options\<lparr>so_quiet := True\<rparr>)
      else if take 1 argument = ''-'' then Inl (Invalid_argument (''unknown option: '' @ argument))
      else if positional_index = 0
        then parse_simulator_arguments rest (positional_index + 1) (options\<lparr>so_group := argument\<rparr>)
      else if positional_index = 1 then
        (case parse_port argument of
           Inl f \<Rightarrow> Inl f
         | Inr n \<Rightarrow> parse_simulator_arguments rest (positional_index + 1) (options\<lparr>so_port := n\<rparr>))
      else Inl (Invalid_argument ''too many positional arguments''))"

definition parse_simulator_options :: "string list \<Rightarrow> simulator_options outcome" where
  "parse_simulator_options arguments = parse_simulator_arguments arguments 0 default_simulator_options"

subsection \<open>The load\<close>

definition load_order :: "u64 \<Rightarrow> u64 \<Rightarrow> side \<Rightarrow> u64 \<Rightarrow> u64 \<Rightarrow> submit_order outcome" where
  "load_order user client_order direction limit amount =
     make_limit_order user client_order (Symbol_id 1) direction limit amount"

record ('q, 'net) simulation =
  sim_runner :: "'q runner"
  sim_publisher :: multicast_publisher
  sim_net :: 'net
  sim_out :: string

text \<open>A submit and its answer; \<open>None\<close> is a call that never returns.\<close>

definition submit_and_get ::
  "(queued_command, 'q) queue_ops \<Rightarrow> thread_id \<Rightarrow> submit_order outcome \<Rightarrow> ('q, 'net) simulation \<Rightarrow>
   (('q, 'net) simulation \<times> event list outcome) option" where
  "submit_and_get qops t order s =
     (case order of
        Inl f \<Rightarrow> Some (s, Inl f)
      | Inr submitted \<Rightarrow>
          (case ask qops t (Submit_command submitted) (sim_runner s) of
             None \<Rightarrow> None
           | Some (r, Inl f) \<Rightarrow> Some (s\<lparr>sim_runner := r\<rparr>, Inl f)
           | Some (r, Inr (Events emitted)) \<Rightarrow> Some (s\<lparr>sim_runner := r\<rparr>, Inr emitted)
           | Some (r, Inr (Snapshot _)) \<Rightarrow> None))"

text \<open>
  \<^verbatim>\<open>events.reserve(n)\<close> throws \<^verbatim>\<open>std::length_error\<close> beyond the vector's \<^verbatim>\<open>max_size()\<close>, which the implementation of the
  library chooses, and \<^verbatim>\<open>std::bad_alloc\<close> when the allocator has no room for \<open>n\<close> events. The user chooses \<open>n\<close>
  with the options, so both are part of the program's behaviour.
\<close>

record memory =
  mem_max_size :: u64
  mem_available :: "u64 \<Rightarrow> bool"

definition reserve_events :: "memory \<Rightarrow> u64 \<Rightarrow> unit outcome" where
  "reserve_events mem n =
     (if mem_max_size mem < n then Inl (Length_error ''vector::reserve'')
      else if mem_available mem n then Inr ()
      else Inl Bad_alloc)"

fun submit_burst ::
  "(queued_command, 'q) queue_ops \<Rightarrow> thread_id \<Rightarrow> u64 \<Rightarrow> nat \<Rightarrow> nat \<Rightarrow> event list \<Rightarrow> ('q, 'net) simulation \<Rightarrow>
   (('q, 'net) simulation \<times> event list outcome) option" where
  "submit_burst qops t first offset 0 events s = Some (s, Inr events)"
| "submit_burst qops t first offset (Suc left) events s =
     (case submit_and_get qops t (load_order 1 (first + of_nat offset + 1) Buy 100 1) s of
        None \<Rightarrow> None
      | Some (s1, Inl f) \<Rightarrow> Some (s1, Inl f)
      | Some (s1, Inr emitted) \<Rightarrow> submit_burst qops t first (offset + 1) left (events @ emitted) s1)"

definition add_result :: "publish_result \<Rightarrow> publish_result \<Rightarrow> publish_result" where
  "add_result so_far result =
     \<lparr>pub_messages_published = pub_messages_published so_far + pub_messages_published result,
      pub_bytes_sent = pub_bytes_sent so_far + pub_bytes_sent result,
      pub_first_sequence =
        (if pub_messages_published so_far = 0 \<and> pub_messages_published result \<noteq> 0
         then pub_first_sequence result else pub_first_sequence so_far),
      pub_last_sequence = pub_last_sequence result\<rparr>"

definition result_fields :: "publish_result \<Rightarrow> string" where
  "result_fields result =
     '' messages='' @ decimal (unat (pub_messages_published result)) @
     '' sequences='' @ decimal (unat (pub_first_sequence result)) @ ''-'' @ decimal (unat (pub_last_sequence result)) @
     '' bytes='' @ decimal (unat (pub_bytes_sent result))"

definition print_result :: "string \<Rightarrow> publish_result \<Rightarrow> string" where
  "print_result label result = label @ result_fields result @ newline"

definition publish_burst ::
  "endian_ops \<Rightarrow> 'net udp_ops \<Rightarrow> memory \<Rightarrow> (queued_command, 'q) queue_ops \<Rightarrow> thread_id \<Rightarrow> bool \<Rightarrow> u64 \<Rightarrow> u64 \<Rightarrow> publish_result \<Rightarrow>
   ('q, 'net) simulation \<Rightarrow> (('q, 'net) simulation \<times> publish_result outcome) option" where
  "publish_burst ops udp mem qops t quiet first count total_result s =
     (case reserve_events mem (count * 2) of
        Inl f \<Rightarrow> Some (s, Inl f)
      | Inr _ \<Rightarrow>
     (case submit_burst qops t first 0 (unat count) [] s of
        None \<Rightarrow> None
      | Some (s1, Inl f) \<Rightarrow> Some (s1, Inl f)
      | Some (s1, Inr events) \<Rightarrow>
          (case publish ops udp events (sim_publisher s1, sim_net s1) of
             ((p, net), Inl f) \<Rightarrow> Some (s1\<lparr>sim_publisher := p, sim_net := net\<rparr>, Inl f)
           | ((p, net), Inr result) \<Rightarrow>
               Some (s1\<lparr>sim_publisher := p, sim_net := net,
                        sim_out := sim_out s1 @ (if quiet then [] else print_result ''published burst'' result)\<rparr>,
                     Inr (add_result total_result result)))))"

text \<open>\<open>first += burst_size\<close> wraps at 64 bits, so the loop need not end.\<close>

partial_function (option) load_bursts ::
  "endian_ops \<Rightarrow> 'net udp_ops \<Rightarrow> memory \<Rightarrow> (queued_command, 'q) queue_ops \<Rightarrow> thread_id \<Rightarrow> bool \<Rightarrow> u64 \<Rightarrow> u64 \<Rightarrow> u64 \<Rightarrow> publish_result \<Rightarrow>
   ('q, 'net) simulation \<Rightarrow> (('q, 'net) simulation \<times> publish_result outcome) option" where
  "load_bursts ops udp mem qops t quiet burst message_count first total_result s =
     (if first < message_count
      then (case publish_burst ops udp mem qops t quiet first (min burst (message_count - first)) total_result s of
              None \<Rightarrow> None
            | Some (s1, r) \<Rightarrow>
                (case r of
                   Inl f \<Rightarrow> Some (s1, Inl f)
                 | Inr total1 \<Rightarrow> load_bursts ops udp mem qops t quiet burst message_count (first + burst) total1 s1))
      else Some (s, Inr total_result))"

definition publish_load ::
  "endian_ops \<Rightarrow> 'net udp_ops \<Rightarrow> memory \<Rightarrow> (queued_command, 'q) queue_ops \<Rightarrow> thread_id \<Rightarrow> simulator_options \<Rightarrow> u64 \<Rightarrow>
   ('q, 'net) simulation \<Rightarrow> (('q, 'net) simulation \<times> publish_result outcome) option" where
  "publish_load ops udp mem qops t options message_count s =
     load_bursts ops udp mem qops t (so_quiet options) (so_burst_size options) message_count 0 empty_publish_result s"

subsection \<open>The program\<close>

definition publish_events ::
  "endian_ops \<Rightarrow> 'net udp_ops \<Rightarrow> event list \<Rightarrow> ('q, 'net) simulation \<Rightarrow> ('q, 'net) simulation \<times> unit outcome" where
  "publish_events ops udp events s =
     (case publish ops udp events (sim_publisher s, sim_net s) of
        ((p, net), Inl f) \<Rightarrow> (s\<lparr>sim_publisher := p, sim_net := net\<rparr>, Inl f)
      | ((p, net), Inr result) \<Rightarrow>
          (s\<lparr>sim_publisher := p, sim_net := net,
             sim_out := sim_out s @ (if pub_messages_published result = 0 then [] else print_result ''published'' result)\<rparr>,
           Inr ()))"

definition ask_and_publish ::
  "endian_ops \<Rightarrow> 'net udp_ops \<Rightarrow> (queued_command, 'q) queue_ops \<Rightarrow> thread_id \<Rightarrow> command \<Rightarrow> ('q, 'net) simulation \<Rightarrow>
   (('q, 'net) simulation \<times> unit outcome) option" where
  "ask_and_publish ops udp qops t c s =
     (case ask qops t c (sim_runner s) of
        None \<Rightarrow> None
      | Some (r, Inl f) \<Rightarrow> Some (s\<lparr>sim_runner := r\<rparr>, Inl f)
      | Some (r, Inr (Events emitted)) \<Rightarrow> Some (publish_events ops udp emitted (s\<lparr>sim_runner := r\<rparr>))
      | Some (r, Inr (Snapshot _)) \<Rightarrow> None)"

fun run_demo ::
  "endian_ops \<Rightarrow> 'net udp_ops \<Rightarrow> (queued_command, 'q) queue_ops \<Rightarrow> thread_id \<Rightarrow> command list \<Rightarrow> ('q, 'net) simulation \<Rightarrow>
   (('q, 'net) simulation \<times> unit outcome) option" where
  "run_demo ops udp qops t [] s = Some (s, Inr ())"
| "run_demo ops udp qops t (c # cs) s =
     (case ask_and_publish ops udp qops t c s of
        None \<Rightarrow> None
      | Some (s1, Inl f) \<Rightarrow> Some (s1, Inl f)
      | Some (s1, Inr _) \<Rightarrow> run_demo ops udp qops t cs s1)"

text \<open>The three requests of the demo; their constants are positive, so the constructors do not throw.\<close>

definition simulator_order :: "u64 \<Rightarrow> u64 \<Rightarrow> side \<Rightarrow> u64 \<Rightarrow> u64 \<Rightarrow> submit_order" where
  "simulator_order user client_order direction limit amount =
     \<lparr>so_key = make_key user client_order, so_instrument = Symbol_id 1, so_direction = direction,
       so_pricing = Limit_order (Price limit), so_size = Quantity amount\<rparr>"

definition demo_commands :: "command list" where
  "demo_commands =
     [Submit_command (simulator_order 1 1 Buy 100 10), Submit_command (simulator_order 2 1 Sell 101 8),
      Cancel_command \<lparr>co_key = make_key 1 1\<rparr>]"

text \<open>
  The summary of a load. The elapsed time and the rate come from the clock: \<open>timing\<close> is their text for a
  number of messages.
\<close>

type_synonym timing = "u64 \<Rightarrow> string \<times> string"

definition publisher_summary :: "timing \<Rightarrow> simulator_options \<Rightarrow> publish_result \<Rightarrow> string" where
  "publisher_summary timing options result =
     (case timing (pub_messages_published result) of (elapsed, rate) \<Rightarrow>
        ''publisher summary'' @ result_fields result @
        '' elapsed_us='' @ elapsed @ '' messages_per_second='' @ rate @
        '' burst_size='' @ decimal (unat (so_burst_size options)) @
        '' interval_us='' @ decimal (unat (so_interval_microseconds options)) @ newline)"

definition simulator_run ::
  "endian_ops \<Rightarrow> 'net udp_ops \<Rightarrow> memory \<Rightarrow> timing \<Rightarrow> (queued_command, 'q) queue_ops \<Rightarrow> thread_id \<Rightarrow> simulator_options \<Rightarrow>
   ('q, 'net) simulation \<Rightarrow> (('q, 'net) simulation \<times> unit outcome) option" where
  "simulator_run ops udp mem timing qops t options s =
     (case so_message_count options of
        Some message_count \<Rightarrow>
          (case publish_load ops udp mem qops t options message_count s of
             None \<Rightarrow> None
           | Some (s', Inl f) \<Rightarrow> Some (s', Inl f)
           | Some (s', Inr result) \<Rightarrow>
               Some (s'\<lparr>sim_out := sim_out s' @ publisher_summary timing options result\<rparr>, Inr ()))
      | None \<Rightarrow> run_demo ops udp qops t demo_commands s)"

definition publisher_error :: "fault \<Rightarrow> string" where
  "publisher_error f =
     ''publisher error: '' @ what f @ newline @
     ''usage: obz_market_exchange_feed_simulator [group] [port] [--messages count] [--burst-size count] '' @
     ''[--interval-us microseconds] [--quiet]'' @ newline"

text \<open>
  The standard output, the error output, the network and the exit code. The runner is stopped by the
  last call of \<^verbatim>\<open>main\<close>, or by its destructor when something throws.
\<close>

definition simulator_main ::
  "endian_ops \<Rightarrow> 'net udp_ops \<Rightarrow> memory \<Rightarrow> timing \<Rightarrow> (queued_command, 'q) queue_ops \<Rightarrow> (nat \<Rightarrow> 'q) \<Rightarrow> thread_id \<Rightarrow> string list \<Rightarrow>
   'net \<Rightarrow> (string \<times> string \<times> 'net \<times> nat) option" where
  "simulator_main ops udp mem timing qops make_queue t arguments net =
     (case parse_simulator_options arguments of
        Inl f \<Rightarrow> Some ([], publisher_error f, net, 1)
      | Inr options \<Rightarrow>
          (case make_multicast_publisher udp \<lparr>md_group = so_group options, md_port = so_port options\<rparr> net of
             (net1, Inl f) \<Rightarrow> Some ([], publisher_error f, net1, 1)
           | (net1, Inr p) \<Rightarrow>
               (case perform_all qops (start_calls t) (make_runner (make_queue 64)) of
                  None \<Rightarrow> None
                | Some (r, _) \<Rightarrow>
                    (case simulator_run ops udp mem timing qops t options
                       \<lparr>sim_runner = r, sim_publisher = p, sim_net = net1, sim_out = []\<rparr> of
                       None \<Rightarrow> None
                     | Some (s, result) \<Rightarrow>
                         map_option (\<lambda>_. (sim_out s, (case result of Inl f \<Rightarrow> publisher_error f | Inr _ \<Rightarrow> []), sim_net s,
                             if returns result then 0 else 1))
                           (perform_all qops (stop_calls t) (sim_runner s))))))"

end
