(* ===== verification/Load_Engine.thy ===== *)
theory Load_Engine
  imports Simulator Replay_Properties Feed_Properties
begin

text \<open>
  The orders of the simulator's load and what they make the engine announce: a burst submits its orders
  once each, in order, and every order adds one to the bid at 100.
\<close>

subsection \<open>The orders of a load\<close>

definition load_command :: "nat \<Rightarrow> command" where
  "load_command k = Submit_command (simulator_order 1 (word_of_nat k) Buy 100 1)"

text \<open>The orders after the first \<open>f\<close> up to \<open>n\<close>.\<close>

definition load_commands :: "nat \<Rightarrow> nat \<Rightarrow> command list" where
  "load_commands f n = map (\<lambda>k. load_command (Suc k)) [f..<n]"

definition run_events :: "command list \<Rightarrow> engine \<Rightarrow> event list" where
  "run_events cs e = concat (map reply_events (snd (engine_run cs e)))"

lemma engine_run_append:
  "engine_run (cs @ ds) e =
    (case engine_run cs e of (e1, rs) \<Rightarrow> case engine_run ds e1 of (e2, rs') \<Rightarrow> (e2, rs @ rs'))"
  by (induction cs arbitrary: e) (auto split: prod.splits)

lemma run_events_simps [simp]:
  "run_events [] e = []"
  "run_events (c # cs) e = (case engine_execute c e of (e1, r) \<Rightarrow> reply_events r @ run_events cs e1)"
  "run_events (cs @ ds) e = run_events cs e @ run_events ds (fst (engine_run cs e))"
  by (auto simp: run_events_def engine_run_append split: prod.splits)

lemma load_commands_split: "f \<le> m \<Longrightarrow> m \<le> n \<Longrightarrow> load_commands f n = load_commands f m @ load_commands m n"
  using upt_add_eq_append [of f m "n - m"] by (simp add: load_commands_def)

lemma load_commands_Cons: "f < n \<Longrightarrow> load_commands f n = load_command (Suc f) # load_commands (Suc f) n"
  by (simp add: load_commands_def upt_conv_Cons)

lemma load_order_value: "load_order 1 k Buy 100 1 = Inr (simulator_order 1 k Buy 100 1)"
  by (simp add: load_order_def make_limit_order_def make_price_def make_quantity_def simulator_order_def)

lemma engine_run_engine_ok: "engine_ok e \<Longrightarrow> engine_ok (fst (engine_run cs e))"
  using engine_run_sim by (metis prod.collapse)

context queue_factory
begin

lemma submit_burst_ready:
  assumes "ready t (sim_runner s)" and "engine_ok (rn_engine (sim_runner s))"
  shows "\<exists>r. submit_burst ops t first offset left events s =
      Some (s\<lparr>sim_runner := r\<rparr>, Inr (events @ run_events (load_commands (unat first + offset) (unat first + offset + left)) (rn_engine (sim_runner s)))) \<and>
    ready t r \<and> rn_engine r = fst (engine_run (load_commands (unat first + offset) (unat first + offset + left)) (rn_engine (sim_runner s)))"
  using assms
proof (induction left arbitrary: offset events s)
  case 0
  then show ?case by (auto simp: load_commands_def intro!: exI [of _ "sim_runner s"])
next
  case (Suc left)
  let ?c = "load_command (Suc (unat first + offset))"
  obtain e a where e: "engine_execute ?c (rn_engine (sim_runner s)) = (e, Inr a)" "engine_ok e"
    using engine_execute_sim [OF Suc.prems(2)] by metis
  then obtain emitted where a: "a = Events emitted"
    by (auto simp: load_command_def map_prod_def split: prod.splits) (metis Inr_Inl_False map_sum.simps obj_sumE old.sum.inject(2))
  from ask_ready [OF Suc.prems(1), of ?c] e(1) a obtain r where r: "ask ops t ?c (sim_runner s) = Some (r, Inr (Events emitted))"
    "ready t r" "rn_engine r = e" by auto
  have order: "simulator_order 1 (first + word_of_nat offset + 1) Buy 100 1 = simulator_order 1 (word_of_nat (Suc (unat first + offset))) Buy 100 1"
    by (simp add: add.commute add.left_commute)
  have step: "submit_and_get ops t (load_order 1 (first + of_nat offset + 1) Buy 100 1) s = Some (s\<lparr>sim_runner := r\<rparr>, Inr emitted)"
    using r(1) by (simp add: submit_and_get_def load_order_value load_command_def order)
  from Suc.IH [of "s\<lparr>sim_runner := r\<rparr>" "Suc offset" "events @ emitted"] r(2,3) e(2) obtain r' where r':
    "submit_burst ops t first (Suc offset) left (events @ emitted) (s\<lparr>sim_runner := r\<rparr>) =
      Some (s\<lparr>sim_runner := r'\<rparr>, Inr ((events @ emitted) @ run_events (load_commands (unat first + Suc offset) (unat first + Suc offset + left)) e))"
    "ready t r'" "rn_engine r' = fst (engine_run (load_commands (unat first + Suc offset) (unat first + Suc offset + left)) e)" by auto
  have cs: "load_commands (unat first + offset) (unat first + offset + Suc left) =
      ?c # load_commands (unat first + Suc offset) (unat first + Suc offset + left)"
    using load_commands_Cons [of "unat first + offset" "unat first + offset + Suc left"] by simp
  show ?case unfolding cs using step r' e(1) a by (auto split: prod.splits)
qed

end

subsection \<open>The engine under the load\<close>

text \<open>The book of the load after \<open>m\<close> orders: all rest at one price, in order.\<close>

definition load_node :: "nat \<Rightarrow> node \<times> resting_order" where
  "load_node k = (k, \<lparr>ro_key = make_key 1 (word_of_nat (Suc k)), ro_direction = Buy, ro_limit_price = Price 100,
     ro_open_size = Quantity 1, ro_sequence = Sequence_number (word_of_nat (Suc k))\<rparr>)"

definition load_book :: "nat \<Rightarrow> spec_book" where
  "load_book m = \<lparr>sb_instrument = Symbol_id 1, sb_bids = map load_node [0..<m], sb_asks = [], sb_next = m\<rparr>"

definition load_engine :: "nat \<Rightarrow> spec_engine" where
  "load_engine m = \<lparr>se_books = (if m = 0 then Map.empty else [Symbol_id 1 \<mapsto> load_book m]),
     se_next_sequence = Sequence_number (word_of_nat (Suc m))\<rparr>"

definition load_event :: "nat \<Rightarrow> event" where
  "load_event k = Book_updated (Symbol_id 1) Buy (Some (Price 100)) (word_of_nat k)"

lemma load_queue_total [simp]: "total_open (map load_node xs) = word_of_nat (length xs)"
  by (induction xs) (simp_all add: load_node_def)

lemma load_top: "queue_top (map load_node [0..<m]) =
    (if m = 0 then None else Some \<lparr>tob_best_price = Price 100, tob_total_size = word_of_nat m\<rparr>)"
proof (cases m)
  case (Suc j)
  have all: "takeWhile (\<lambda>x. ro_limit_price (snd x) = Price 100) (map load_node xs) = map load_node xs" for xs
    by (simp add: takeWhile_eq_all_conv load_node_def)
  obtain y ys where ys: "[0..<Suc j] = y # ys" by (cases "[0..<Suc j]") simp_all
  have "queue_top (map load_node (y # ys)) =
      Some \<lparr>tob_best_price = Price 100, tob_total_size = total_open (takeWhile (\<lambda>x. ro_limit_price (snd x) = Price 100) (map load_node (y # ys)))\<rparr>"
    by (simp add: queue_top_def load_node_def)
  also have "\<dots> = Some \<lparr>tob_best_price = Price 100, tob_total_size = word_of_nat (length (y # ys))\<rparr>"
    unfolding all load_queue_total ..
  finally show ?thesis unfolding Suc ys [symmetric] by simp
qed (simp add: queue_top_def)

lemma load_submit:
  "spec_submit (simulator_order 1 (word_of_nat (Suc m)) Buy 100 1) (Sequence_number (word_of_nat (Suc m))) (load_book m) =
     (load_book (Suc m), \<lparr>sr_events = [Submit_accepted (make_key 1 (word_of_nat (Suc m))), load_event (Suc m)],
        sr_resting_order = make_handle Buy (Price 100) m, sr_filled_resting_orders = []\<rparr>)"
proof -
  let ?ahead = "\<lambda>x. \<not> side_before Buy (ro_limit_price (snd (load_node m))) (ro_limit_price (snd x))"
  have "takeWhile ?ahead (map load_node [0..<m]) = map load_node [0..<m]"
    by (simp add: takeWhile_eq_all_conv load_node_def)
  moreover have "dropWhile ?ahead (map load_node [0..<m]) = []"
    by (simp add: dropWhile_eq_Nil_conv load_node_def)
  ultimately have "enqueue (side_before Buy) (load_node m) (map load_node [0..<m]) = map load_node [0..<Suc m]"
    by (simp add: enqueue_def Let_def)
  then have rest: "spec_rest Buy (make_key 1 (word_of_nat (Suc m))) (Limit_order (Price 100))
      (Sequence_number (word_of_nat (Suc m))) 1 (load_book m) = (load_book (Suc m), make_handle Buy (Price 100) m)"
    by (simp add: spec_rest_def load_book_def load_node_def)
  have exec: "spec_execute Buy (make_key 1 (word_of_nat (Suc m))) (Limit_order (Price 100)) (Quantity 1)
      (Sequence_number (word_of_nat (Suc m))) (load_book m) = (load_book (Suc m), make_handle Buy (Price 100) m, [], [])"
  proof -
    have empty: "sb_asks (load_book m) = []" "load_book m\<lparr>sb_asks := []\<rparr> = load_book m"
      by (simp_all add: load_book_def)
    show ?thesis by (simp add: spec_execute_def empty rest del: of_nat_Suc)
  qed
  have "side_change Buy (load_book m) (load_book (Suc m)) = [load_event (Suc m)]"
  proof -
    have "spec_queue Buy (load_book k) = map load_node [0..<k]" for k by (simp add: load_book_def)
    then show ?thesis
      by (simp add: side_change_def top_change_def load_top load_event_def load_book_def del: upt_Suc)
  qed
  moreover have "side_change Sell (load_book m) (load_book (Suc m)) = []"
    by (simp add: side_change_def top_change_def load_book_def)
  ultimately show ?thesis
    by (simp add: spec_submit_def exec simulator_order_def del: of_nat_Suc)
qed

text \<open>One more order, as long as its client order id is fresh.\<close>

lemma load_valid:
  assumes "Suc m < 2 ^ 64"
  shows "validate_submit (simulator_order 1 (word_of_nat (Suc m)) Buy 100 1) = None"
proof -
  have "(word_of_nat (Suc m) :: u64) \<noteq> 0"
    using assms by (simp add: word_unat_eq_iff unsigned_of_nat take_bit_nat_eq_self del: of_nat_Suc)
  then show ?thesis by (simp add: validate_submit_def simulator_order_def make_key_def del: of_nat_Suc)
qed

lemma load_fresh:
  assumes "Suc m < 2 ^ 64"
  shows "\<not> key_active (load_engine m) (make_key 1 (word_of_nat (Suc m)))"
proof -
  have "(word_of_nat (Suc m) :: u64) \<noteq> word_of_nat (Suc k)" if "k < m" for k
    using that assms by (simp add: word_unat_eq_iff unsigned_of_nat take_bit_nat_eq_self del: of_nat_Suc)
  then have distinct: "make_key 1 (word_of_nat (Suc m)) \<noteq> ro_key (snd (load_node k))" if "k < m" for k
    using that by (simp add: load_node_def make_key_def del: of_nat_Suc)
  have "make_key 1 (word_of_nat (Suc m)) \<notin> (\<lambda>e. ro_key (snd e)) ` set (map load_node [0..<m])"
  proof
    assume "make_key 1 (word_of_nat (Suc m)) \<in> (\<lambda>e. ro_key (snd e)) ` set (map load_node [0..<m])"
    then obtain k where "k < m" "make_key 1 (word_of_nat (Suc m)) = ro_key (snd (load_node k))"
      by (auto simp del: of_nat_Suc)
    with distinct show False by blast
  qed
  moreover have "resting_in (load_engine m) s d n r \<Longrightarrow> (n, r) \<in> set (map load_node [0..<m])" for s d n r
    by (cases d) (auto simp: resting_in_def load_engine_def load_book_def split: if_splits)
  ultimately show ?thesis unfolding key_active_def by (metis image_eqI snd_conv)
qed

lemma load_step:
  assumes "spec_step (load_engine m) (load_command (Suc m)) r se'" and "Suc m < 2 ^ 64"
  shows "r = Events [Submit_accepted (make_key 1 (word_of_nat (Suc m))), load_event (Suc m)] \<and> se' = load_engine (Suc m)"
proof -
  have key: "so_key (simulator_order 1 k Buy 100 1) = make_key 1 k" "so_instrument (simulator_order 1 k Buy 100 1) = Symbol_id 1" for k
    by (simp_all add: simulator_order_def)
  have book: "(case se_books (load_engine m) (Symbol_id 1) of Some sb \<Rightarrow> sb
      | None \<Rightarrow> empty_spec_book (so_instrument (simulator_order 1 k Buy 100 1))) = load_book m" for k
    by (simp add: key load_engine_def load_book_def empty_spec_book_def)
  have sequence: "se_next_sequence (load_engine m) = Sequence_number (word_of_nat (Suc m))" by (simp add: load_engine_def)
  have engine: "bump_engine (set_book (Symbol_id 1) (load_book (Suc m)) (load_engine m)) = load_engine (Suc m)"
    by (simp add: bump_engine_def set_book_def load_engine_def bump_def)
  from assms(1) [unfolded load_command_def] show ?thesis
    using load_valid [OF assms(2)] load_fresh [OF assms(2)]
    by (elim spec_submitE) (auto simp: key book sequence load_submit engine simp del: of_nat_Suc)
qed

lemma load_run:
  assumes "m < 2 ^ 64"
  shows "abs_engine (reachable_engine (load_commands 0 m)) = load_engine m \<and>
    run_events (load_commands 0 m) initial_engine =
      concat (map (\<lambda>k. [Submit_accepted (make_key 1 (word_of_nat k)), load_event k]) [1..<Suc m])"
  using assms
proof (induction m)
  case 0
  then show ?case by (simp add: load_commands_def reachable_engine_def abs_initial_engine initial_spec_engine_def load_engine_def)
next
  case (Suc m)
  let ?e = "reachable_engine (load_commands 0 m)"
  have cs: "load_commands 0 (Suc m) = load_commands 0 m @ [load_command (Suc m)]" by (simp add: load_commands_def)
  obtain e' r where x: "engine_execute (load_command (Suc m)) ?e = (e', Inr r)" "engine_ok e'"
    "spec_step (abs_engine ?e) (load_command (Suc m)) r (abs_engine e')" using engine_execute_sim [OF reachable_ok] .
  with Suc load_step [of m r "abs_engine e'"]
  have step: "r = Events [Submit_accepted (make_key 1 (word_of_nat (Suc m))), load_event (Suc m)]"
    "abs_engine e' = load_engine (Suc m)" by simp_all
  have "reachable_engine (load_commands 0 (Suc m)) = e'"
    using x(1) by (cases "engine_run (load_commands 0 m) initial_engine") (simp add: cs reachable_engine_def engine_run_append)
  moreover have "run_events (load_commands 0 (Suc m)) initial_engine =
      run_events (load_commands 0 m) initial_engine @ [Submit_accepted (make_key 1 (word_of_nat (Suc m))), load_event (Suc m)]"
    using x(1) by (simp add: cs step(1) reachable_engine_def [symmetric] split: prod.splits)
  ultimately show ?case using Suc step(2) by simp
qed

definition load_update :: "nat \<Rightarrow> book_update" where
  "load_update k = \<lparr>bu_instrument = Md_symbol_id 1, bu_direction = Md_buy, bu_best_price = Some 100,
     bu_aggregate_size = word_of_nat k\<rparr>"

lemma load_updates:
  assumes "m < 2 ^ 64"
  shows "updates_of (run_events (load_commands 0 m) initial_engine) = map load_update [1..<Suc m]"
proof -
  have "updates_of (concat (map (\<lambda>k. [Submit_accepted (make_key 1 (word_of_nat k)), load_event k]) ks)) = map load_update ks" for ks
    by (induction ks) (simp_all add: load_event_def load_update_def to_book_update_def)
  then show ?thesis using load_run [OF assms] by simp
qed

lemma load_slice:
  assumes "f + c < 2 ^ 64"
  shows "updates_of (run_events (load_commands f (f + c)) (reachable_engine (load_commands 0 f))) =
    map load_update [Suc f..<Suc (f + c)]"
proof -
  have "map load_update [1..<Suc f] @ updates_of (run_events (load_commands f (f + c)) (reachable_engine (load_commands 0 f))) =
      updates_of (run_events (load_commands 0 (f + c)) initial_engine)"
    using load_updates [of f] assms load_commands_split [of 0 f "f + c"] by (simp add: reachable_engine_def)
  also have "\<dots> = map load_update [1..<Suc f] @ map load_update [Suc f..<Suc (f + c)]"
    using load_updates [OF assms] upt_add_eq_append [of 1 "Suc f" c] by (simp del: upt_Suc)
  finally show ?thesis by (simp del: upt_Suc)
qed

end
