(* ===== verification/Simulator_Properties.thy ===== *)
theory Simulator_Properties
  imports Load_Engine
begin

text \<open>
  The load of the simulator: whatever the bursts, the engine executes each order once, in order, and the
  network receives one datagram for each.
\<close>

subsection \<open>A network that takes every datagram\<close>

definition delivers :: "('net \<Rightarrow> u8 list list) \<Rightarrow> 'net udp_ops \<Rightarrow> bool" where
  "delivers log udp \<longleftrightarrow>
     (\<forall>net. \<exists>net'. udp_open udp net = (net', Inr ()) \<and> log net' = log net) \<and>
     (\<forall>destination bytes net. \<exists>net'. udp_send_to udp destination bytes net = (net', Inr (length bytes)) \<and>
        log net' = log net @ [bytes])"

lemma wire_net_delivers: "delivers id wire_net"
  by (simp add: delivers_def wire_net_def)

lemma delivers_sends: "delivers log udp \<Longrightarrow> sends log udp"
  unfolding delivers_def sends_def by (metis Inr_inject order_refl prod.inject take_all)

lemma publish_loop_returns:
  assumes "endian ops" and "delivers log udp"
    and "\<forall>u \<in> set (updates_of events). update_valid u"
    and "0 < encoder_position (mp_encoder p)" "encoder_position (mp_encoder p) + length (updates_of events) \<le> 2 ^ 64"
  shows "\<exists>s r. publish_loop ops udp events result (p, net) = (s, Inr r)"
  using assms(3-5)
proof (induction events arbitrary: result p net)
  case Nil
  then show ?case by simp
next
  case (Cons ev events)
  let ?e = "mp_encoder p"
  show ?case
  proof (cases "event_update ev")
    case None
    then show ?thesis using Cons by (simp add: event_encode)
  next
    case (Some u)
    have pos: "encoder_position ?e < 2 ^ 64" using Cons.prems(3) Some by simp
    then have ex: "\<not> fe_sequence_exhausted ?e" by (auto simp: encoder_position_def)
    then have "fe_next_sequence ?e \<noteq> 0" using Cons.prems(2) by (auto simp: encoder_position_def)
    moreover have "update_valid u" using Cons.prems(1) Some by simp
    ultimately obtain bytes where enc: "encode ops \<lparr>pk_sequence = fe_next_sequence ?e, pk_payload = Book_update_message u\<rparr> = Inr bytes"
      using endian.encode_wire [OF assms(1)] by simp
    obtain e d where e: "encode_update ops u ?e = (e, Inr (Some d))"
      using ex enc by (simp add: encode_update_def Let_def)
    from encode_update_Some [OF e] have e': "encoder_position e = Suc (encoder_position ?e)" by blast
    obtain net1 where "udp_send_to udp (mp_destination p) (ed_bytes d) net = (net1, Inr (length (ed_bytes d)))"
      using assms(2) unfolding delivers_def by blast
    then obtain result1 where "publish_datagram udp (mp_destination p) d result net = (net1, Inr result1)"
      by (simp add: publish_datagram_def)
    then show ?thesis
      using Cons.IH [of "p\<lparr>mp_encoder := e\<rparr>" result1 net1] Cons.prems Some e e' by (simp add: event_encode)
  qed
qed

text \<open>A publish that fails on such a network has sent the first of its datagrams, each whole.\<close>

lemma publish_loop_prefix:
  assumes "endian ops" and "delivers log udp" and "publish_loop ops udp events result (p, net) = ((p', net'), r)"
  shows "\<exists>sent j. j \<le> length (updates_of events) \<and> log net' = log net @ sent \<and>
    map (decode ops) sent = map Inr (stream (encoder_position (mp_encoder p)) (take j (updates_of events)))"
  using assms(3)
proof (induction events arbitrary: result p net)
  case Nil
  then show ?case by simp
next
  case (Cons ev events)
  let ?n = "encoder_position (mp_encoder p)"
  obtain e en where en: "feed_encode ops ev (mp_encoder p) = (e, en)" by fastforce
  show ?case
  proof (cases "event_update ev")
    case None
    then show ?thesis using Cons.IH [of result p net] Cons.prems en by (auto simp: event_encode)
  next
    case (Some u)
    show ?thesis
    proof (cases en)
      case (Inl f)
      then show ?thesis using Cons.prems en by (auto intro: exI [of _ "0 :: nat"])
    next
      case (Inr x)
      with Some en obtain d where d: "encode_update ops u (mp_encoder p) = (e, Inr (Some d))" and x: "x = Some d"
        by (auto simp: event_encode encode_update_def Let_def split: sum.splits option.splits if_splits)
      from encode_update_Some [OF d] have b: "encode ops (update_packet ?n u) = Inr (ed_bytes d)" "encoder_position e = Suc ?n"
        by force+
      obtain net1 where net1: "udp_send_to udp (mp_destination p) (ed_bytes d) net = (net1, Inr (length (ed_bytes d)))"
        "log net1 = log net @ [ed_bytes d]" using assms(2) unfolding delivers_def by blast
      then obtain result1 where "publish_loop ops udp events result1 (p\<lparr>mp_encoder := e\<rparr>, net1) = ((p', net'), r)"
        using Cons.prems by (auto simp: en Inr x publish_datagram_def)
      from Cons.IH [OF this] obtain sent j where "j \<le> length (updates_of events)" "log net' = log net1 @ sent"
        "map (decode ops) sent = map Inr (stream (Suc ?n) (take j (updates_of events)))" by (auto simp: b(2))
      then show ?thesis using net1(2) endian.decode_encoded [OF assms(1) b(1)] Some
        by (intro exI [of _ "ed_bytes d # sent"] exI [of _ "Suc j"]) simp
    qed
  qed
qed

lemma load_update_valid: "0 < k \<Longrightarrow> k < 2 ^ 64 \<Longrightarrow> update_valid (load_update k)"
  by (simp add: update_valid_def load_update_def word_less_nat_alt unsigned_of_nat take_bit_nat_eq_self)

text \<open>There is memory for the events of every burst of a load.\<close>

definition has_room :: "memory \<Rightarrow> u64 \<Rightarrow> u64 \<Rightarrow> bool" where
  "has_room mem burst message_count \<longleftrightarrow>
     (\<forall>c. c \<le> burst \<and> c \<le> message_count \<longrightarrow> reserve_events mem (c * 2) = Inr ())"

subsection \<open>Bursts\<close>

text \<open>
  The network, which had received \<open>before\<close>, received exactly one datagram for each of the first \<open>j\<close> orders, in
  order: the bid at 100 with one more in total, under consecutive sequences from \<open>pos\<close>.
\<close>

definition sent_once :: "endian_ops \<Rightarrow> ('net \<Rightarrow> u8 list list) \<Rightarrow> nat \<Rightarrow> u8 list list \<Rightarrow> nat \<Rightarrow> 'net \<Rightarrow> bool" where
  "sent_once ops log pos before j net \<longleftrightarrow>
     (\<exists>sent. log net = before @ sent \<and> map (decode ops) sent = map Inr (stream pos (map load_update [1..<Suc j])))"

lemma sent_once_more:
  assumes "sent_once ops log pos before f net" and "log net' = log net @ sent" and "j \<le> c"
    and "map (decode ops) sent = map Inr (stream (pos + f) (take j (map load_update [Suc f..<Suc (f + c)])))"
  shows "sent_once ops log pos before (f + j) net'"
proof -
  have "take j [Suc f..<Suc (f + c)] = [Suc f..<Suc (f + j)]" using assms(3) take_upt [of "Suc f" j "Suc (f + c)"] by simp
  moreover have "[1..<Suc (f + j)] = [1..<Suc f] @ [Suc f..<Suc (f + j)]" using upt_add_eq_append [of 1 "Suc f" j] by simp
  ultimately have us: "map load_update [1..<Suc f] @ take j (map load_update [Suc f..<Suc (f + c)]) = map load_update [1..<Suc (f + j)]"
    by (simp add: take_map del: upt_Suc)
  obtain sent0 where "log net = before @ sent0" "map (decode ops) sent0 = map Inr (stream pos (map load_update [1..<Suc f]))"
    using assms(1) unfolding sent_once_def by blast
  then show ?thesis using assms(2,4) unfolding sent_once_def us [symmetric]
    by (intro exI [of _ "sent0 @ sent"]) (simp add: stream_append del: upt_Suc)
qed

text \<open>
  The simulation after \<open>f\<close> orders of a load that began at sequence \<open>pos\<close>, when the network had received
  \<open>before\<close>.
\<close>

definition load_at ::
  "('q runner \<Rightarrow> bool) \<Rightarrow> endian_ops \<Rightarrow> ('net \<Rightarrow> u8 list list) \<Rightarrow> nat \<Rightarrow> u8 list list \<Rightarrow> nat \<Rightarrow> ('q, 'net) simulation \<Rightarrow> bool" where
  "load_at ready ops log pos before f s \<longleftrightarrow>
     ready (sim_runner s) \<and> rn_engine (sim_runner s) = reachable_engine (load_commands 0 f) \<and>
     encoder_position (mp_encoder (sim_publisher s)) = pos + f \<and>
     sent_once ops log pos before f (sim_net s)"

definition burst_result :: "nat \<Rightarrow> nat \<Rightarrow> nat \<Rightarrow> publish_result" where
  "burst_result pos f c = count_published (pos + f) c empty_publish_result"

lemma burst_result_0 [simp]: "burst_result pos f 0 = empty_publish_result"
  by (simp add: burst_result_def count_published_def)

lemma add_burst:
  assumes "0 < c" "f + c < 2 ^ 64"
  shows "add_result (burst_result pos 0 f) (burst_result pos f c) = burst_result pos 0 (f + c)"
proof -
  have "(word_of_nat k :: u64) = 0 \<longleftrightarrow> k = 0" if "k < 2 ^ 64" for k
    using that by (simp add: word_unat_eq_iff unsigned_of_nat take_bit_nat_eq_self)
  with assms show ?thesis
    by (simp add: burst_result_def count_published_def add_result_def empty_publish_result_def algebra_simps)
qed

text \<open>The counter of a load does not wrap, whatever the burst size, up to \<open>2 ^ 63\<close> messages.\<close>

definition counter_fits :: "u64 \<Rightarrow> u64 \<Rightarrow> bool" where
  "counter_fits burst message_count \<longleftrightarrow>
     unat message_count \<le> 2 ^ 63 \<or> unat message_count + unat burst < 2 ^ 64"

lemma counter_step:
  assumes "counter_fits burst message_count" and "first = 0 \<or> burst \<le> first" and "unat first < unat message_count"
  shows "unat (first + burst) = unat first + unat burst"
proof -
  have "unat first + unat burst < 2 ^ 64"
    using assms unat_less_exp [of burst] by (auto simp: counter_fits_def word_le_nat_alt)
  then show ?thesis by (simp add: unat_add_lem [symmetric])
qed

context queue_factory
begin

lemma burst_submitted:
  assumes "load_at (ready t) eops log pos before f s" and "unat first = f"
  shows "\<exists>r. submit_burst ops t first 0 c [] s = Some (s\<lparr>sim_runner := r\<rparr>,
      Inr (run_events (load_commands f (f + c)) (reachable_engine (load_commands 0 f)))) \<and>
    ready t r \<and> rn_engine r = reachable_engine (load_commands 0 (f + c))"
proof -
  let ?cs = "load_commands f (f + c)"
  have s: "ready t (sim_runner s)" "rn_engine (sim_runner s) = reachable_engine (load_commands 0 f)"
    using assms(1) by (auto simp: load_at_def)
  from submit_burst_ready [OF s(1), of first 0 c "[]"] obtain r where r:
    "submit_burst ops t first 0 c [] s = Some (s\<lparr>sim_runner := r\<rparr>, Inr (run_events ?cs (reachable_engine (load_commands 0 f))))"
    "ready t r" "rn_engine r = fst (engine_run ?cs (reachable_engine (load_commands 0 f)))"
    using s(2) assms(2) by (auto simp: reachable_ok)
  have "rn_engine r = reachable_engine (load_commands 0 (f + c))"
    using r(3) load_commands_split [of 0 f "f + c"]
    by (cases "engine_run (load_commands 0 f) initial_engine"; cases "engine_run ?cs (reachable_engine (load_commands 0 f))")
      (simp add: reachable_engine_def engine_run_append)
  with r show ?thesis by blast
qed

text \<open>The events of the orders after the first \<open>f\<close>, published.\<close>

lemma burst_published:
  assumes "endian eops" "sends log udp" "load_at (ready t) eops log pos before f s" "f + c < 2 ^ 64"
    and "publish eops udp (run_events (load_commands f (f + c)) (reachable_engine (load_commands 0 f)))
      (sim_publisher s, sim_net s) = ((p, net), r)"
  shows "case r of
       Inl _ \<Rightarrow> delivers log udp \<longrightarrow> (\<exists>j \<le> f + c. sent_once eops log pos before j net)
     | Inr res \<Rightarrow> res = burst_result pos f c \<and> encoder_position (mp_encoder p) = pos + f + c \<and>
         sent_once eops log pos before (f + c) net"
    and "delivers log udp \<and> 0 < pos \<and> pos + f + c \<le> 2 ^ 64 \<Longrightarrow> returns r"
proof -
  let ?us = "map load_update [Suc f..<Suc (f + c)]" and ?ev = "run_events (load_commands f (f + c)) (reachable_engine (load_commands 0 f))"
  have s: "encoder_position (mp_encoder (sim_publisher s)) = pos + f" "sent_once eops log pos before f (sim_net s)"
    using assms(3) by (auto simp: load_at_def)
  have us: "updates_of ?ev = ?us" by (rule load_slice [OF assms(4)])
  show "case r of
       Inl _ \<Rightarrow> delivers log udp \<longrightarrow> (\<exists>j \<le> f + c. sent_once eops log pos before j net)
     | Inr res \<Rightarrow> res = burst_result pos f c \<and> encoder_position (mp_encoder p) = pos + f + c \<and>
         sent_once eops log pos before (f + c) net"
  proof (cases r)
    case (Inl g)
    have "\<exists>j \<le> f + c. sent_once eops log pos before j net" if ok: "delivers log udp"
    proof -
      from publish_loop_prefix [OF assms(1) ok, of ?ev empty_publish_result "sim_publisher s" "sim_net s"] assms(5)
      obtain sent j where "j \<le> c" "log net = log (sim_net s) @ sent"
        "map (decode eops) sent = map Inr (stream (pos + f) (take j ?us))"
        by (auto simp: publish_def us s(1) simp del: upt_Suc)
      with sent_once_more [OF s(2)] show ?thesis by (intro exI [of _ "f + j"]) simp
    qed
    with Inl show ?thesis by simp
  next
    case (Inr res)
    from publish_stream [OF assms(1,2) assms(5) [unfolded Inr]] obtain sent where sent:
      "log net = log (sim_net s) @ sent" "map (decode eops) sent = map Inr (stream (pos + f) ?us)"
      "encoder_position (mp_encoder p) = pos + f + c" "res = burst_result pos f c"
      by (auto simp: us s(1) burst_result_def simp del: upt_Suc)
    from sent_once_more [OF s(2) sent(1) order_refl] sent(2)
    have "sent_once eops log pos before (f + c) net" by (simp del: upt_Suc)
    with Inr sent(3,4) show ?thesis by simp
  qed
  assume ok: "delivers log udp \<and> 0 < pos \<and> pos + f + c \<le> 2 ^ 64"
  have "\<forall>u \<in> set (updates_of ?ev). update_valid u"
    unfolding us using assms(4) by (auto simp del: upt_Suc intro!: load_update_valid)
  with ok show "returns r"
    using publish_loop_returns [OF assms(1) conjunct1 [OF ok], of ?ev "sim_publisher s" empty_publish_result "sim_net s"] assms(5) s(1)
    by (auto simp: publish_def us simp del: upt_Suc)
qed

lemma burst_step:
  assumes "endian eops" "sends log udp" "load_at (ready t) eops log pos before f s"
    and "unat first = f" "f + unat count < 2 ^ 64"
  shows "\<exists>s' r. publish_burst eops udp mem ops t quiet first count tot s = Some (s', r) \<and> ready t (sim_runner s') \<and>
    (case r of
       Inl _ \<Rightarrow> \<exists>e \<in> {f, f + unat count}. rn_engine (sim_runner s') = reachable_engine (load_commands 0 e) \<and>
         (delivers log udp \<longrightarrow> (\<exists>j \<le> e. sent_once eops log pos before j (sim_net s')))
     | Inr tot' \<Rightarrow> tot' = add_result tot (burst_result pos f (unat count)) \<and>
         load_at (ready t) eops log pos before (f + unat count) s' \<and> (quiet \<longrightarrow> sim_out s' = sim_out s)) \<and>
    (delivers log udp \<and> reserve_events mem (count * 2) = Inr () \<and> 0 < pos \<and> pos + f + unat count \<le> 2 ^ 64 \<longrightarrow> returns r)"
proof (cases "reserve_events mem (count * 2)")
  case (Inl g)
  then show ?thesis using assms(3) by (auto simp: publish_burst_def load_at_def)
next
  case (Inr u)
  let ?ev = "run_events (load_commands f (f + unat count)) (reachable_engine (load_commands 0 f))"
  from burst_submitted [OF assms(3,4)] obtain r where r:
    "submit_burst ops t first 0 (unat count) [] s = Some (s\<lparr>sim_runner := r\<rparr>, Inr ?ev)"
    "ready t r" "rn_engine r = reachable_engine (load_commands 0 (f + unat count))" by blast
  obtain p net result where pub: "publish eops udp ?ev (sim_publisher s, sim_net s) = ((p, net), result)"
    by (metis prod.collapse)
  note published = burst_published [OF assms(1-3,5) pub]
  show ?thesis
  proof (cases result)
    case (Inl g)
    with published r pub \<open>reserve_events mem (count * 2) = Inr u\<close> show ?thesis by (auto simp: publish_burst_def)
  next
    case (Inr res)
    with published(1) r(2,3)
    have "load_at (ready t) eops log pos before (f + unat count) (s\<lparr>sim_runner := r, sim_publisher := p, sim_net := net, sim_out := out\<rparr>)" for out
      by (simp add: load_at_def)
    with published(1) r(1,2) pub Inr \<open>reserve_events mem (count * 2) = Inr u\<close> show ?thesis by (simp add: publish_burst_def)
  qed
qed

text \<open>A load that ended in \<open>s'\<close>, with \<open>e\<close> orders executed; \<open>out\<close> was the output before it.\<close>

definition load_ended ::
  "thread_id \<Rightarrow> endian_ops \<Rightarrow> ('net \<Rightarrow> u8 list list) \<Rightarrow> 'net udp_ops \<Rightarrow> memory \<Rightarrow> u64 \<Rightarrow> u64 \<Rightarrow> nat \<Rightarrow> u8 list list \<Rightarrow> bool \<Rightarrow> string \<Rightarrow>
   ('q, 'net) simulation \<Rightarrow> publish_result outcome \<Rightarrow> nat \<Rightarrow> bool" where
  "load_ended t eops log udp mem burst message_count pos before quiet out s' r e \<longleftrightarrow>
     ready t (sim_runner s') \<and> e \<le> unat message_count \<and> rn_engine (sim_runner s') = reachable_engine (load_commands 0 e) \<and>
     (case r of
        Inl _ \<Rightarrow> delivers log udp \<longrightarrow> (\<exists>j \<le> e. sent_once eops log pos before j (sim_net s'))
      | Inr tot \<Rightarrow> e = unat message_count \<and> tot = burst_result pos 0 e \<and> sent_once eops log pos before e (sim_net s') \<and>
          (quiet \<longrightarrow> sim_out s' = out)) \<and>
     (delivers log udp \<and> has_room mem burst message_count \<and> 0 < pos \<and> pos + unat message_count \<le> 2 ^ 64 \<longrightarrow> returns r)"

text \<open>
  \<open>f\<close> orders are done when the loop reaches \<open>first\<close>, and all of them once it is past the message count.
\<close>

lemma load_bursts_step:
  assumes "endian eops" "sends log udp" "0 < burst" "counter_fits burst message_count" and "first = 0 \<or> burst \<le> first"
    and "load_at (ready t) eops log pos before (min (unat first) (unat message_count)) s"
  shows "\<exists>s' r e. load_bursts eops udp mem ops t quiet burst message_count first (burst_result pos 0 (min (unat first) (unat message_count))) s =
      Some (s', r) \<and> load_ended t eops log udp mem burst message_count pos before quiet (sim_out s) s' r e"
  using assms(5,6)
proof (induction "unat message_count - unat first" arbitrary: first s rule: less_induct)
  case less
  show ?case
  proof (cases "first < message_count")
    case False
    then have "min (unat first) (unat message_count) = unat message_count" by (simp add: word_less_nat_alt)
    with less.prems False show ?thesis
      by (intro exI [of _ s] exI [of _ "Inr (burst_result pos 0 (unat message_count))"] exI [of _ "unat message_count"])
        (simp add: load_bursts.simps load_ended_def load_at_def)
  next
    case True
    define count where "count = min burst (message_count - first)"
    let ?f = "unat first" and ?g = "unat first + unat count"
    have lt: "unat first < unat message_count" using True by (simp add: word_less_nat_alt)
    then have f: "min (unat first) (unat message_count) = ?f" by simp
    have next_first: "unat (first + burst) = ?f + unat burst"
      by (rule counter_step [OF assms(4) less.prems(1) lt])
    have count: "0 < unat count" "?g = min (unat (first + burst)) (unat message_count)" "count \<le> burst" "count \<le> message_count"
      using True lt assms(3) next_first
      by (auto simp: count_def min_def word_less_nat_alt word_le_nat_alt unat_sub)
    have fits: "?g < 2 ^ 64" "?g \<le> unat message_count"
      using count(2) unat_less_exp [of message_count] by linarith+
    have room: "has_room mem burst message_count \<Longrightarrow> reserve_events mem (count * 2) = Inr ()"
      using count(3,4) by (simp add: has_room_def)
    from burst_step [OF assms(1,2) less.prems(2) [unfolded f] refl fits(1), of mem quiet "burst_result pos 0 ?f", unfolded add_burst [OF count(1) fits(1)]]
    obtain s1 r1 where 1: "publish_burst eops udp mem ops t quiet first count (burst_result pos 0 ?f) s = Some (s1, r1)" "ready t (sim_runner s1)"
      "case r1 of Inl _ \<Rightarrow> \<exists>e \<in> {?f, ?g}. rn_engine (sim_runner s1) = reachable_engine (load_commands 0 e) \<and>
         (delivers log udp \<longrightarrow> (\<exists>j \<le> e. sent_once eops log pos before j (sim_net s1)))
       | Inr tot1 \<Rightarrow> tot1 = burst_result pos 0 ?g \<and> load_at (ready t) eops log pos before ?g s1 \<and> (quiet \<longrightarrow> sim_out s1 = sim_out s)"
      "delivers log udp \<and> reserve_events mem (count * 2) = Inr () \<and> 0 < pos \<and> pos + ?f + unat count \<le> 2 ^ 64 \<Longrightarrow> returns r1"
      by blast
    show ?thesis
    proof (cases r1)
      case (Inl x)
      with 1(3) obtain e where "e \<in> {?f, ?g}" "rn_engine (sim_runner s1) = reachable_engine (load_commands 0 e)"
        "delivers log udp \<longrightarrow> (\<exists>j \<le> e. sent_once eops log pos before j (sim_net s1))" by auto
      with Inl 1(1,2,4) True fits(2) lt room show ?thesis unfolding f load_ended_def
        by (intro exI [of _ s1] exI [of _ "Inl x"] exI [of _ e]) (auto simp: load_bursts.simps count_def)
    next
      case (Inr tot1)
      with 1(3) have at: "tot1 = burst_result pos 0 ?g" "load_at (ready t) eops log pos before ?g s1" "quiet \<longrightarrow> sim_out s1 = sim_out s"
        by simp_all
      have "unat message_count - unat (first + burst) < unat message_count - unat first"
        using lt assms(3) next_first by (simp add: word_less_nat_alt)
      moreover have "first + burst = 0 \<or> burst \<le> first + burst" using next_first by (simp add: word_le_nat_alt)
      ultimately obtain s' r e where
        "load_bursts eops udp mem ops t quiet burst message_count (first + burst) tot1 s1 = Some (s', r)"
        "load_ended t eops log udp mem burst message_count pos before quiet (sim_out s1) s' r e"
        using less.hyps at(2) unfolding at(1) count(2) by blast
      with 1(1) Inr True at(3) show ?thesis unfolding f load_ended_def
        by (intro exI [of _ s'] exI [of _ r] exI [of _ e])
          (cases r; auto simp: load_bursts.simps [of _ _ _ _ _ _ _ _ first] count_def)
    qed
  qed
qed

text \<open>A whole load, from a runner that was just started.\<close>

lemma load_ends:
  assumes "endian eops" "sends log udp" "0 < so_burst_size options" "counter_fits (so_burst_size options) message_count"
    and "ready t (sim_runner s)" "rn_engine (sim_runner s) = initial_engine"
  shows "\<exists>s' r e. publish_load eops udp mem ops t options message_count s = Some (s', r) \<and>
    load_ended t eops log udp mem (so_burst_size options) message_count (encoder_position (mp_encoder (sim_publisher s)))
      (log (sim_net s)) (so_quiet options) (sim_out s) s' r e"
proof -
  have start: "load_at (ready t) eops log (encoder_position (mp_encoder (sim_publisher s))) (log (sim_net s))
      (min (unat (0 :: u64)) (unat message_count)) s"
    using assms(5,6) by (simp add: load_at_def sent_once_def load_commands_def reachable_engine_def)
  have none: "burst_result pos 0 (min (unat (0 :: u64)) (unat message_count)) = empty_publish_result" for pos by simp
  show ?thesis
    using load_bursts_step [OF assms(1-4) disjI1 [OF refl] start, of mem "so_quiet options", unfolded none]
    unfolding publish_load_def .
qed

end

subsection \<open>The property\<close>

text \<open>C40: a load publishes each order once. For up to 2 to the 63 messages and any burst size (or a larger count whose sum
  with the burst size is below 2 to the 64), so that the burst counter cannot wrap, a load always returns.
  The engine has executed the first \<open>e\<close> orders of the load, each once and in order. If it returns normally
  these are all its orders, and the network received exactly one datagram for each, in order and under
  consecutive sequences: the bid at 100 with one more in total; the result counts them. If it stops
  with an exception, a network that takes every datagram has received exactly one for each of the first
  orders that were executed, so never two for one. And it does return normally if the network takes every
  datagram, there is memory for the events of a burst and enough sequences are left.\<close>

theorem load_publishes_each_order_once:
  assumes "queue_factory qops contents closed room make_queue" and "endian eops" and "sends log udp"
    and "0 < so_burst_size options" and "counter_fits (so_burst_size options) message_count"
    and "perform_all qops (start_calls t) (make_runner (make_queue 64)) = Some (r0, obs)"
  shows "\<exists>s' r e. publish_load eops udp mem qops t options message_count
        \<lparr>sim_runner = r0, sim_publisher = p, sim_net = net, sim_out = out\<rparr> = Some (s', r) \<and>
    e \<le> unat message_count \<and> rn_engine (sim_runner s') = reachable_engine (load_commands 0 e) \<and>
    (case r of
       Inl _ \<Rightarrow> delivers log udp \<longrightarrow>
         (\<exists>j \<le> e. sent_once eops log (encoder_position (mp_encoder p)) (log net) j (sim_net s'))
     | Inr total_result \<Rightarrow> e = unat message_count \<and>
         sent_once eops log (encoder_position (mp_encoder p)) (log net) e (sim_net s') \<and>
         total_result = count_published (encoder_position (mp_encoder p)) e empty_publish_result) \<and>
    (delivers log udp \<and> has_room mem (so_burst_size options) message_count \<and> 0 < encoder_position (mp_encoder p) \<and>
       encoder_position (mp_encoder p) + unat message_count \<le> 2 ^ 64 \<longrightarrow> returns r)"
proof -
  let ?s = "\<lparr>sim_runner = r0, sim_publisher = p, sim_net = net, sim_out = out\<rparr>"
  have "queue_factory.ready contents closed room t (sim_runner ?s) \<and> rn_engine (sim_runner ?s) = initial_engine"
    using queue_factory.started_ready [OF assms(1), of 64 t] assms(6) by auto
  then obtain s' r e where "publish_load eops udp mem qops t options message_count ?s = Some (s', r)"
    "queue_factory.load_ended contents closed room t eops log udp mem (so_burst_size options) message_count
      (encoder_position (mp_encoder p)) (log net) (so_quiet options) out s' r e"
    using queue_factory.load_ends [OF assms(1-5), of t ?s mem] by auto
  then show ?thesis unfolding queue_factory.load_ended_def [OF assms(1)]
    by (intro exI [of _ s'] exI [of _ r] exI [of _ e]) (cases r; auto simp: burst_result_def)
qed

definition two_messages :: simulator_options where
  "two_messages = default_simulator_options\<lparr>so_message_count := Some 2, so_burst_size := 1\<rparr>"

text \<open>Memory for at most 16 events.\<close>

definition small_memory :: memory where
  "small_memory = \<lparr>mem_max_size = 2 ^ 58, mem_available = \<lambda>n. n \<le> 16\<rparr>"

lemma small_memory_room:
  assumes "burst \<le> 8"
  shows "has_room small_memory burst message_count"
  unfolding has_room_def
proof clarify
  fix c assume "c \<le> burst"
  with assms have "unat c \<le> 8" by (simp add: word_le_nat_alt)
  then have "unat (c * 2) \<le> 16" by (simp add: unat_word_ariths)
  then show "reserve_events small_memory (c * 2) = Inr ()"
    by (simp add: reserve_events_def small_memory_def word_le_nat_alt word_less_nat_alt)
qed

lemma load_publishes_each_order_once_witness:
  "\<exists>r0 obs s' tot. perform_all bounded_ops (start_calls 0) (make_runner (new_bounded_queue 64)) = Some (r0, obs) \<and>
     publish_load network_order wire_net small_memory bounded_ops 0 two_messages 2
       \<lparr>sim_runner = r0, sim_publisher = new_publisher, sim_net = [], sim_out = []\<rparr> = Some (s', Inr tot) \<and>
     map (decode network_order) (sim_net s') = map Inr (stream 1 [load_update 1, load_update 2])"
proof -
  from factory.started_ready [of 64 0] obtain r0 obs where
    start: "perform_all bounded_ops (start_calls 0) (make_runner (new_bounded_queue 64)) = Some (r0, obs)" by auto
  have burst: "0 < so_burst_size two_messages" "counter_fits (so_burst_size two_messages) 2"
    "has_room small_memory (so_burst_size two_messages) 2"
    by (simp_all add: two_messages_def small_memory_room counter_fits_def)
  have pos: "encoder_position (mp_encoder new_publisher) = 1" by (simp add: new_publisher_def encoder_position_def)
  have two: "[1..<Suc (unat (2 :: u64))] = [1, 2]" by (simp add: upt_rec)
  have sent: "map load_update [1..<Suc (unat (2 :: u64))] = [load_update 1, load_update 2]" unfolding two by simp
  from load_publishes_each_order_once [OF factory.queue_factory_axioms network.endian_axioms wire_net_sends burst(1,2) start,
      of small_memory new_publisher "[]" "[]"] obtain s' r e where
    "publish_load network_order wire_net small_memory bounded_ops 0 two_messages 2
      \<lparr>sim_runner = r0, sim_publisher = new_publisher, sim_net = [], sim_out = []\<rparr> = Some (s', r)" "returns r"
    "case r of Inl _ \<Rightarrow> True | Inr tot \<Rightarrow>
       map (decode network_order) (sim_net s') = map Inr (stream 1 (map load_update [1..<Suc (unat (2 :: u64))]))"
    using burst(3) wire_net_delivers unfolding pos by (fastforce simp: sent_once_def simp del: upt_Suc split: sum.splits)
  then show ?thesis unfolding sent using start by (cases r) auto
qed

end
