(* ===== verification/Simulator_Program.thy ===== *)
theory Simulator_Program
  imports Simulator_Properties
begin

text \<open>
  The simulator as a program: what its parsed options guarantee, and what a run of the program with a message
  count sends and prints when the network takes every datagram and there is memory for a burst.
\<close>

subsection \<open>The program\<close>

text \<open>Message count and burst size are positive once they are parsed.\<close>

definition positive_options :: "simulator_options \<Rightarrow> bool" where
  "positive_options options \<longleftrightarrow> 0 < so_burst_size options \<and> so_message_count options \<noteq> Some 0"

lemma parse_integer_positive: "parse_integer w name False = Inr n \<Longrightarrow> n \<noteq> 0"
  by (auto simp: parse_integer_def split: prod.splits if_splits)

lemma positive_options_updates [simp]:
  "positive_options (options\<lparr>so_message_count := Some n\<rparr>) \<longleftrightarrow> 0 < so_burst_size options \<and> n \<noteq> 0"
  "positive_options (options\<lparr>so_burst_size := n\<rparr>) \<longleftrightarrow> 0 < n \<and> so_message_count options \<noteq> Some 0"
  "positive_options (options\<lparr>so_interval_microseconds := n\<rparr>) = positive_options options"
  "positive_options (options\<lparr>so_quiet := b\<rparr>) = positive_options options"
  "positive_options (options\<lparr>so_group := w\<rparr>) = positive_options options"
  "positive_options (options\<lparr>so_port := k\<rparr>) = positive_options options"
  by (simp_all add: positive_options_def)

lemma parse_value_positive:
  assumes "argument \<in> {''--messages'', ''--burst-size'', ''--interval-us''}" "positive_options options"
    and "parse_simulator_arguments (argument # v # rest) i options = Inr options'"
  shows "\<exists>options1. parse_simulator_arguments rest i options1 = Inr options' \<and> positive_options options1"
proof -
  have pos: "0 < so_burst_size options" "so_message_count options \<noteq> Some 0" using assms(2) by (simp_all add: positive_options_def)
  from assms(1) consider "argument = ''--messages''" | "argument = ''--burst-size''" | "argument = ''--interval-us''" by blast
  then show ?thesis
  proof cases
    case 1
    with assms(3) obtain n where n: "parse_integer v ''message count'' False = Inr n"
      "parse_simulator_arguments rest i (options\<lparr>so_message_count := Some n\<rparr>) = Inr options'"
      by (simp split: sum.splits)
    with parse_integer_positive [OF n(1)] pos show ?thesis
      by (intro exI [of _ "options\<lparr>so_message_count := Some n\<rparr>"]) simp
  next
    case 2
    with assms(3) obtain n where n: "parse_integer v ''burst size'' False = Inr n"
      "parse_simulator_arguments rest i (options\<lparr>so_burst_size := n\<rparr>) = Inr options'"
      by (simp split: sum.splits)
    with parse_integer_positive [OF n(1)] pos show ?thesis
      by (intro exI [of _ "options\<lparr>so_burst_size := n\<rparr>"]) (simp add: word_neq_0_conv)
  next
    case 3
    with assms(3) obtain n where n: "parse_simulator_arguments rest i (options\<lparr>so_interval_microseconds := n\<rparr>) = Inr options'"
      by (simp split: sum.splits)
    with assms(2) show ?thesis by (intro exI [of _ "options\<lparr>so_interval_microseconds := n\<rparr>"]) simp
  qed
qed

lemma parse_other_positive:
  assumes "argument \<notin> {''--messages'', ''--burst-size'', ''--interval-us''}" "positive_options options"
    and "parse_simulator_arguments (argument # rest) i options = Inr options'"
  shows "\<exists>j options1. parse_simulator_arguments rest j options1 = Inr options' \<and> positive_options options1"
proof -
  from assms(1,3) consider "parse_simulator_arguments rest i (options\<lparr>so_quiet := True\<rparr>) = Inr options'"
    | "parse_simulator_arguments rest (i + 1) (options\<lparr>so_group := argument\<rparr>) = Inr options'"
    | n where "parse_simulator_arguments rest (i + 1) (options\<lparr>so_port := n\<rparr>) = Inr options'"
    by (subst (asm) parse_simulator_arguments.simps, simp only: if_False split: if_splits sum.splits) (blast | simp)+
  then show ?thesis using assms(2) by cases (metis positive_options_updates)+
qed

lemma parse_simulator_arguments_positive:
  assumes "parse_simulator_arguments arguments i options = Inr options'" "positive_options options"
  shows "positive_options options'"
  using assms
proof (induction arguments arbitrary: i options rule: length_induct)
  case (1 arguments)
  show ?case
  proof (cases arguments)
    case Nil
    then show ?thesis using 1(2,3) by simp
  next
    case (Cons argument rest)
    show ?thesis
    proof (cases "argument \<in> {''--messages'', ''--burst-size'', ''--interval-us''}")
      case True
      then obtain v rest' where rest: "rest = v # rest'" using 1(2) Cons by (cases rest) simp_all
      from parse_value_positive [OF True 1(3) 1(2) [unfolded Cons rest]] 1(1) [rule_format, of rest'] show ?thesis
        by (auto simp: Cons rest)
    next
      case False
      from parse_other_positive [OF False 1(3) 1(2) [unfolded Cons]] 1(1) [rule_format, of rest] show ?thesis
        by (auto simp: Cons)
    qed
  qed
qed

lemma parsed_options_positive: "parse_simulator_options arguments = Inr options \<Longrightarrow> positive_options options"
  unfolding parse_simulator_options_def
  by (erule parse_simulator_arguments_positive) (simp add: positive_options_def default_simulator_options_def)

lemma make_publisher_delivers:
  assumes "delivers log udp"
  shows "\<exists>net1 p. make_multicast_publisher udp destination net = (net1, Inr p) \<and> log net1 = log net \<and>
    encoder_position (mp_encoder p) = 1"
proof -
  from assms obtain net1 where "udp_open udp net = (net1, Inr ())" "log net1 = log net" unfolding delivers_def by blast
  then show ?thesis by (simp add: make_multicast_publisher_def make_feed_encoder_def encoder_position_def)
qed

context queue_factory
begin

lemma simulator_main_delivers:
  assumes "endian eops" "delivers log udp" "log net = []"
    and "parse_simulator_options arguments = Inr options" "so_message_count options = Some message_count"
    and "counter_fits (so_burst_size options) message_count" "has_room mem (so_burst_size options) message_count"
    and "so_quiet options"
  shows "\<exists>net'. simulator_main eops udp mem timing ops make_queue t arguments net =
      Some (publisher_summary timing options (burst_result 1 0 (unat message_count)), [], net', 0) \<and>
    map (decode eops) (log net') = map Inr (stream 1 (map load_update [1..<Suc (unat message_count)]))"
proof -
  have positive: "0 < so_burst_size options"
    using parsed_options_positive [OF assms(4)] by (simp add: positive_options_def)
  obtain net1 p where p: "make_multicast_publisher udp \<lparr>md_group = so_group options, md_port = so_port options\<rparr> net = (net1, Inr p)"
    "log net1 = []" "encoder_position (mp_encoder p) = 1" using make_publisher_delivers [OF assms(2)] assms(3) by metis
  obtain r0 obs where r0: "perform_all ops (start_calls t) (make_runner (make_queue 64)) = Some (r0, obs)" "ready t r0"
    "rn_engine r0 = initial_engine" using started_ready [of 64 t] by auto
  let ?s = "\<lparr>sim_runner = r0, sim_publisher = p, sim_net = net1, sim_out = []\<rparr>"
  have "1 + unat message_count \<le> 2 ^ 64" using unat_less_exp [of message_count] by simp
  moreover obtain s' r e where
    "publish_load eops udp mem ops t options message_count ?s = Some (s', r)"
    "load_ended t eops log udp mem (so_burst_size options) message_count 1 [] (so_quiet options) [] s' r e"
    using load_ends [OF assms(1) delivers_sends [OF assms(2)] positive assms(6), of t ?s mem] r0(2,3) p(2,3) by auto
  ultimately have "publish_load eops udp mem ops t options message_count ?s = Some (s', r)" "returns r" "ready t (sim_runner s')"
    "case r of Inl _ \<Rightarrow> True | Inr tot \<Rightarrow> tot = burst_result 1 0 (unat message_count) \<and>
       sent_once eops log 1 [] (unat message_count) (sim_net s') \<and> sim_out s' = []"
    using assms(2,7,8) unfolding load_ended_def by (cases r; auto)+
  then have s': "publish_load eops udp mem ops t options message_count ?s = Some (s', Inr (burst_result 1 0 (unat message_count)))"
    "sent_once eops log 1 [] (unat message_count) (sim_net s')" "sim_out s' = []" "ready t (sim_runner s')"
    by (cases r; simp)+
  from stopped_ready [of t "sim_runner s'"] s'(4) obtain stopped where
    "perform_all ops (stop_calls t) (sim_runner s') = Some stopped" by auto
  then show ?thesis using assms(4,5) p(1) r0(1) s'
    by (auto simp: simulator_main_def simulator_run_def sent_once_def simp del: upt_Suc)
qed

end

end
