(* ===== verification/Feed_Programs.thy ===== *)
theory Feed_Programs
  imports Simulator_Program Listener_Properties
begin

text \<open>
  The simulator and the listener as two programs joined by a network that carries every datagram, in order:
  what the listener does with an uninterrupted stream. The property is in the root theory.
\<close>

subsection \<open>An uninterrupted stream\<close>

text \<open>A processor that waits for \<open>n\<close>, or for any first packet, and has nothing pending.\<close>

definition waits_for :: "nat \<Rightarrow> processor \<Rightarrow> bool" where
  "waits_for n b \<longleftrightarrow> sq_pending b = [] \<and> \<not> sq_sequence_exhausted b \<and>
     (sq_next_sequence b = None \<or> sq_next_sequence b = Some (word_of_nat n))"

lemma process_in_order:
  assumes "waits_for n b" "Suc n < 2 ^ 64"
  shows "process (pure_consumer f) (update_packet n u) (b, c) =
      ((advance_after (word_of_nat n) b, f (update_packet n u) c), Inr \<lparr>pr_ordering = Ready, pr_packets_delivered = 1\<rparr>) \<and>
    waits_for (Suc n) (advance_after (word_of_nat n) b)"
proof -
  have "unat (word_of_nat n :: u64) = n" using assms(2) by (simp add: unsigned_of_nat take_bit_nat_eq_self)
  then have last: "(word_of_nat n :: u64) \<noteq> - 1" using assms(2) minus_one_unat by fastforce
  have ready: "push (word_of_nat n) p b = (advance_after (word_of_nat n) b, Ready)" for p
    using assms(1) by (auto simp: waits_for_def push_def)
  have waits: "waits_for (Suc n) (advance_after (word_of_nat n) b)"
    using assms(1) last by (simp add: waits_for_def add.commute)
  then have "pop_ready (advance_after (word_of_nat n) b) = (advance_after (word_of_nat n) b, None)"
    by (simp add: pop_ready_def waits_for_def del: advance_after_simps)
  then show ?thesis using waits by (simp add: process_pure_eq ready update_packet_def drain_ready_step(1))
qed

lemma listen_in_order:
  assumes "waits_for n (ls_processor s)" "n + length us < 2 ^ 64" "lo_stop_after options = None" "\<not> lo_quiet options"
  shows "\<exists>b. waits_for (n + length us) b \<and>
    listen options (map (\<lambda>p. Arrived (Received_packet p sender)) (stream n us)) s =
      (s\<lparr>ls_processor := b, ls_out := ls_out s @ concat (map print_packet (stream n us)),
         ls_counters := (ls_counters s)\<lparr>lc_datagrams := lc_datagrams (ls_counters s) + of_nat (length us),
           lc_decoded := lc_decoded (ls_counters s) + of_nat (length us), lc_delivered := lc_delivered (ls_counters s) + of_nat (length us)\<rparr>\<rparr>,
       Inr ())"
  using assms(1,2)
proof (induction us arbitrary: n s)
  case Nil
  then show ?case by (intro exI [of _ "ls_processor s"]) simp
next
  case (Cons u us)
  let ?b = "advance_after (word_of_nat n) (ls_processor s)" and ?c = "ls_counters s"
  let ?s1 = "s\<lparr>ls_processor := ?b, ls_out := ls_out s @ print_packet (update_packet n u),
    ls_counters := ?c\<lparr>lc_datagrams := lc_datagrams ?c + 1, lc_decoded := lc_decoded ?c + 1, lc_delivered := lc_delivered ?c + 1\<rparr>\<rparr>"
  from process_in_order [OF Cons.prems(1), of "print_consumer False" u "ls_out s"] Cons.prems(2) assms(4)
  have step: "process (pure_consumer (print_consumer (lo_quiet options))) (update_packet n u) (ls_processor s, ls_out s) =
      ((?b, ls_out s @ print_packet (update_packet n u)), Inr \<lparr>pr_ordering = Ready, pr_packets_delivered = 1\<rparr>)"
    and waits: "waits_for (Suc n) ?b" by (simp_all add: print_consumer_def)
  have round: "listen_round options (Received_packet (update_packet n u) sender) s = (?s1, Inr False)"
    by (simp add: listen_round_def listen_packet_def step stop_reached_def assms(3) Let_def)
  from Cons.IH [of "Suc n" ?s1] waits Cons.prems(2) obtain b where "waits_for (Suc n + length us) b"
    "listen options (map (\<lambda>p. Arrived (Received_packet p sender)) (stream (Suc n) us)) ?s1 =
      (?s1\<lparr>ls_processor := b, ls_out := ls_out ?s1 @ concat (map print_packet (stream (Suc n) us)),
         ls_counters := (ls_counters ?s1)\<lparr>lc_datagrams := lc_datagrams (ls_counters ?s1) + of_nat (length us),
           lc_decoded := lc_decoded (ls_counters ?s1) + of_nat (length us), lc_delivered := lc_delivered (ls_counters ?s1) + of_nat (length us)\<rparr>\<rparr>,
       Inr ())" by auto
  then show ?case by (intro exI [of _ b]) (simp add: round add.assoc)
qed

text \<open>The counters after \<open>n\<close> packets, all delivered at once.\<close>

definition clean_counters :: "nat \<Rightarrow> listener_counters" where
  "clean_counters n = \<lparr>lc_datagrams = of_nat n, lc_decoded = of_nat n, lc_delivered = of_nat n, lc_buffered = 0, lc_rejected = 0,
     lc_truncated = 0, lc_malformed = 0\<rparr>"

lemma listener_run_in_order:
  assumes "1 + length us < 2 ^ 64" "lo_stop_after options = None" "\<not> lo_quiet options"
  shows "\<exists>s. listener_run options (map (\<lambda>p. Arrived (Received_packet p sender)) (stream 1 us)) = (s, Inr 0) \<and>
    ls_out s = concat (map print_packet (stream 1 us)) \<and> ls_err s = [] \<and> ls_counters s = clean_counters (length us)"
proof -
  have start: "waits_for 1 (ls_processor initial_listener)"
    by (simp add: waits_for_def initial_listener_def make_processor_def make_sequenced_buffer_def listener_config_def)
  from listen_in_order [OF start assms(1,2,3), of sender] obtain b where b: "waits_for (1 + length us) b"
    and run: "listen options (map (\<lambda>p. Arrived (Received_packet p sender)) (stream 1 us)) initial_listener =
      (initial_listener\<lparr>ls_processor := b, ls_out := concat (map print_packet (stream 1 us)), ls_counters := clean_counters (length us)\<rparr>, Inr ())"
    by (auto simp: initial_listener_def clean_counters_def)
  have "pending_size b = 0" using b by (simp add: waits_for_def pending_size_def)
  with run show ?thesis by (simp add: listener_run_def report_gap_def initial_listener_def Let_def)
qed

text \<open>The line printed for an update of the load.\<close>

lemma print_load:
  assumes "k < 2 ^ 64"
  shows "print_packet (update_packet k (load_update k)) =
    ''received sequence='' @ decimal k @ '' symbol_id=1 side=buy best_price=100 aggregate_size='' @ decimal k @ newline"
proof -
  have hundred: "decimal 100 = ''100''" "decimal (Suc 0) = ''1''" by code_simp+
  have "unat (word_of_nat k :: u64) = k" using assms by (simp add: unsigned_of_nat take_bit_nat_eq_self)
  then show ?thesis
    by (simp add: print_packet_def update_packet_def load_update_def side_name_def newline_def hundred)
qed

subsection \<open>The network between the programs\<close>

text \<open>The receiving end joins, and each of the datagrams sent arrives once, in order and whole.\<close>

definition carries :: "endian_ops \<Rightarrow> ('net \<Rightarrow> u8 list list) \<Rightarrow> 'rx udp_ops \<Rightarrow> ('net \<Rightarrow> 'rx) \<Rightarrow> bool" where
  "carries ops log udp wire \<longleftrightarrow>
     (\<forall>net subscription. \<exists>rx buffer sender. make_multicast_receiver udp subscription (wire net) = (rx, Inr buffer) \<and>
        receive_arrivals ops udp (length (log net)) (buffer, rx) = map Arrived (map (received_as ops sender) (log net)))"

lemma inbox_carries: "carries ops id inbox_net id"
  unfolding carries_def inbox_receiver id_apply using inbox_arrivals by blast

lemma arrivals_of_stream:
  "map (decode ops) ds = map Inr ps \<Longrightarrow>
   map Arrived (map (received_as ops sender) ds) = map (\<lambda>p. Arrived (Received_packet p sender)) ps"
  by (induction ps arbitrary: ds) (auto simp: received_as_def map_eq_Cons_conv)

lemma load_stream:
  "stream n (map load_update [n..<n + m]) = map (\<lambda>k. update_packet k (load_update k)) [n..<n + m]"
proof (induction m arbitrary: n)
  case (Suc m)
  from Suc [of "Suc n"] show ?case by (simp add: upt_conv_Cons del: upt_Suc)
qed simp

lemma listener_main_in_order:
  assumes "carries eops log udp wire" "map (decode eops) (log net) = map Inr (stream 1 us)" "1 + length us < 2 ^ 64"
    and "install_shutdown_handlers sigaction = Inr ()"
    and "parse_listener_options arguments = Inr options" "lo_stop_after options = None" "\<not> lo_quiet options"
  shows "listener_main eops udp sigaction timing (length us) arguments (wire net) =
    (listening_line options @ concat (map print_packet (stream 1 us)) @ listener_summary timing (clean_counters (length us)), [], 0)"
proof -
  have "length (log net) = length us" using arg_cong [OF assms(2), of length] by simp
  with assms(1) obtain rx buffer sender where
    rx: "make_multicast_receiver udp \<lparr>ms_group = lo_group options, ms_port = lo_port options,
        ms_interface_address = lo_interface_address options\<rparr> (wire net) = (rx, Inr buffer)"
      "receive_arrivals eops udp (length us) (buffer, rx) = map Arrived (map (received_as eops sender) (log net))"
    unfolding carries_def by metis
  from listener_run_in_order [OF assms(3,6,7), of sender] obtain s where
    "listener_run options (map (\<lambda>p. Arrived (Received_packet p sender)) (stream 1 us)) = (s, Inr 0)"
    "ls_out s = concat (map print_packet (stream 1 us))" "ls_err s = []" "ls_counters s = clean_counters (length us)" by blast
  then show ?thesis
    unfolding listener_main_def assms(4,5) sum.case rx prod.case arrivals_of_stream [OF assms(2)] by simp
qed

end
