(* ===== verification/Pipeline.thy ===== *)
theory Pipeline
  imports Engine_Properties Delivery Feed_Properties Top_Of_Book_View Simulator_Properties
begin

text \<open>
  The whole path of a price: engine events, feed encoder, datagrams on the network, processor, view. The
  lemmas here join the components; the property is in the root theory.
\<close>

subsection \<open>Numbered updates\<close>

definition payload_update :: "packet \<Rightarrow> book_update" where
  "payload_update p = (case pk_payload p of Book_update_message u \<Rightarrow> u)"

definition as_numbered :: "packet \<Rightarrow> numbered_update" where
  "as_numbered p = (pk_sequence p, payload_update p)"

lemma as_numbered_packet [simp]: "as_numbered (update_packet n u) = (word_of_nat n, u)"
  by (simp add: as_numbered_def payload_update_def update_packet_def)

lemma stream_sequences: "n + length us \<le> 2 ^ 64 \<Longrightarrow> map seq_of (stream n us) = [n..<n + length us]"
proof (induction us arbitrary: n)
  case Nil
  then show ?case by simp
next
  case (Cons u us)
  then have "seq_of (update_packet n u) = n"
    by (simp add: seq_of_def update_packet_def unsigned_of_nat take_bit_nat_eq_self)
  with Cons.IH [of "Suc n"] Cons.prems show ?case
    by (simp add: upt_conv_Cons [of n "Suc (n + length us)"] del: upt_Suc)
qed

lemma sorted_stream:
  assumes "n + length us \<le> 2 ^ 64"
  shows "sorted_wrt (<) (map fst (map as_numbered (stream n us)))"
proof -
  have "sorted_wrt (<) (map seq_of (stream n us))" using stream_sequences [OF assms] by simp
  then show ?thesis by (simp add: sorted_wrt_map as_numbered_def seq_of_def word_less_nat_alt)
qed

lemma positive_stream:
  assumes "0 < n" and "n + length us \<le> 2 ^ 64" and "x \<in> set (map as_numbered (stream n us))"
  shows "0 < fst x"
proof -
  from assms(3) obtain p where p: "p \<in> set (stream n us)" "x = as_numbered p" by auto
  then have "seq_of p \<in> set (map seq_of (stream n us))" by simp
  then have "0 < seq_of p" using assms(1) unfolding stream_sequences [OF assms(2)] by simp
  then show ?thesis by (simp add: p(2) as_numbered_def seq_of_def word_less_nat_alt)
qed

subsection \<open>Delivery of a complete stream\<close>

lemma complete_stream_delivered:
  assumes first: "pc_first_sequence config = Some 1"
    and kept: "\<not> list_ex dropped (snd (run_processor config ps))"
    and all: "set ps = set (stream 1 us)" and len: "1 + length us \<le> 2 ^ 64"
  shows "delivered config ps = stream 1 us"
proof -
  let ?ds = "delivered config ps"
  obtain b rs where run: "run_processor config ps = ((b, ?ds), rs)" by (metis delivered_def prod.collapse)
  have ok: "delivery_ok (Some 1) ps b ?ds" using run_processor_ok [of config ps] first by (simp add: run)
  have due: "next_due b = Some (1 + length ?ds)" "map seq_of ?ds = [1..<1 + length ?ds]"
    using ok by (simp_all add: delivery_ok_def origin_def)
  have sub: "set ?ds \<subseteq> set (stream 1 us)" using ok all by (auto simp: delivery_ok_def)
  have seqs: "seq_of ` set (stream 1 us) = {1..<1 + length us}"
    using arg_cong [OF stream_sequences [OF len], of set] by (simp del: upt_Suc)
  have acc: "accounted ps b"
    using process_all_accounted [OF make_processor_delivery _ run [unfolded run_processor_def]] kept
    by (simp add: run accounted_def)
  have "\<forall>s \<in> fst ` set (sq_pending b). 1 + length ?ds < unat s"
    using ok due by (simp add: delivery_ok_def settled_def)
  with acc due(1) have "1 + length ?ds \<notin> seq_of ` set ps" by (fastforce simp: accounted_def seq_of_def)
  then have "length us \<le> length ?ds" unfolding all seqs by simp
  moreover have "length ?ds \<le> length us"
  proof (cases "?ds = []")
    case False
    then have "length ?ds \<in> set [1..<1 + length ?ds]" by (cases ?ds) simp_all
    then have "length ?ds \<in> seq_of ` set ?ds" unfolding due(2) [symmetric] by simp
    then have "length ?ds \<in> seq_of ` set (stream 1 us)" using image_mono [OF sub, of seq_of] by (rule rev_subsetD)
    then show ?thesis unfolding seqs by simp
  qed simp
  ultimately have same: "map seq_of ?ds = map seq_of (stream 1 us)"
    using due(2) stream_sequences [OF len] by simp
  have "distinct (map seq_of (stream 1 us))" unfolding stream_sequences [OF len] by simp
  then have "inj_on seq_of (set (stream 1 us))" by (simp add: distinct_map)
  then have "inj_on seq_of (set ?ds \<union> set (stream 1 us))" using sub by (simp add: Un_absorb1)
  with same show ?thesis by (rule map_inj_on)
qed

subsection \<open>The last update of a side\<close>

definition shown_level :: "price option \<times> u64 \<Rightarrow> top_of_book_level option" where
  "shown_level q = map_option (\<lambda>p. \<lparr>tl_price = price_value p, tl_aggregate_size = snd q\<rparr>) (fst q)"

definition feed_side :: "side \<Rightarrow> md_side" where
  "feed_side d = (case d of Buy \<Rightarrow> Md_buy | Sell \<Rightarrow> Md_sell)"

definition blank_snapshot :: "symbol_id \<Rightarrow> top_of_book_snapshot" where
  "blank_snapshot s = \<lparr>ts_instrument = Md_symbol_id (symbol_value s), ts_reference_sequence = 0,
     ts_best_bid = None, ts_best_ask = None\<rparr>"

lemma feed_side_inject [simp]: "feed_side d = feed_side d' \<longleftrightarrow> d = d'"
  by (cases d; cases d') (simp_all add: feed_side_def)

lemma updates_follow_replay:
  assumes "1 + length (updates_of es) \<le> 2 ^ 64"
  shows "last_level (feed_side d) None (relevant (blank_snapshot s) (map as_numbered (stream 1 (updates_of es)))) =
    shown_level (replay es s d)"
  using assms
proof (induction es rule: rev_induct)
  case Nil
  then show ?case by (simp add: relevant_def last_level_def replay_def shown_level_def)
next
  case (snoc e es)
  show ?case
  proof (cases e)
    case (Book_updated i dd p tot)
    let ?n = "1 + length (updates_of es)"
    have len: "?n < 2 ^ 64" using snoc.prems by (simp add: Book_updated)
    have pos: "(0 :: u64) < word_of_nat ?n"
      using len by (simp add: word_less_nat_alt unsigned_of_nat take_bit_nat_eq_self del: of_nat_add of_nat_Suc)
    let ?u = "to_book_update i dd p tot"
    have u: "bu_instrument (to_book_update i dd p tot) = ts_instrument (blank_snapshot s) \<longleftrightarrow> i = s"
      "bu_direction (to_book_update i dd p tot) = feed_side dd"
      "update_level (to_book_update i dd p tot) = shown_level (p, tot)" "ts_reference_sequence (blank_snapshot s) = 0" for i
      by (cases i; cases s; cases p; simp add: to_book_update_def blank_snapshot_def feed_side_def update_level_def shown_level_def)+
    have "updates_of (es @ [e]) = updates_of es @ [?u]" by (simp add: Book_updated)
    then have rel: "relevant (blank_snapshot s) (map as_numbered (stream 1 (updates_of (es @ [e])))) =
        relevant (blank_snapshot s) (map as_numbered (stream 1 (updates_of es))) @ (if i = s then [(word_of_nat ?n, ?u)] else [])"
      using pos by (simp add: stream_append relevant_snoc u del: of_nat_add of_nat_Suc)
    have IH: "last_level (feed_side d) None (relevant (blank_snapshot s) (map as_numbered (stream 1 (updates_of es)))) =
        shown_level (replay es s d)" using snoc.IH len by simp
    have rep: "replay (es @ [e]) s d = (if i = s \<and> dd = d then (p, tot) else replay es s d)"
      by (simp add: replay_def Book_updated)
    show ?thesis
    proof (cases "i = s")
      case True
      then show ?thesis unfolding rel rep if_P [OF True] last_level_snoc u(2,3) feed_side_inject IH by simp
    next
      case False
      then show ?thesis unfolding rel rep if_not_P [OF False] append_Nil2 IH by simp
    qed
  qed (use snoc in \<open>simp_all add: replay_def\<close>)
qed

subsection \<open>The components in sequence\<close>

text \<open>
  Successive \<open>publish\<close> calls by one publisher, each for the events of one batch; what a receiver makes of
  the datagrams that arrive (a malformed one is discarded); and the consumer that applies each
  delivered packet to a view.
\<close>

fun publish_all ::
  "endian_ops \<Rightarrow> 'net udp_ops \<Rightarrow> event list list \<Rightarrow> multicast_publisher \<times> 'net \<Rightarrow>
   (multicast_publisher \<times> 'net) \<times> unit outcome" where
  "publish_all ops udp [] s = (s, Inr ())"
| "publish_all ops udp (events # batches) s =
     (case publish ops udp events s of
        (s', Inl f) \<Rightarrow> (s', Inl f)
      | (s', Inr _) \<Rightarrow> publish_all ops udp batches s')"

definition readable :: "endian_ops \<Rightarrow> u8 list list \<Rightarrow> packet list" where
  "readable ops = List.map_filter (\<lambda>d. case decode ops d of Inl _ \<Rightarrow> None | Inr p \<Rightarrow> Some p)"

definition show_packet :: "packet \<Rightarrow> top_of_book_view \<Rightarrow> top_of_book_view" where
  "show_packet p v = (case pk_payload p of Book_update_message u \<Rightarrow> view_apply (pk_sequence p) u v)"

lemma publish_all_stream:
  assumes "endian ops" "sends log udp" "publish_all ops udp batches (p, net) = ((p', net'), Inr u)"
  shows "\<exists>sent. log net' = log net @ sent \<and>
    map (decode ops) sent = map Inr (stream (encoder_position (mp_encoder p)) (updates_of (concat batches))) \<and>
    encoder_position (mp_encoder p') = encoder_position (mp_encoder p) + length (updates_of (concat batches))"
  using assms(3)
proof (induction batches arbitrary: p net)
  case Nil
  then show ?case by simp
next
  case (Cons events batches)
  then obtain p1 net1 result where
    first: "publish ops udp events (p, net) = ((p1, net1), Inr result)"
    and rest: "publish_all ops udp batches (p1, net1) = ((p', net'), Inr u)"
    by (auto split: prod.splits sum.splits)
  from publish_stream [OF assms(1,2) first] obtain xs where xs: "log net1 = log net @ xs"
    "map (decode ops) xs = map Inr (stream (encoder_position (mp_encoder p)) (updates_of events))"
    "encoder_position (mp_encoder p1) = encoder_position (mp_encoder p) + length (updates_of events)" by blast
  from Cons.IH [OF rest] obtain ys where ys: "log net' = log net1 @ ys"
    "map (decode ops) ys = map Inr (stream (encoder_position (mp_encoder p1)) (updates_of (concat batches)))"
    "encoder_position (mp_encoder p') = encoder_position (mp_encoder p1) + length (updates_of (concat batches))" by blast
  show ?case by (intro exI [of _ "xs @ ys"]) (simp add: xs ys stream_append)
qed

lemma readable_set:
  assumes "map (decode ops) sent = map Inr packets" "set sent \<subseteq> set arrived"
    and "\<forall>d \<in> set arrived. d \<in> set sent \<or> isl (decode ops d)"
  shows "set (readable ops arrived) = set packets"
proof -
  have "set packets = {p. \<exists>d \<in> set sent. decode ops d = Inr p}"
    using arg_cong [OF assms(1), of set] by (auto simp: image_def set_eq_iff) (metis Inr_inject)+
  also have "\<dots> = {p. \<exists>d \<in> set arrived. decode ops d = Inr p}"
    using assms(2,3) by auto
  also have "\<dots> = set (readable ops arrived)"
    by (force simp: readable_def map_filter_def split: sum.splits)
  finally show ?thesis by simp
qed

lemma fold_show_packet: "fold show_packet ds v = apply_all (map as_numbered ds) v"
proof -
  have "payload_update p = u" if "pk_payload p = Book_update_message u" for p u
    using that by (simp add: payload_update_def)
  then show ?thesis
    by (induction ds arbitrary: v)
      (auto simp: apply_all_def show_packet_def as_numbered_def split: message.splits)
qed

text \<open>What a pure consumer of a complete stream ends with, in whatever order the packets arrive.\<close>

lemma complete_stream_folded:
  assumes first: "pc_first_sequence config = Some 1"
    and run: "process_all (pure_consumer f) ps (make_processor config, c) = ((b, c'), rs)"
    and "\<not> list_ex dropped rs" "set ps = set (stream 1 us)" "1 + length us \<le> 2 ^ 64"
  shows "c' = fold f (stream 1 us) c"
proof -
  obtain b0 ds rs0 where collected: "run_processor config ps = ((b0, ds), rs0)" by (metis prod.collapse)
  from process_all_pure [of f ps "make_processor config" "[]" c] have "((b, c'), rs) = folded f c ((b0, ds), rs0)"
    by (simp add: run collected [unfolded run_processor_def])
  then have c': "c' = fold f (delivered config ps) c" "rs = snd (run_processor config ps)"
    by (simp_all add: delivered_def collected)
  with complete_stream_delivered [OF first _ assms(4,5)] assms(3) show ?thesis by simp
qed

subsection \<open>Updates that cannot be published\<close>

text \<open>A price with a total of zero has no encoding, so nothing that contains it is published.\<close>

lemma zero_total_refused: "feed_encode ops (Book_updated s d (Some p) 0) e = (e', Inr r) \<Longrightarrow> False"
  by (auto simp: feed_encode_def encode_update_def to_book_update_def encode_def encode_book_update_def Let_def
      split: if_splits sum.splits)

lemma publish_loop_refused:
  "publish_loop ops udp events result s = (s', Inr result') \<Longrightarrow> Book_updated i d (Some p) 0 \<notin> set events"
proof (induction events arbitrary: result s)
  case (Cons ev events)
  obtain pub net where s: "s = (pub, net)" by fastforce
  obtain e r where en: "feed_encode ops ev (mp_encoder pub) = (e, r)" by fastforce
  with Cons.prems obtain x where r: "r = Inr x" by (cases r) (simp_all add: s)
  have "ev \<noteq> Book_updated i d (Some p) 0" using en r zero_total_refused by fast
  moreover have "Book_updated i d (Some p) 0 \<notin> set events"
    using Cons.prems en r Cons.IH by (auto simp: s split: option.splits prod.splits sum.splits)
  ultimately show ?case by simp
qed simp

lemma publish_all_refused:
  "publish_all ops udp batches s = (s', Inr u) \<Longrightarrow> Book_updated i d (Some p) 0 \<notin> set (concat batches)"
proof (induction batches arbitrary: s)
  case (Cons events batches)
  then obtain s1 result where "publish_loop ops udp events empty_publish_result s = (s1, Inr result)"
    "publish_all ops udp batches s1 = (s', Inr u)"
    by (auto simp: publish_def split: prod.splits sum.splits)
  from publish_loop_refused [OF this(1)] Cons.IH [OF this(2)] show ?case by simp
qed simp

definition best_level :: "order_queue \<Rightarrow> order_queue" where
  "best_level q = takeWhile (\<lambda>e. ro_limit_price (snd e) = ro_limit_price (snd (hd q))) q"

lemma quote_best_level:
  assumes "q \<noteq> []"
  shows "quote q = (Some (ro_limit_price (snd (hd q))), word_of_nat (open_sum (best_level q)))"
proof -
  have "total_open x = word_of_nat (open_sum x)" for x
    by (rule word_unat_eq_iff [THEN iffD2]) (simp add: unat_total_open unsigned_of_nat take_bit_eq_mod)
  then show ?thesis using assms by (cases q) (auto simp: quote_def queue_top_def best_level_def)
qed

text \<open>C21: a wrapped total stops the feed. Whenever a run of the engine leads to a best level whose open
  sizes add up to a multiple of 2 to the 64, the engine has announced that price with a total of zero, and
  no publisher, over whatever network and in whatever batches, publishes the events of that run
  without an exception.\<close>

theorem wrapped_level_stops_the_feed:
  assumes "side_queue (reachable_engine cs) s d \<noteq> []"
    and "2 ^ 64 dvd open_sum (best_level (side_queue (reachable_engine cs) s d))"
    and "concat batches = run_events cs initial_engine"
  shows "Book_updated s d (Some (ro_limit_price (snd (hd (side_queue (reachable_engine cs) s d))))) 0
      \<in> set (run_events cs initial_engine) \<and>
    (\<exists>st f. publish_all ops udp batches (p, net) = (st, Inl f))"
proof -
  let ?q = "side_queue (reachable_engine cs) s d"
  have "(word_of_nat (open_sum (best_level ?q)) :: u64) = 0"
    using assms(2) by (simp add: word_unat_eq_iff unsigned_of_nat take_bit_eq_mod)
  then have "replay (run_events cs initial_engine) s d = (Some (ro_limit_price (snd (hd ?q))), 0)"
    using replay_follows_queue quote_best_level [OF assms(1)] by (simp add: run_events_def)
  from fold_see_source [OF this [unfolded replay_def]]
  have ev: "Book_updated s d (Some (ro_limit_price (snd (hd ?q)))) 0 \<in> set (run_events cs initial_engine)" by simp
  moreover obtain st r where run: "publish_all ops udp batches (p, net) = (st, r)" by fastforce
  ultimately have "r \<noteq> Inr u" for u using publish_all_refused [of ops udp batches "(p, net)" st u] assms(3) by auto
  then obtain f where "r = Inl f" by (cases r) auto
  with ev run show ?thesis by simp
qed

definition two_halves :: "command list" where
  "two_halves = [Submit_command (limit_submit key1 Buy 100 (2 ^ 63)), Submit_command (limit_submit key2 Buy 100 (2 ^ 63))]"

lemma wrapped_level_stops_the_feed_witness:
  "\<exists>st f. publish_all network_order wire_net [run_events two_halves initial_engine] (new_publisher, []) = (st, Inl f)"
proof -
  let ?q = "side_queue (reachable_engine two_halves) (Symbol_id 1) Buy"
  have "map fst ?q = [0, 1]" by code_simp
  then have "?q \<noteq> []" by auto
  have "map (\<lambda>e. open_value (snd e)) (best_level ?q) = [2 ^ 63, 2 ^ 63]" by code_simp
  then have "map (\<lambda>e. unat (open_value (snd e))) (best_level ?q) = [2 ^ 63, 2 ^ 63]"
    by (auto simp: map_eq_Cons_conv)
  then have "open_sum (best_level ?q) = 2 ^ 64" by (simp add: open_sum_def)
  with \<open>?q \<noteq> []\<close> show ?thesis
    using wrapped_level_stops_the_feed [where cs = two_halves and s = "Symbol_id 1" and d = Buy and ops = network_order
        and udp = wire_net and p = new_publisher and net = "[]" and batches = "[run_events two_halves initial_engine]"]
    by (simp del: publish_all.simps)
qed

end
