(* ===== verification/Spec2Isabelle.thy ===== *)
theory Spec2Isabelle
  imports Engine_Properties Codec_Properties Delivery Feed_Properties Top_Of_Book_View Runner_Properties
    Scenario_Properties Writers_Properties Replay_Properties Listener_Properties Simulator_Properties Simulator_Program Feed_Programs Pipeline
begin

text \<open>
  Verification of the Obz Market Lab, a matching engine with a market-data feed.

  \<^bold>\<open>The program.\<close> \<^verbatim>\<open>components/matching/engine\<close> keeps one order book for each symbol, with price-time
  priority, and an index of the active orders; each command gives back events. \<^verbatim>\<open>components/matching/runtime\<close>
  owns an engine on a worker thread and serialises the commands of client threads through a bounded
  blocking queue. \<^verbatim>\<open>components/market_data/protocol\<close> encodes book updates as datagrams;
  \<^verbatim>\<open>components/market_data/feed\<close> numbers and publishes the updates among the engine's events, receives
  and decodes them, puts them in order and shows the top of each book. Three applications put these
  together: \<^verbatim>\<open>apps/market_replay\<close> parses scenario files and prints what the engine replies,
  \<^verbatim>\<open>apps/exchange_feed_simulator\<close> generates load and publishes it, \<^verbatim>\<open>apps/market_data_listener\<close> receives it.

  \<^bold>\<open>Model.\<close> An operation of an object is a function from the object's record and the world it uses to the
  new ones and an outcome: \<open>Inr\<close> a value, \<open>Inl\<close> the exception, or \<open>Undefined_behaviour\<close> where the C++
  program has none (a dangling list iterator, a thread destroyed while it runs). Integers that the program
  computes with have the width of the source and wrap; what counts things the program holds in memory (sizes and positions of
  containers and strings, bytes of a datagram, line numbers, the packets one \<^verbatim>\<open>process\<close> hands on, a limit they are
  compared with) is a natural number, \<^verbatim>\<open>std::map\<close> is an ordered association list with its comparator (\<open>Ordered_Map\<close>),
  \<^verbatim>\<open>std::unordered_map\<close> a partial function, \<^verbatim>\<open>std::list\<close> nodes are numbers that are never reused.

  \<^item> \<open>Prelude\<close>, \<open>Ordered_Map\<close>, \<open>Numeric_Text\<close>: faults and outcomes, ordered maps with the locale
    \<open>comparator\<close>, \<^verbatim>\<open>std::from_chars\<close> and decimal output.
  \<^item> \<open>Matching_Types\<close>, \<open>Order_Book\<close>, \<open>Engine\<close>: \<^verbatim>\<open>types.hpp\<close>, \<^verbatim>\<open>orders.hpp\<close>, \<^verbatim>\<open>events.hpp\<close>, \<^verbatim>\<open>order_book.cpp\<close>,
    \<^verbatim>\<open>engine.cpp\<close>, function by function under the names of the source.
  \<^item> \<open>Matching_Spec\<close>, \<open>Book_Spec\<close>, \<open>Engine_Spec\<close>: the matching rules without levels, handles or index. A
    side is one queue of resting orders; \<open>spec_step\<close> relates a command, the reply and the next state.
  \<^item> \<open>Book_Side\<close>, \<open>Book_Match\<close>, \<open>Book_Refine\<close>, \<open>Engine_Refine\<close>, \<open>Engine_Correct\<close>: the invariants of side, book
    and engine, and the simulation of the abstract engine by the code's, operation by operation.
  \<^item> \<open>Engine_Facts\<close>, \<open>Engine_Properties\<close>: what holds of every state the engine reaches; the induction over
    command sequences is \<open>reachable_induct\<close>.
  \<^item> \<open>Runner\<close>, \<open>Runner_Properties\<close>: \<^verbatim>\<open>runner.cpp\<close> as atomic steps of client calls and of the worker that
    interleave in any order, over a queue with the contract of the locale \<open>blocking_queue\<close>.
  \<^item> \<open>Codec\<close>, \<open>Codec_Properties\<close>: \<^verbatim>\<open>codec.cpp\<close> over byte-order operations with the contract of the locale \<open>endian\<close>.
  \<^item> \<open>Sequenced_Buffer\<close>, \<open>Processor\<close>, \<open>Delivery\<close>: reordering and delivery, with the invariant \<open>delivery_ok\<close>.
  \<^item> \<open>Feed\<close>, \<open>Feed_Properties\<close>, \<open>Top_Of_Book_View\<close>: encoder, publisher, receiver and view.
  \<^item> \<open>Scenario_Parser\<close>, \<open>Scenario_Text\<close>, \<open>Scenario_Properties\<close>, \<open>Writers\<close>, \<open>Writers_Properties\<close>, \<open>Replay\<close>,
    \<open>Replay_Properties\<close>: the replay application, its parser and its two output formats.
  \<^item> \<open>Listener\<close>, \<open>Listener_Properties\<close>, \<open>Simulator\<close>, \<open>Load_Engine\<close>, \<open>Simulator_Properties\<close>, \<open>Simulator_Program\<close>: the two
    feed applications, what their loops count and publish (\<open>Load_Engine\<close>: what the engine announces for the orders of
    a load), and the exact run of the simulator over a network that takes every datagram.
  \<^item> \<open>Feed_Programs\<close>, \<open>Pipeline\<close> and this theory: the two feed programs joined by a network, and the composition
    of engine, publisher, network, processor and view.

  \<^bold>\<open>What is shown.\<close> The engine never faults and implements the matching rules for every command sequence (a
  simulation), from which follow uncrossed books, an exact index, price-time priority, conservation of
  quantity and what each rejection, update and cancel changes. A level's 64-bit total can wrap; when the best
  level's wraps to zero, the feed stops with an exception. The runner serialises requests under
  every interleaving and drains on stop; of the races it does have, it is shown when they happen and that what they lose
  stays lost. The codec is a bijection between valid
  packets and canonical datagrams. The processor delivers without gaps, in bounded memory, and accounts for everything it does not
  refuse. Scenario files load back, and the JSON lines determine the events. For the applications the
  whole output and the exit code are characterised, and two properties here span components: the view
  shows the top of the engine's book at the end of an unreliable path, and the listener prints what the simulator publishes.

  \<^bold>\<open>Bounds.\<close> No definition needs fuel. The matching loops, the drain loop and the parsers are functions with
  a termination proof; \<open>load_bursts\<close> is a partial function, since its counter can wrap, and its property
  proves that it returns when it does not (\<open>counter_fits\<close>: any burst size up to \<open>2 ^ 63\<close> messages). A blocking call that would not return is \<open>None\<close>. Sequence
  numbers, totals of a level and counters of \<^verbatim>\<open>uint64_t\<close> wrap as in the source; where a property needs that
  they do not, it says so.

  \<^bold>\<open>Parameters.\<close> The byte-order functions, the UDP socket and the blocking queue come from the library ObzLib,
  which is not part of the repository: they are arguments (\<open>endian_ops\<close>, \<open>udp_ops\<close>, \<open>queue_ops\<close>), and what the code relies on
  is stated by the locales \<open>endian\<close>, \<open>blocking_queue\<close>, \<open>queue_factory\<close> and, for the socket, by \<open>sends\<close> (always),
  \<open>delivers\<close> and \<open>carries\<close> (a network that loses nothing), each instantiated by a concrete
  function. The memory for the events of a burst, whose size the user chooses, is an argument (\<open>memory\<close>: \<^verbatim>\<open>reserve\<close> throws
  when it has no room). The file system is an argument too, the result of the system call \<^verbatim>\<open>sigaction\<close> is one, and so is the text of the elapsed times and rates the feed
  programs print, which comes from the clock.

  \<^bold>\<open>Not modelled.\<close> Tracing (\<^verbatim>\<open>components/tracing\<close>, macros that record spans and change nothing else); the
  hash functors; the pauses between bursts; the delivery of signals (a signal is the end of
  the calls of \<^verbatim>\<open>receive\<close>; the installation of its handlers is modelled, in the POSIX branch); exhaustion of memory anywhere but in
  that \<^verbatim>\<open>reserve\<close>; enumeration values that only a cast can make; tests, benchmarks, build
  files, scripts and container images.
\<close>

section \<open>The path of a price\<close>

text \<open>C2: the price path from end to end. A fresh publisher publishes, in any batches, the events of a run of
  the engine. The datagrams it sent all arrive somehow: in any order, any number of times, among
  others that do not decode. If the processor, configured to start at sequence 1, dropped none of
  the packets, then a view established from an empty snapshot of a symbol at sequence 0 shows, as
  current, the best price and the total size on both sides of that symbol's book in the engine.\<close>

theorem view_shows_the_top_of_the_book:
  assumes "endian ops" "sends log udp" "encoder_position (mp_encoder p) = 1"
    and "concat batches = run_events cs initial_engine"
    and "publish_all ops udp batches (p, net) = ((p', net'), Inr ())"
    and "set (drop (length (log net)) (log net')) \<subseteq> set arrived"
    and "\<forall>d \<in> set arrived. d \<in> set (drop (length (log net)) (log net')) \<or> isl (decode ops d)"
    and "pc_first_sequence config = Some 1"
    and "process_all (pure_consumer show_packet) (readable ops arrived)
      (make_processor config, establish (blank_snapshot s) v) = ((b, v'), rs)"
    and "\<not> list_ex dropped rs"
  shows "\<exists>n. view_get (Md_symbol_id (symbol_value s)) v' =
    Some \<lparr>ts_instrument = Md_symbol_id (symbol_value s), ts_reference_sequence = n,
      ts_best_bid = shown_level (quote (side_queue (reachable_engine cs) s Buy)),
      ts_best_ask = shown_level (quote (side_queue (reachable_engine cs) s Sell))\<rparr>"
proof -
  let ?us = "updates_of (run_events cs initial_engine)"
  from publish_all_stream [OF assms(1,2,5)] obtain sent where sent: "log net' = log net @ sent"
    "map (decode ops) sent = map Inr (stream 1 ?us)" "encoder_position (mp_encoder p') = 1 + length ?us"
    by (auto simp: assms(3,4))
  have len: "1 + length ?us \<le> 2 ^ 64" using encoder_position_bound [of "mp_encoder p'"] by (simp only: sent(3))
  have "set (readable ops arrived) = set (stream 1 ?us)"
    using readable_set [OF sent(2)] assms(6,7) by (simp add: sent(1))
  from complete_stream_folded [OF assms(8,9,10) this len]
  have v': "v' = apply_all (map as_numbered (stream 1 ?us)) (establish (blank_snapshot s) v)"
    by (simp add: fold_show_packet)
  have level: "last_level (feed_side d) None (relevant (blank_snapshot s) (map as_numbered (stream 1 ?us))) =
      shown_level (quote (side_queue (reachable_engine cs) s d))" for d
    using updates_follow_replay [OF len] replay_follows_queue [of cs] by (simp add: run_events_def)
  show ?thesis
    using apply_all_book [OF sorted_stream [OF len], of "blank_snapshot s" v] level [of Buy] level [of Sell]
    by (simp add: v' view_get_def blank_snapshot_def feed_side_def)
qed

text \<open>Two orders that trade, in two batches; the datagrams arrive in reverse order, the first one twice, with
  a malformed one between.\<close>

definition path_commands :: "command list" where
  "path_commands = [Submit_command (limit_submit key1 Buy 100 5), Submit_command (limit_submit key2 Sell 100 2)]"

definition path_batches :: "event list list" where
  "path_batches = map reply_events (snd (engine_run path_commands initial_engine))"

definition path_sent :: "u8 list list" where
  "path_sent = snd (fst (publish_all network_order wire_net path_batches (new_publisher, [])))"

definition path_arrived :: "u8 list list" where
  "path_arrived = rev path_sent @ [[1, 2, 3]] @ path_sent"

definition path_config :: processor_config where
  "path_config = \<lparr>pc_sequence_limits = \<lparr>bl_maximum_pending_values = 4, bl_maximum_sequence_gap = 5\<rparr>,
     pc_first_sequence = Some 1\<rparr>"

definition path_run :: "(processor \<times> top_of_book_view) \<times> processing_result outcome list" where
  "path_run = process_all (pure_consumer show_packet) (readable network_order path_arrived)
     (make_processor path_config, establish (blank_snapshot (Symbol_id 1)) empty_view)"

lemma path_packets: "readable network_order path_arrived =
    [update_packet 2 (to_book_update (Symbol_id 1) Buy (Some (Price 100)) 3),
     update_packet 1 (to_book_update (Symbol_id 1) Buy (Some (Price 100)) 5),
     update_packet 1 (to_book_update (Symbol_id 1) Buy (Some (Price 100)) 5),
     update_packet 2 (to_book_update (Symbol_id 1) Buy (Some (Price 100)) 3)]"
  by code_simp

lemma path_kept: "\<not> list_ex dropped (snd path_run)"
  by (simp add: path_run_def path_packets path_config_def make_processor_def make_sequenced_buffer_def process_pure_eq
        update_packet_def push_def drain_ready_step pop_ready_def advance_after_def dropped_def)

lemma view_shows_the_top_of_the_book_witness:
  "\<exists>n. view_get (Md_symbol_id 1) (snd (fst path_run)) =
    Some \<lparr>ts_instrument = Md_symbol_id 1, ts_reference_sequence = n,
      ts_best_bid = Some \<lparr>tl_price = 100, tl_aggregate_size = 3\<rparr>, ts_best_ask = None\<rparr>"
proof -
  let ?x = "publish_all network_order wire_net path_batches (new_publisher, [])"
  have "snd ?x = Inr ()" by code_simp
  then have sent: "?x = ((fst (fst ?x), path_sent), Inr ())" by (simp add: path_sent_def prod_eq_iff)
  have pos: "encoder_position (mp_encoder new_publisher) = 1" by (simp add: new_publisher_def encoder_position_def)
  have batches: "concat path_batches = run_events path_commands initial_engine"
    by (simp add: path_batches_def run_events_def)
  have all: "set (drop (length (id [])) (id path_sent)) \<subseteq> set path_arrived" by (auto simp: path_arrived_def)
  have "isl (decode network_order [1, 2, 3])" by code_simp
  then have only: "\<forall>d \<in> set path_arrived. d \<in> set (drop (length (id [])) (id path_sent)) \<or> isl (decode network_order d)"
    by (auto simp: path_arrived_def)
  have first: "pc_first_sequence path_config = Some 1" by (simp add: path_config_def)
  have run: "process_all (pure_consumer show_packet) (readable network_order path_arrived)
     (make_processor path_config, establish (blank_snapshot (Symbol_id 1)) empty_view) =
     ((fst (fst path_run), snd (fst path_run)), snd path_run)" unfolding path_run_def prod.collapse ..
  have "shown_level (quote (side_queue (reachable_engine path_commands) (Symbol_id 1) Buy)) =
      Some \<lparr>tl_price = 100, tl_aggregate_size = 3\<rparr>"
    "shown_level (quote (side_queue (reachable_engine path_commands) (Symbol_id 1) Sell)) = None"
    by code_simp+
  with view_shows_the_top_of_the_book
    [OF network.endian_axioms wire_net_sends pos batches sent all only first run path_kept]
  show ?thesis by simp
qed

section \<open>The two feed programs\<close>

text \<open>C8: what the simulator publishes is what the listener prints. The simulator is run with a message count
  over a network that takes every datagram, and the network carries them to the listener whole and in
  order; the listener's signal handlers can be installed. There is memory for the events of a burst, and
  the burst counter cannot wrap (it never does up to 2 to the 63 messages). Then both programs end with exit code
  zero and empty error output; the simulator's summary has one message per order, and the listener prints,
  for each order, the book update that the engine announced for it: the bid at 100 with one more in
  total.\<close>

theorem listener_prints_what_the_simulator_publishes:
  assumes "queue_factory qops contents closed room make_queue" "endian eops" "delivers log udp"
    and "carries eops log udp' wire" "log net = []"
    and "parse_simulator_options sarguments = Inr sopts" "so_message_count sopts = Some message_count" "so_quiet sopts"
    and "counter_fits (so_burst_size sopts) message_count" and "has_room mem (so_burst_size sopts) message_count"
    and "install_shutdown_handlers sigaction = Inr ()"
    and "parse_listener_options larguments = Inr lopts" "lo_stop_after lopts = None" "\<not> lo_quiet lopts"
  shows "\<exists>net'. simulator_main eops udp mem timing qops make_queue t sarguments net =
      Some (publisher_summary timing sopts (burst_result 1 0 (unat message_count)), [], net', 0) \<and>
    listener_main eops udp' sigaction ltiming (unat message_count) larguments (wire net') =
      (listening_line lopts @
       concat (map (\<lambda>k. ''received sequence='' @ decimal k @ '' symbol_id=1 side=buy best_price=100 aggregate_size='' @
         decimal k @ newline) [1..<Suc (unat message_count)]) @
       listener_summary ltiming (clean_counters (unat message_count)), [], 0)"
proof -
  let ?n = "unat message_count" and ?us = "map load_update [1..<Suc (unat message_count)]"
  from queue_factory.simulator_main_delivers [OF assms(1,2,3,5,6,7,9,10,8)] obtain net' where
    sim: "simulator_main eops udp mem timing qops make_queue t sarguments net =
      Some (publisher_summary timing sopts (burst_result 1 0 ?n), [], net', 0)"
    and sent: "map (decode eops) (log net') = map Inr (stream 1 ?us)" by blast
  have "0 < unat (so_burst_size sopts)"
    using parsed_options_positive [OF assms(6)] by (auto simp: positive_options_def unat_gt_0)
  then have fits: "1 + ?n < 2 ^ 64" using assms(9) by (auto simp: counter_fits_def)
  then have "1 + length ?us < 2 ^ 64" by simp
  from listener_main_in_order [OF assms(4) sent this assms(11-14)]
  have "listener_main eops udp' sigaction ltiming ?n larguments (wire net') =
      (listening_line lopts @ concat (map print_packet (stream 1 ?us)) @ listener_summary ltiming (clean_counters ?n), [], 0)"
    by (simp del: upt_Suc)
  moreover have "map print_packet (stream 1 ?us) =
      map (\<lambda>k. ''received sequence='' @ decimal k @ '' symbol_id=1 side=buy best_price=100 aggregate_size='' @
         decimal k @ newline) [1..<Suc ?n]"
  proof -
    have "map print_packet (stream 1 ?us) = map (\<lambda>k. print_packet (update_packet k (load_update k))) [1..<Suc ?n]"
      using load_stream [of 1 ?n] by (simp del: upt_Suc)
    also have "\<dots> = map (\<lambda>k. ''received sequence='' @ decimal k @ '' symbol_id=1 side=buy best_price=100 aggregate_size='' @
         decimal k @ newline) [1..<Suc ?n]"
      using fits by (intro map_cong refl print_load) auto
    finally show ?thesis .
  qed
  ultimately show ?thesis using sim by auto
qed

definition two_messages_arguments :: "string list" where
  "two_messages_arguments = [''--messages'', ''2'', ''--burst-size'', ''1'', ''--quiet'']"

lemma listener_prints_what_the_simulator_publishes_witness:
  "\<exists>out net'. simulator_main network_order wire_net small_memory (\<lambda>_. (''7'', ''9'')) bounded_ops new_bounded_queue 0 two_messages_arguments [] =
      Some (out, [], net', 0) \<and>
    listener_main network_order inbox_net (\<lambda>_. None) (\<lambda>_. (''7'', ''9'')) 2 [] net' =
      (listening_line default_listener_options @
       ''received sequence=1 symbol_id=1 side=buy best_price=100 aggregate_size=1'' @ newline @
       ''received sequence=2 symbol_id=1 side=buy best_price=100 aggregate_size=2'' @ newline @
       listener_summary (\<lambda>_. (''7'', ''9'')) (clean_counters 2), [], 0)"
proof -
  let ?o = "default_simulator_options\<lparr>so_message_count := Some 2, so_burst_size := 1, so_quiet := True\<rparr>"
  have parsed: "parse_simulator_options two_messages_arguments = Inr ?o" by code_simp
  have o: "so_message_count ?o = Some 2" "so_quiet ?o" "counter_fits (so_burst_size ?o) 2" "has_room small_memory (so_burst_size ?o) 2"
    by (simp_all add: counter_fits_def small_memory_room)
  have l: "parse_listener_options [] = Inr default_listener_options" "lo_stop_after default_listener_options = None"
    "\<not> lo_quiet default_listener_options" by (simp_all add: parse_listener_options_def default_listener_options_def)
  have handlers: "install_shutdown_handlers (\<lambda>_. None) = Inr ()" by (simp add: install_shutdown_handlers_def)
  have two: "[1..<Suc (unat (2 :: u64))] = [1, 2]" by (simp add: upt_rec)
  have digits: "decimal (Suc 0) = ''1''" "decimal 2 = ''2''" by code_simp+
  from listener_prints_what_the_simulator_publishes [OF factory.queue_factory_axioms network.endian_axioms
      wire_net_delivers inbox_carries _ parsed o handlers l, of "[]" "\<lambda>_. (''7'', ''9'')" 0 "\<lambda>_. (''7'', ''9'')"]
  show ?thesis unfolding two by (auto simp: digits)
qed

end
